(* ===== verification/Gateway_Prelude.thy ===== *)
theory Gateway_Prelude
  imports Main "HOL-Library.Word" "HOL-Library.Sublist" "HOL-Library.More_List"
begin

text \<open>
  What the components of the gateway share: the machine integers and the clock of the Rust
  program, the string operations of the Rust standard library that the sources call, panics
  and poisoned mutexes as values, and the lemmas about them that the component theories use.

  Strings are the UTF-8 bytes of the Rust \<^verbatim>\<open>str\<close>: \<^verbatim>\<open>len()\<close> is the length of
  the list. An \<^verbatim>\<open>Instant\<close> is a number of nanoseconds since a fixed epoch and a
  \<^verbatim>\<open>Duration\<close> a number of nanoseconds. Integer arithmetic is that of the release
  profile of Cargo.toml, which does not switch overflow checks on: \<^verbatim>\<open>+=\<close> wraps.
\<close>

named_theorems str_simps \<open>the string operations in terms of list operations\<close>
named_theorems lock_simps \<open>what an operation on a mutex-guarded component returns\<close>

section \<open>Machine integers, instants and durations\<close>

type_synonym u16 = "16 word"
type_synonym u32 = "32 word"
type_synonym u64 = "64 word"
type_synonym i64 = "64 word"
type_synonym usize = "64 word"
type_synonym instant = nat
type_synonym duration = nat

definition nanos_per_sec :: nat where
  "nanos_per_sec = 1000000000"

definition from_secs :: "u64 \<Rightarrow> duration" where
  "from_secs n = unat n * nanos_per_sec"

definition from_millis :: "u64 \<Rightarrow> duration" where
  "from_millis n = unat n * 1000000"

definition as_secs :: "duration \<Rightarrow> u64" where
  "as_secs d = of_nat (d div nanos_per_sec)"

text \<open>
  An \<^verbatim>\<open>Instant\<close> keeps its seconds in an \<^verbatim>\<open>i64\<close>. \<^verbatim>\<open>Instant + Duration\<close> panics
  when the sum is not representable; \<open>instant_add\<close> is \<^verbatim>\<open>None\<close> there.
\<close>

definition instant_limit :: nat where
  "instant_limit = 2 ^ 63 * nanos_per_sec"

definition instant_add :: "instant \<Rightarrow> duration \<Rightarrow> instant option" where
  "instant_add t d = (if t + d < instant_limit then Some (t + d) else None)"

definition duration_since :: "instant \<Rightarrow> instant \<Rightarrow> duration" where
  "duration_since now earlier = now - earlier"

definition saturating_add_u32 :: "u32 \<Rightarrow> u32 \<Rightarrow> u32" where
  "saturating_add_u32 a b = (if unat a + unat b < 2 ^ 32 then a + b else - 1)"

definition saturating_sub_u32 :: "u32 \<Rightarrow> u32 \<Rightarrow> u32" where
  "saturating_sub_u32 a b = (if b \<le> a then a - b else 0)"

section \<open>Strings\<close>

definition starts_with :: "string \<Rightarrow> string \<Rightarrow> bool" where
  "starts_with s p = prefix p s"

definition strip_prefix :: "string \<Rightarrow> string \<Rightarrow> string option" where
  "strip_prefix s p = (if prefix p s then Some (drop (length p) s) else None)"

definition trim_end_matches :: "string \<Rightarrow> char \<Rightarrow> string" where
  "trim_end_matches s c = strip_while (\<lambda>x. x = c) s"

text \<open>\<^verbatim>\<open>s.split(c).next()\<close>: the part before the first separator; there always is one.\<close>

definition split_next :: "string \<Rightarrow> char \<Rightarrow> string" where
  "split_next s c = takeWhile (\<lambda>x. x \<noteq> c) s"

definition byte_get :: "string \<Rightarrow> nat \<Rightarrow> char option" where
  "byte_get s i = (if i < length s then Some (s ! i) else None)"

definition char_lower :: "char \<Rightarrow> char" where
  "char_lower c = (if 65 \<le> (of_char c :: nat) \<and> (of_char c :: nat) \<le> 90
                   then char_of ((of_char c :: nat) + 32) else c)"

definition to_ascii_lowercase :: "string \<Rightarrow> string" where
  "to_ascii_lowercase s = map char_lower s"

definition eq_ignore_ascii_case :: "string \<Rightarrow> string \<Rightarrow> bool" where
  "eq_ignore_ascii_case a b \<longleftrightarrow> to_ascii_lowercase a = to_ascii_lowercase b"

definition str_contains :: "string \<Rightarrow> string \<Rightarrow> bool" where
  "str_contains s p = sublist p s"

text \<open>
  \<^verbatim>\<open>str::trim\<close>. The sources trim only the text of header values, which is ASCII, so the
  white space that matters is the ASCII one: tab, line feed, vertical tab, form feed,
  carriage return and space.
\<close>

definition is_space :: "char \<Rightarrow> bool" where
  "is_space c \<longleftrightarrow> c \<in> {CHR 0x09, CHR 0x0A, CHR 0x0B, CHR 0x0C, CHR 0x0D, CHR '' ''}"

definition trim :: "string \<Rightarrow> string" where
  "trim s = strip_while is_space (dropWhile is_space s)"

text \<open>Decimal text of an unsigned integer (\<^verbatim>\<open>to_string\<close>).\<close>

fun show_nat :: "nat \<Rightarrow> string" where
  "show_nat n = (if n < 10 then [char_of (48 + n)]
                 else show_nat (n div 10) @ [char_of (48 + n mod 10)])"

declare show_nat.simps [simp del]

section \<open>Panics and mutexes\<close>

text \<open>
  The value of a Rust call: it returns, or it panics. A stateful operation gives the value
  and the state it leaves, also when it panics half way.
\<close>

datatype 'a res = Ret 'a | is_Panic: Panic

fun bind_res :: "'a res \<times> 's \<Rightarrow> ('a \<Rightarrow> 's \<Rightarrow> 'b res \<times> 't) \<Rightarrow> ('s \<Rightarrow> 't) \<Rightarrow> 'b res \<times> 't" where
  "bind_res (Ret a, s) f g = f a s"
| "bind_res (Panic, s) f g = (Panic, g s)"

text \<open>
  \<^verbatim>\<open>std::sync::Mutex\<close>: a thread that panics while it holds the lock poisons it, and
  \<^verbatim>\<open>lock().expect(..)\<close> on a poisoned mutex panics.
\<close>

record 'a mutex =
  guarded :: 'a
  poisoned :: bool

definition mutex_new :: "'a \<Rightarrow> 'a mutex" where
  "mutex_new a = \<lparr>guarded = a, poisoned = False\<rparr>"

definition with_lock :: "'a mutex \<Rightarrow> ('a \<Rightarrow> 'b res \<times> 'a) \<Rightarrow> 'b res \<times> 'a mutex" where
  "with_lock m f =
     (if poisoned m then (Panic, m)
      else let (r, a) = f (guarded m) in (r, \<lparr>guarded = a, poisoned = is_Panic r\<rparr>))"

text \<open>The \<^verbatim>\<open>?\<close> operator on \<^verbatim>\<open>Result\<close>: stop at the first error.\<close>

fun and_then :: "'e + 'a \<Rightarrow> ('a \<Rightarrow> 'e + 'b) \<Rightarrow> 'e + 'b" where
  "and_then (Inl e) f = Inl e"
| "and_then (Inr a) f = f a"

section \<open>Lists updated at an index\<close>

text \<open>How an update changes the number of elements that satisfy a predicate.\<close>

lemma length_filter_update:
  "i < length xs \<Longrightarrow> length (filter P (xs[i := x])) + of_bool (P (xs ! i)) = length (filter P xs) + of_bool (P x)"
proof (induction xs arbitrary: i)
  case (Cons y ys)
  then show ?case by (cases i) auto
qed simp

section \<open>State machines\<close>

text \<open>
  The contract of a state machine whose steps keep an invariant, and what it gives: the
  invariant holds in every state reached from one where it holds, and along every run of
  a step function that refines the relation.
\<close>

locale machine =
  fixes step :: "'s \<Rightarrow> 's \<Rightarrow> bool"
    and inv :: "'s \<Rightarrow> bool"
  assumes step_inv: "step s t \<Longrightarrow> inv s \<Longrightarrow> inv t"
begin

lemma reach_inv: "step\<^sup>*\<^sup>* s t \<Longrightarrow> inv s \<Longrightarrow> inv t"
  by (induction rule: rtranclp_induct) (auto intro: step_inv)

lemma run_inv: "(\<And>s e. step s (f s e)) \<Longrightarrow> inv s \<Longrightarrow> inv (foldl f s es)"
  by (induction es arbitrary: s) (simp_all, blast intro: step_inv)

end

section \<open>Lemmas\<close>

subsection \<open>Results\<close>

lemma and_then_Inr_iff: "and_then r f = Inr b \<longleftrightarrow> (\<exists>a. r = Inr a \<and> f a = Inr b)"
  by (cases r) auto

lemma and_then_unit_Inr_iff: "and_then r f = Inr b \<longleftrightarrow> r = Inr () \<and> f () = Inr b"
  by (cases r) auto

lemma res_not_Panic_iff: "r \<noteq> Panic \<longleftrightarrow> (\<exists>a. r = Ret a)"
  by (cases r) auto

lemma with_lock_unpoisoned [lock_simps]:
  "\<not> poisoned m \<Longrightarrow>
   with_lock m f = (fst (f (guarded m)), \<lparr>guarded = snd (f (guarded m)), poisoned = is_Panic (fst (f (guarded m)))\<rparr>)"
  by (simp add: with_lock_def case_prod_beta)

lemma with_lock_poisoned [lock_simps]: "poisoned m \<Longrightarrow> with_lock m f = (Panic, m)"
  by (simp add: with_lock_def)

lemma mutex_new_simps [simp]: "guarded (mutex_new a) = a" "\<not> poisoned (mutex_new a)"
  by (simp_all add: mutex_new_def)

subsection \<open>Strings\<close>

lemma starts_with_append: "starts_with s p \<longleftrightarrow> (\<exists>t. s = p @ t)"
  by (simp add: starts_with_def prefix_def)

lemma strip_prefix_Some: "strip_prefix s p = Some t \<longleftrightarrow> s = p @ t"
  by (auto simp: strip_prefix_def elim!: prefixE)

lemma strip_prefix_None: "strip_prefix s p = None \<longleftrightarrow> \<not> starts_with s p"
  by (simp add: strip_prefix_def starts_with_def)

lemma trim_end_matches_last: "trim_end_matches s c \<noteq> [] \<Longrightarrow> last (trim_end_matches s c) \<noteq> c"
  using hd_dropWhile [of "\<lambda>x. x = c" "rev s"]
  by (simp add: trim_end_matches_def strip_while_def last_rev)

lemma trim_end_matches_append: "\<exists>n. s = trim_end_matches s c @ replicate n c"
proof -
  have "s = strip_while (\<lambda>x. x = c) s @ rev (takeWhile (\<lambda>x. x = c) (rev s))"
    by (metis rev_append rev_rev_ident strip_while_rev takeWhile_dropWhile_id)
  moreover have "rev (takeWhile (\<lambda>x. x = c) (rev s))
      = replicate (length (takeWhile (\<lambda>x. x = c) (rev s))) c"
    by (metis (mono_tags, lifting) replicate_length_same rev_replicate set_takeWhileD)
  ultimately show ?thesis
    unfolding trim_end_matches_def by metis
qed

lemma trim_end_matches_idem [simp]:
  "trim_end_matches (trim_end_matches s c) c = trim_end_matches s c"
  by (simp add: trim_end_matches_def strip_while_idem)

lemma byte_get_append: "byte_get (p @ t) (length p) = (case t of [] \<Rightarrow> None | c # _ \<Rightarrow> Some c)"
  by (auto simp: byte_get_def nth_append split: list.splits)

lemma eq_ignore_ascii_case_refl [simp]: "eq_ignore_ascii_case a a"
  by (simp add: eq_ignore_ascii_case_def)

lemma char_lower_idem [simp]: "char_lower (char_lower c) = char_lower c"
proof (cases "65 \<le> (of_char c :: nat) \<and> (of_char c :: nat) \<le> 90")
  case True
  then have "(of_char (char_lower c) :: nat) = of_char c + 32"
    by (simp add: char_lower_def)
  with True show ?thesis
    by (simp add: char_lower_def [of "char_lower c"])
next
  case False
  then show ?thesis by (auto simp: char_lower_def)
qed

lemma to_ascii_lowercase_idem [simp]: "to_ascii_lowercase (to_ascii_lowercase s) = to_ascii_lowercase s"
  by (simp add: to_ascii_lowercase_def)

lemma length_to_ascii_lowercase [simp]: "length (to_ascii_lowercase s) = length s"
  by (simp add: to_ascii_lowercase_def)

text \<open>A separator that does not occur in the first part makes a joined string unambiguous.\<close>

lemma join_inject:
  assumes "a @ c # b = a' @ c # b'" and "c \<notin> set a" and "c \<notin> set a'"
  shows "a = a' \<and> b = b'"
proof -
  have "takeWhile (\<lambda>x. x \<noteq> c) (a @ c # b) = a" "takeWhile (\<lambda>x. x \<noteq> c) (a' @ c # b') = a'"
    using assms(2,3) by (simp_all add: takeWhile_append)
  with assms(1) show ?thesis by simp
qed

subsection \<open>Lists\<close>

lemma count_list_replicate: "count_list (replicate n x) y = (if x = y then n else 0)"
  by (induction n) auto

lemma count_list_remove1:
  "count_list (remove1 x xs) y = (if x = y then count_list xs y - 1 else count_list xs y)"
  by (induction xs) (auto simp: count_list_0_iff Suc_leI)

subsection \<open>Words\<close>

lemma unat_u32_less: "unat (w :: u32) < 2 ^ 32"
  using unsigned_less [of w, where ?'a = nat] by simp

lemma unat_u64_less: "unat (w :: u64) < 2 ^ 64"
  using unsigned_less [of w, where ?'a = nat] by simp

lemma unat_saturating_sub_u32: "unat (saturating_sub_u32 a b) = unat a - unat b"
  by (auto simp: saturating_sub_u32_def unat_sub word_le_nat_alt)

lemma unat_Suc_u32: "Suc (unat (w :: u32)) < 2 ^ 32 \<Longrightarrow> unat (w + 1) = Suc (unat w)"
  by (simp add: unat_word_ariths)

lemma unat_Suc_u64: "Suc (unat (w :: u64)) < 2 ^ 64 \<Longrightarrow> unat (w + 1) = Suc (unat w)"
  by (simp add: unat_word_ariths)

end
