(* ===== verification/Gateway_Config.thy ===== *)
theory Gateway_Config
  imports Gateway_Prelude
begin

text \<open>
  The configuration model of \<^verbatim>\<open>crates/core/src/config.rs\<close> and the errors of
  \<^verbatim>\<open>crates/core/src/error.rs\<close>: the structs as records (each field carries a prefix for its
  struct), the enums as datatypes, the serde defaults as constants, and
  \<^verbatim>\<open>validate\<close>, \<^verbatim>\<open>from_yaml\<close> and \<^verbatim>\<open>from_file\<close> as functions into a sum whose left
  side is the error. A \<^verbatim>\<open>HashMap\<close> that is only iterated or looked up is an association
  list in its iteration order. The YAML parser and the file system are arguments.
\<close>

section \<open>Errors\<close>

datatype config_error = Io string | Parse string | Invalid string

section \<open>Configuration data\<close>

datatype strategy = RoundRobin | LeastConnections

datatype auth_policy =
    AuthNone
  | ApiKey "string list"
  | Jwt string "(string \<times> string) list"

datatype rate_scope = ScopeIp | ScopeApiKey | ScopeRoute

record match_config =
  mc_host :: "string option"
  mc_path_prefix :: string

record upstream_config =
  uc_url :: string
  uc_weight :: u32

record rate_limit_config =
  rl_scope :: rate_scope
  rl_limit :: u32
  rl_window_secs :: u64

record cache_config =
  cc_ttl_secs :: u64
  cc_max_entries :: usize

record circuit_breaker_config =
  cb_failure_threshold :: u32
  cb_open_secs :: u64

record health_check_config =
  hc_path :: string
  hc_interval_secs :: u64
  hc_timeout_ms :: u64

record header_transforms =
  ht_add :: "(string \<times> string) list"
  ht_remove :: "string list"

record route_config =
  rc_name :: string
  rc_matches :: match_config
  rc_upstreams :: "upstream_config list"
  rc_strategy :: strategy
  rc_strip_path_prefix :: bool
  rc_timeout_ms :: "u64 option"
  rc_retries :: u32
  rc_auth :: auth_policy
  rc_rate_limit :: "rate_limit_config option"
  rc_cache :: "cache_config option"
  rc_circuit_breaker :: circuit_breaker_config
  rc_health_check :: "health_check_config option"
  rc_request_headers :: header_transforms
  rc_response_headers :: header_transforms

record server_config =
  sc_bind_addr :: string
  sc_admin_bind_addr :: string
  sc_max_body_bytes :: usize
  sc_default_timeout_ms :: u64
  sc_redis_url :: "string option"

record gateway_config =
  gc_server :: server_config
  gc_routes :: "route_config list"

section \<open>Defaults\<close>

definition default_bind :: string where
  "default_bind = ''0.0.0.0:8080''"

definition default_admin_bind :: string where
  "default_admin_bind = ''0.0.0.0:9090''"

definition default_max_body :: usize where
  "default_max_body = 8 * 1024 * 1024"

definition default_timeout_ms :: u64 where
  "default_timeout_ms = 30000"

definition server_config_default :: server_config where
  "server_config_default =
     \<lparr>sc_bind_addr = default_bind, sc_admin_bind_addr = default_admin_bind,
      sc_max_body_bytes = default_max_body, sc_default_timeout_ms = default_timeout_ms,
      sc_redis_url = None\<rparr>"

definition default_prefix :: string where
  "default_prefix = ''/''"

definition match_config_default :: match_config where
  "match_config_default = \<lparr>mc_host = None, mc_path_prefix = default_prefix\<rparr>"

definition default_weight :: u32 where
  "default_weight = 1"

definition strategy_default :: strategy where
  "strategy_default = RoundRobin"

definition auth_policy_default :: auth_policy where
  "auth_policy_default = AuthNone"

definition rate_scope_default :: rate_scope where
  "rate_scope_default = ScopeIp"

definition default_window :: u64 where
  "default_window = 60"

definition default_cache_cap :: usize where
  "default_cache_cap = 1024"

definition default_cb_threshold :: u32 where
  "default_cb_threshold = 5"

definition default_cb_open_secs :: u64 where
  "default_cb_open_secs = 10"

definition circuit_breaker_config_default :: circuit_breaker_config where
  "circuit_breaker_config_default =
     \<lparr>cb_failure_threshold = default_cb_threshold, cb_open_secs = default_cb_open_secs\<rparr>"

definition default_hc_interval :: u64 where
  "default_hc_interval = 5"

definition default_hc_timeout :: u64 where
  "default_hc_timeout = 2000"

definition header_transforms_default :: header_transforms where
  "header_transforms_default = \<lparr>ht_add = [], ht_remove = []\<rparr>"

text \<open>
  A route given by its two required keys, every other key at its \<^verbatim>\<open>#[serde(default)]\<close>.
\<close>

definition route_with_defaults :: "string \<Rightarrow> upstream_config list \<Rightarrow> route_config" where
  "route_with_defaults n us =
     \<lparr>rc_name = n, rc_matches = match_config_default, rc_upstreams = us,
      rc_strategy = strategy_default, rc_strip_path_prefix = False, rc_timeout_ms = None,
      rc_retries = 0, rc_auth = auth_policy_default, rc_rate_limit = None, rc_cache = None,
      rc_circuit_breaker = circuit_breaker_config_default, rc_health_check = None,
      rc_request_headers = header_transforms_default,
      rc_response_headers = header_transforms_default\<rparr>"

section \<open>Validation\<close>

fun validate_upstreams :: "string \<Rightarrow> upstream_config list \<Rightarrow> config_error + unit" where
  "validate_upstreams n [] = Inr ()"
| "validate_upstreams n (u # us) =
     (if \<not> (starts_with (uc_url u) ''http://'' \<or> starts_with (uc_url u) ''https://'')
      then Inl (Invalid (''route '' @ [CHR 0x27] @ n @ [CHR 0x27]
             @ '' upstream url must start with http:// or https://: '' @ uc_url u))
      else if uc_weight u = 0
      then Inl (Invalid (''route '' @ [CHR 0x27] @ n @ [CHR 0x27] @ '' upstream weight must be >= 1''))
      else validate_upstreams n us)"

definition validate_auth :: "route_config \<Rightarrow> config_error + unit" where
  "validate_auth r =
     (case rc_auth r of
        ApiKey ks \<Rightarrow>
          if ks = []
          then Inl (Invalid (''route '' @ [CHR 0x27] @ rc_name r @ [CHR 0x27] @ '' api_key auth has no keys''))
          else Inr ()
      | _ \<Rightarrow> Inr ())"

fun validate_routes :: "string set \<Rightarrow> route_config list \<Rightarrow> config_error + unit" where
  "validate_routes names [] = Inr ()"
| "validate_routes names (r # rs) =
     (if rc_name r \<in> names
      then Inl (Invalid (''duplicate route name: '' @ rc_name r))
      else if rc_upstreams r = []
      then Inl (Invalid (''route '' @ [CHR 0x27] @ rc_name r @ [CHR 0x27] @ '' has no upstreams''))
      else and_then (validate_upstreams (rc_name r) (rc_upstreams r)) (\<lambda>_.
        if \<not> starts_with (mc_path_prefix (rc_matches r)) ''/''
        then Inl (Invalid (''route '' @ [CHR 0x27] @ rc_name r @ [CHR 0x27]
               @ '' path_prefix must start with '' @ [CHR 0x27] @ ''/'' @ [CHR 0x27]))
        else and_then (validate_auth r) (\<lambda>_.
          validate_routes (insert (rc_name r) names) rs)))"

definition validate :: "gateway_config \<Rightarrow> config_error + unit" where
  "validate c =
     (if gc_routes c = [] then Inl (Invalid ''no routes configured'')
      else validate_routes {} (gc_routes c))"

text \<open>\<open>yaml_parse\<close> stands for \<^verbatim>\<open>serde_yaml::from_str\<close>, its error already as text.\<close>

definition from_yaml ::
  "(string \<Rightarrow> string + gateway_config) \<Rightarrow> string \<Rightarrow> config_error + gateway_config" where
  "from_yaml yaml_parse yaml =
     and_then (case yaml_parse yaml of Inl e \<Rightarrow> Inl (Parse e) | Inr cfg \<Rightarrow> Inr cfg) (\<lambda>cfg.
       and_then (validate cfg) (\<lambda>_. Inr cfg))"

definition from_file ::
  "(string \<Rightarrow> string + gateway_config) \<Rightarrow> (string \<Rightarrow> string + string) \<Rightarrow> string
   \<Rightarrow> config_error + gateway_config" where
  "from_file yaml_parse read_to_string path =
     and_then (case read_to_string path of
                 Inl e \<Rightarrow> Inl (Io (path @ '': '' @ e)) | Inr txt \<Rightarrow> Inr txt) (\<lambda>txt.
       from_yaml yaml_parse txt)"

section \<open>What validation guarantees\<close>

definition valid_upstream :: "upstream_config \<Rightarrow> bool" where
  "valid_upstream u \<longleftrightarrow>
     (starts_with (uc_url u) ''http://'' \<or> starts_with (uc_url u) ''https://'') \<and> uc_weight u \<noteq> 0"

definition valid_auth :: "auth_policy \<Rightarrow> bool" where
  "valid_auth a \<longleftrightarrow> (\<forall>ks. a = ApiKey ks \<longrightarrow> ks \<noteq> [])"

definition valid_route :: "route_config \<Rightarrow> bool" where
  "valid_route r \<longleftrightarrow>
     rc_upstreams r \<noteq> [] \<and> (\<forall>u \<in> set (rc_upstreams r). valid_upstream u)
     \<and> starts_with (mc_path_prefix (rc_matches r)) ''/'' \<and> valid_auth (rc_auth r)"

definition valid_config :: "gateway_config \<Rightarrow> bool" where
  "valid_config c \<longleftrightarrow>
     gc_routes c \<noteq> [] \<and> distinct (map rc_name (gc_routes c))
     \<and> (\<forall>r \<in> set (gc_routes c). valid_route r)"

lemma validate_upstreams_Inr:
  "validate_upstreams n us = Inr () \<longleftrightarrow> (\<forall>u \<in> set us. valid_upstream u)"
  by (induction us) (auto simp: valid_upstream_def)

lemma validate_auth_Inr: "validate_auth r = Inr () \<longleftrightarrow> valid_auth (rc_auth r)"
  by (auto simp: validate_auth_def valid_auth_def split: auth_policy.splits)

lemma validate_routes_Inr:
  "validate_routes names rs = Inr () \<longleftrightarrow>
     distinct (map rc_name rs) \<and> rc_name ` set rs \<inter> names = {} \<and> (\<forall>r \<in> set rs. valid_route r)"
  by (induction rs arbitrary: names)
    (auto simp: and_then_unit_Inr_iff validate_upstreams_Inr validate_auth_Inr valid_route_def)

lemma validate_Inr_iff: "validate c = Inr () \<longleftrightarrow> valid_config c"
  by (auto simp: validate_def valid_config_def validate_routes_Inr)

lemma validate_upstreams_error: "validate_upstreams n us = Inl e \<Longrightarrow> \<exists>m. e = Invalid m"
  by (induction us) (auto split: if_splits)

lemma validate_routes_error: "validate_routes names rs = Inl e \<Longrightarrow> \<exists>m. e = Invalid m"
  by (induction rs arbitrary: names)
    (auto simp: validate_auth_def split: if_splits auth_policy.splits
      elim!: and_then.elims dest: validate_upstreams_error)

text \<open>
  The scan reports the first offending route: everything before it in the file is valid.
\<close>

lemma validate_routes_split:
  "validate_routes names (rs @ rs') =
     and_then (validate_routes names rs) (\<lambda>_. validate_routes (names \<union> rc_name ` set rs) rs')"
proof (induction rs arbitrary: names)
  case (Cons r rs)
  show ?case
    by (cases "validate_upstreams (rc_name r) (rc_upstreams r)"; cases "validate_auth r")
      (simp_all add: Cons.IH)
qed simp

section \<open>Properties\<close>

text \<open>Validation accepts a configuration exactly when it satisfies the structural
  invariants: at least one route, distinct route names, and for every route at least one
  upstream, http(s) urls, weights of at least one, a path prefix that starts with a slash and,
  for API-key authentication, at least one key.\<close>

theorem validate_iff_valid: "validate c = Inr () \<longleftrightarrow> valid_config c"
  by (rule validate_Inr_iff)

text \<open>Loading a file gives a configuration exactly when the file can be read, its text
  parses to that configuration and the configuration is valid: no invalid configuration ever
  reaches the gateway, and no valid one is rejected.\<close>

theorem from_file_iff:
  "from_file parse rd path = Inr cfg \<longleftrightarrow>
     (\<exists>txt. rd path = Inr txt \<and> parse txt = Inr cfg \<and> valid_config cfg)"
  by (auto simp: from_file_def from_yaml_def and_then_Inr_iff validate_Inr_iff split: sum.splits)

text \<open>Validation stops at the first offending route: when the routes before it are valid
  and the route itself is refused, the whole configuration is refused with exactly that
  route's error, whatever follows it in the file; the error is of the kind Invalid.\<close>

theorem validate_first_error:
  assumes "validate_routes {} rs = Inr ()"
    and "validate_routes (rc_name ` set rs) [r] = Inl e"
    and "gc_routes c = rs @ r # rs'"
  shows "validate c = Inl e \<and> (\<exists>m. e = Invalid m)"
proof -
  have "validate_routes (rc_name ` set rs) ([r] @ rs') = Inl e"
    using assms(2) by (simp only: validate_routes_split and_then.simps)
  with assms(1,3) validate_routes_error [OF assms(2)] show ?thesis
    by (simp add: validate_def validate_routes_split)
qed

theorem validate_first_error_witness:
  "validate \<lparr>gc_server = server_config_default,
     gc_routes = [route_with_defaults ''a'' [\<lparr>uc_url = ''http://h'', uc_weight = 1\<rparr>],
                  route_with_defaults ''a'' [\<lparr>uc_url = ''http://h'', uc_weight = 1\<rparr>],
                  route_with_defaults ''b'' []]\<rparr>
   = Inl (Invalid ''duplicate route name: a'')"
  using validate_first_error [of "[route_with_defaults ''a'' [\<lparr>uc_url = ''http://h'', uc_weight = 1\<rparr>]]"
      "route_with_defaults ''a'' [\<lparr>uc_url = ''http://h'', uc_weight = 1\<rparr>]"
      "Invalid ''duplicate route name: a''"
      "\<lparr>gc_server = server_config_default,
        gc_routes = [route_with_defaults ''a'' [\<lparr>uc_url = ''http://h'', uc_weight = 1\<rparr>],
                  route_with_defaults ''a'' [\<lparr>uc_url = ''http://h'', uc_weight = 1\<rparr>],
                  route_with_defaults ''b'' []]\<rparr>" "[route_with_defaults ''b'' []]"]
  by (simp add: route_with_defaults_def match_config_default_def default_prefix_def
      starts_with_def validate_auth_def auth_policy_default_def)

end
