(* ===== verification/Router.thy ===== *)
theory Router
  imports Gateway_Config
begin

text \<open>
  Host and path-prefix routing, \<^verbatim>\<open>crates/core/src/router.rs\<close>. The loop of
  \<^verbatim>\<open>match_route\<close> is a recursion over the routes with the two loop variables
  \<^verbatim>\<open>best\<close> and \<^verbatim>\<open>best_len\<close>; the specification it is compared with picks the first
  route that is greatest in the order of \<open>route_key\<close>.
\<close>

section \<open>Definitions\<close>

definition strip_port :: "string \<Rightarrow> string" where
  "strip_port host = split_next host (CHR '':'')"

definition path_matches :: "string \<Rightarrow> string \<Rightarrow> bool" where
  "path_matches path pfx =
     (if pfx = ''/'' then True
      else let pfx = trim_end_matches pfx (CHR ''/'') in
        if path = pfx then True
        else starts_with path pfx \<and> byte_get path (length pfx) = Some (CHR ''/''))"

definition host_matches :: "string option \<Rightarrow> route_config \<Rightarrow> bool" where
  "host_matches host route =
     (case mc_host (rc_matches route) of
        None \<Rightarrow> True
      | Some want \<Rightarrow>
          (let got = (case host of None \<Rightarrow> '''' | Some h \<Rightarrow> strip_port h)
           in eq_ignore_ascii_case got (strip_port want)))"

definition more_specific :: "route_config option \<Rightarrow> nat \<Rightarrow> route_config \<Rightarrow> bool" where
  "more_specific best best_len route =
     (let len = length (mc_path_prefix (rc_matches route)) in
      len > best_len
      \<or> (len = best_len \<and> mc_host (rc_matches route) \<noteq> None
         \<and> (case best of None \<Rightarrow> False | Some b \<Rightarrow> mc_host (rc_matches b) = None)))"

fun match_loop ::
  "string option \<Rightarrow> string \<Rightarrow> route_config list \<Rightarrow> route_config option \<Rightarrow> nat \<Rightarrow> route_config option" where
  "match_loop host path [] best best_len = best"
| "match_loop host path (route # routes) best best_len =
     (if \<not> host_matches host route then match_loop host path routes best best_len
      else if path_matches path (mc_path_prefix (rc_matches route))
           \<and> (best = None \<or> more_specific best best_len route)
      then match_loop host path routes (Some route) (length (mc_path_prefix (rc_matches route)))
      else match_loop host path routes best best_len)"

definition match_route :: "gateway_config \<Rightarrow> string option \<Rightarrow> string \<Rightarrow> route_config option" where
  "match_route config host path = match_loop host path (gc_routes config) None 0"

definition forward_path :: "string \<Rightarrow> route_config \<Rightarrow> string" where
  "forward_path path route =
     (if \<not> rc_strip_path_prefix route \<or> mc_path_prefix (rc_matches route) = ''/'' then path
      else let pfx = trim_end_matches (mc_path_prefix (rc_matches route)) (CHR ''/'');
               stripped = (case strip_prefix path pfx of None \<Rightarrow> path | Some t \<Rightarrow> t)
           in if stripped = '''' then ''/'' else stripped)"

section \<open>The specification\<close>

definition applicable :: "string option \<Rightarrow> string \<Rightarrow> route_config \<Rightarrow> bool" where
  "applicable host path r \<longleftrightarrow>
     host_matches host r \<and> path_matches path (mc_path_prefix (rc_matches r))"

text \<open>Specificity: the prefix length first, a host constraint breaks ties. It is a linear order.\<close>

datatype specificity = Specificity (sp_prefix: nat) (sp_host: bool)

instantiation specificity :: linorder
begin

definition less_eq_specificity :: "specificity \<Rightarrow> specificity \<Rightarrow> bool" where
  "less_eq_specificity a b \<longleftrightarrow> sp_prefix a < sp_prefix b \<or> sp_prefix a = sp_prefix b \<and> (sp_host a \<longrightarrow> sp_host b)"

definition less_specificity :: "specificity \<Rightarrow> specificity \<Rightarrow> bool" where
  "less_specificity a b \<longleftrightarrow> sp_prefix a < sp_prefix b \<or> sp_prefix a = sp_prefix b \<and> \<not> sp_host a \<and> sp_host b"

instance
  by standard (auto simp: less_eq_specificity_def less_specificity_def intro: specificity.expand)

end

definition route_key :: "route_config \<Rightarrow> specificity" where
  "route_key r = Specificity (length (mc_path_prefix (rc_matches r))) (mc_host (rc_matches r) \<noteq> None)"

fun first_max :: "('a \<Rightarrow> 'k::linorder) \<Rightarrow> 'a list \<Rightarrow> 'a option" where
  "first_max f [] = None"
| "first_max f (x # xs) =
     (case first_max f xs of None \<Rightarrow> Some x | Some y \<Rightarrow> if f x < f y then Some y else Some x)"

section \<open>Lemmas\<close>

subsection \<open>First greatest element of a list\<close>

lemma first_max_None [simp]: "first_max f xs = None \<longleftrightarrow> xs = []"
  by (cases xs) (auto split: option.splits)

lemma first_max_SomeD:
  "first_max f xs = Some y \<Longrightarrow> y \<in> set xs \<and> (\<forall>x \<in> set xs. f x \<le> f y)"
  by (induction xs arbitrary: y) (fastforce split: option.splits if_splits)+

lemma first_max_filter_split:
  "first_max f (filter P xs) = Some y \<Longrightarrow>
     P y \<and> (\<exists>as bs. xs = as @ y # bs \<and> (\<forall>x \<in> set as. P x \<longrightarrow> f x < f y)
                                  \<and> (\<forall>x \<in> set bs. P x \<longrightarrow> f x \<le> f y))"
proof (induction xs arbitrary: y)
  case (Cons x xs)
  let ?m = "first_max f (filter P xs)"
  show ?case
  proof (cases "P x \<and> (\<forall>z. ?m = Some z \<longrightarrow> f z \<le> f x)")
    case True
    then have y: "y = x" "P x"
      using Cons.prems by (auto split: option.splits if_splits)
    have "f z \<le> f x" if "z \<in> set xs" "P z" for z
    proof (cases ?m)
      case None
      with that show ?thesis by (auto simp: filter_empty_conv)
    next
      case (Some w)
      with that True first_max_SomeD [OF Some] show ?thesis by fastforce
    qed
    with y have "x # xs = [] @ y # xs \<and> (\<forall>z \<in> set []. P z \<longrightarrow> f z < f y)
        \<and> (\<forall>z \<in> set xs. P z \<longrightarrow> f z \<le> f y)" by simp
    with y show ?thesis by blast
  next
    case False
    then have m: "?m = Some y" and x: "P x \<longrightarrow> f x < f y"
      using Cons.prems by (auto split: option.splits if_splits)
    from Cons.IH [OF m] obtain as bs where "P y" "xs = as @ y # bs"
      "\<forall>x \<in> set as. P x \<longrightarrow> f x < f y" "\<forall>x \<in> set bs. P x \<longrightarrow> f x \<le> f y" by blast
    with x have "P y" "x # xs = (x # as) @ y # bs \<and> (\<forall>z \<in> set (x # as). P z \<longrightarrow> f z < f y)
        \<and> (\<forall>z \<in> set bs. P z \<longrightarrow> f z \<le> f y)" by simp_all
    then show ?thesis by blast
  qed
qed simp

lemma first_max_set_eq:
  assumes "set xs = set ys" and "inj_on f (set xs)"
  shows "first_max f xs = first_max f ys"
proof (cases "first_max f xs")
  case None
  with assms(1) show ?thesis by (metis first_max_None set_empty)
next
  case (Some x)
  with assms(1) obtain y where y: "first_max f ys = Some y"
    by (metis first_max_None not_Some_eq set_empty)
  from first_max_SomeD [OF Some] first_max_SomeD [OF y] assms(1) have "f x = f y"
    by (auto intro: antisym)
  with first_max_SomeD [OF Some] first_max_SomeD [OF y] assms have "x = y"
    by (auto dest: inj_onD)
  with Some y show ?thesis by simp
qed

subsection \<open>The loop computes the first greatest applicable route\<close>

lemma more_specific_key:
  "more_specific (Some b) (length (mc_path_prefix (rc_matches b))) r \<longleftrightarrow> route_key b < route_key r"
  by (auto simp: more_specific_def route_key_def less_specificity_def Let_def)

lemma match_loop_Cons:
  "match_loop host path (r # rs) best n =
     (if applicable host path r \<and> (best = None \<or> more_specific best n r)
      then match_loop host path rs (Some r) (length (mc_path_prefix (rc_matches r)))
      else match_loop host path rs best n)"
  by (auto simp: applicable_def)

declare match_loop.simps(2) [simp del]

lemma match_loop_Some:
  "match_loop host path rs (Some b) (length (mc_path_prefix (rc_matches b))) =
     first_max route_key (b # filter (applicable host path) rs)"
proof (induction rs arbitrary: b)
  case (Cons r rs)
  then show ?case
    by (auto simp: match_loop_Cons more_specific_key split: option.splits)
qed simp

lemma match_loop_None:
  "match_loop host path rs None 0 = first_max route_key (filter (applicable host path) rs)"
  by (induction rs) (simp_all add: match_loop_Cons match_loop_Some)

lemma match_route_first_max:
  "match_route c host path = first_max route_key (filter (applicable host path) (gc_routes c))"
  by (simp add: match_route_def match_loop_None)

lemma match_route_SomeD:
  assumes "match_route c host path = Some r"
  shows "r \<in> set (gc_routes c)" "applicable host path r"
    "\<And>r'. r' \<in> set (gc_routes c) \<Longrightarrow> applicable host path r' \<Longrightarrow> route_key r' \<le> route_key r"
  using first_max_SomeD [OF assms [unfolded match_route_first_max]] by auto

lemma match_route_None_iff:
  "match_route c host path = None \<longleftrightarrow> (\<forall>r \<in> set (gc_routes c). \<not> applicable host path r)"
  by (simp add: match_route_first_max filter_empty_conv)

lemma route_key_le_iff:
  "route_key r' \<le> route_key r \<longleftrightarrow>
     length (mc_path_prefix (rc_matches r')) < length (mc_path_prefix (rc_matches r))
     \<or> (length (mc_path_prefix (rc_matches r')) = length (mc_path_prefix (rc_matches r))
        \<and> (mc_host (rc_matches r') \<noteq> None \<longrightarrow> mc_host (rc_matches r) \<noteq> None))"
  by (auto simp: route_key_def less_eq_specificity_def)

subsection \<open>Paths\<close>

lemma path_matches_iff:
  "path_matches path pfx \<longleftrightarrow>
     pfx = ''/'' \<or> (let p = trim_end_matches pfx (CHR ''/'')
                     in path = p \<or> (\<exists>t. path = p @ CHR ''/'' # t))"
proof -
  have "starts_with path p \<and> byte_get path (length p) = Some c \<longleftrightarrow> (\<exists>t. path = p @ c # t)" for p c
    by (auto simp: starts_with_append byte_get_append split: list.splits)
  then show ?thesis
    by (simp add: path_matches_def Let_def)
qed

lemma forward_path_strip:
  assumes "rc_strip_path_prefix r" and "mc_path_prefix (rc_matches r) \<noteq> ''/''"
    and "path = trim_end_matches (mc_path_prefix (rc_matches r)) (CHR ''/'') @ rest"
  shows "forward_path path r = (if rest = '''' then ''/'' else rest)"
proof -
  have "strip_prefix path (trim_end_matches (mc_path_prefix (rc_matches r)) (CHR ''/'')) = Some rest"
    by (simp add: strip_prefix_Some assms(3))
  with assms(1,2) show ?thesis by (simp add: forward_path_def)
qed

section \<open>Properties\<close>

text \<open>C40. Route matching: when no route is returned, no route applies to the host and path.
  When one is returned it is a configured route that applies, no applicable route of the table
  is more specific (a longer prefix, or the same length with a host constraint where this
  one has none), and no applicable route listed before it is as specific: the result is the
  first of the most specific applicable routes.\<close>

theorem match_route_most_specific:
  "case match_route c host path of
     None \<Rightarrow> (\<forall>r \<in> set (gc_routes c). \<not> applicable host path r)
   | Some r \<Rightarrow> applicable host path r \<and>
       (\<exists>as bs. gc_routes c = as @ r # bs
         \<and> (\<forall>r' \<in> set as. applicable host path r' \<longrightarrow> route_key r' < route_key r)
         \<and> (\<forall>r' \<in> set bs. applicable host path r' \<longrightarrow> route_key r' \<le> route_key r))"
proof (cases "match_route c host path")
  case None
  then have "\<forall>r \<in> set (gc_routes c). \<not> applicable host path r"
    by (simp only: match_route_None_iff)
  with None show ?thesis by (simp only: option.case)
next
  case (Some r)
  from first_max_filter_split [OF this [unfolded match_route_first_max]] Some
  show ?thesis by simp
qed

definition sample_route :: "string \<Rightarrow> string option \<Rightarrow> string \<Rightarrow> route_config" where
  "sample_route n host pfx =
     (route_with_defaults n [\<lparr>uc_url = ''http://a'', uc_weight = 1\<rparr>])
       \<lparr>rc_matches := \<lparr>mc_host = host, mc_path_prefix = pfx\<rparr>\<rparr>"

definition sample_config :: gateway_config where
  "sample_config = \<lparr>gc_server = server_config_default,
     gc_routes = [sample_route ''root'' None ''/'', sample_route ''api'' None ''/api'',
                  sample_route ''users'' None ''/api/users'',
                  sample_route ''hosted'' (Some ''admin.example.com'') ''/'']\<rparr>"

theorem match_route_most_specific_witness:
  "match_route sample_config None ''/apixyz'' = Some (sample_route ''root'' None ''/'')
   \<and> match_route sample_config None ''/api/users/42'' = Some (sample_route ''users'' None ''/api/users'')
   \<and> match_route sample_config (Some ''admin.example.com:8080'') ''/x''
       = Some (sample_route ''hosted'' (Some ''admin.example.com'') ''/'')
   \<and> applicable None ''/apixyz'' (sample_route ''root'' None ''/'')"
proof -
  have "match_route sample_config None ''/apixyz'' = Some (sample_route ''root'' None ''/'')"
    by code_simp
  with match_route_most_specific [of sample_config None "''/apixyz''"]
  have "match_route sample_config None ''/apixyz'' = Some (sample_route ''root'' None ''/'')
    \<and> applicable None ''/apixyz'' (sample_route ''root'' None ''/'')"
    by (simp only: option.case)
  moreover have "match_route sample_config None ''/api/users/42'' = Some (sample_route ''users'' None ''/api/users'')"
    by code_simp
  moreover have "match_route sample_config (Some ''admin.example.com:8080'') ''/x''
       = Some (sample_route ''hosted'' (Some ''admin.example.com'') ''/'')"
    by code_simp
  ultimately show ?thesis by blast
qed

text \<open>The choice does not depend on the order of the configuration: two tables with the same
  routes send a request to the same route, as long as no two applicable routes are equally
  specific.\<close>

theorem match_route_order_independent:
  assumes "set (gc_routes c) = set (gc_routes c')"
    and "inj_on route_key {r \<in> set (gc_routes c). applicable host path r}"
  shows "match_route c host path = match_route c' host path"
  unfolding match_route_first_max
  using assms by (intro first_max_set_eq) (auto simp: Int_def conj_commute)

theorem match_route_order_independent_witness:
  "match_route (sample_config\<lparr>gc_routes := rev (gc_routes sample_config)\<rparr>) None ''/api/orders''
   = match_route sample_config None ''/api/orders''"
proof (rule match_route_order_independent)
  show "inj_on route_key {r \<in> set (gc_routes (sample_config\<lparr>gc_routes := rev (gc_routes sample_config)\<rparr>)).
          applicable None ''/api/orders'' r}"
    by code_simp
qed simp

text \<open>A prefix matches at a segment boundary only: a path that continues the prefix (taken
  without its trailing slashes) matches exactly when nothing or a slash follows.\<close>

theorem path_matches_segment_boundary:
  "pfx \<noteq> ''/'' \<Longrightarrow>
   path_matches (trim_end_matches pfx (CHR ''/'') @ rest) pfx \<longleftrightarrow>
     rest = '''' \<or> (\<exists>t. rest = CHR ''/'' # t)"
  by (auto simp: path_matches_iff Let_def)

theorem path_matches_segment_boundary_witness:
  "\<not> path_matches ''/apixyz'' ''/api'' \<and> path_matches ''/api/x'' ''/api''"
  using path_matches_segment_boundary [of "''/api''" "''xyz''"]
    path_matches_segment_boundary [of "''/api''" "''/x''"]
  by (simp add: trim_end_matches_def strip_while_def)

text \<open>Prefix stripping loses nothing: for a route that strips its prefix, the forwarded path
  put behind the stripped prefix is the request path again, except that a request for exactly
  the prefix is forwarded as the root path; and what is forwarded starts with a slash.\<close>

theorem forward_path_roundtrip:
  assumes "path_matches path (mc_path_prefix (rc_matches r))" and "rc_strip_path_prefix r"
    and "mc_path_prefix (rc_matches r) \<noteq> ''/''"
  shows "let p = trim_end_matches (mc_path_prefix (rc_matches r)) (CHR ''/''); f = forward_path path r
         in (p @ f = path \<or> path = p \<and> f = ''/'') \<and> (\<exists>t. f = CHR ''/'' # t)"
proof -
  let ?p = "trim_end_matches (mc_path_prefix (rc_matches r)) (CHR ''/'')"
  from assms(1,3) obtain rest where "path = ?p @ rest" "rest = '''' \<or> (\<exists>t. rest = CHR ''/'' # t)"
    by (auto simp: path_matches_iff Let_def)
  with forward_path_strip [OF assms(2,3), of path rest] show ?thesis
    by (auto simp: Let_def)
qed

theorem forward_path_roundtrip_witness:
  "forward_path ''/api/orders'' ((sample_route ''api'' None ''/api'')\<lparr>rc_strip_path_prefix := True\<rparr>) = ''/orders''
   \<and> (let p = trim_end_matches ''/api'' (CHR ''/'');
          f = forward_path ''/api'' ((sample_route ''api'' None ''/api'')\<lparr>rc_strip_path_prefix := True\<rparr>)
      in (p @ f = ''/api'' \<or> ''/api'' = p \<and> f = ''/'') \<and> (\<exists>t. f = CHR ''/'' # t))"
  using forward_path_roundtrip [of "''/api''" "(sample_route ''api'' None ''/api'')\<lparr>rc_strip_path_prefix := True\<rparr>"]
  by (simp add: sample_route_def path_matches_def trim_end_matches_def strip_while_def
      forward_path_def strip_prefix_def)

text \<open>The host comparison is made on the text before the first colon. For a bracketed IPv6
  literal that is not the host: two hosts that agree up to their first colon are
  interchangeable for every route, whatever the rest of the address is.\<close>

theorem host_compared_up_to_first_colon:
  "host_matches (Some (p @ CHR '':'' # a)) r = host_matches (Some (p @ CHR '':'' # b)) r"
  by (simp add: host_matches_def strip_port_def split_next_def takeWhile_tail split: option.splits)

end
