(* ===== verification/Breaker.thy ===== *)
theory Breaker
  imports Gateway_Prelude
begin

text \<open>
  The per-upstream circuit breaker, \<^verbatim>\<open>crates/gateway/src/breaker.rs\<close>. Every method locks
  the mutex around the inner state; the instants it reads are arguments, as in the source's
  own \<^verbatim>\<open>allow_at\<close> and \<^verbatim>\<open>record_failure_at\<close>. A method is a function from the breaker to
  its value (or a panic) and the breaker it leaves.
\<close>

section \<open>State\<close>

datatype breaker_state = Closed | Open | HalfOpen

definition breaker_code :: "breaker_state \<Rightarrow> int" where
  "breaker_code s = (case s of Closed \<Rightarrow> 0 | HalfOpen \<Rightarrow> 1 | Open \<Rightarrow> 2)"

record breaker_inner =
  bi_state :: breaker_state
  bi_consecutive_failures :: u32
  bi_open_until :: "instant option"

record circuit_breaker =
  cb_threshold :: u32
  cb_open_for :: duration
  cb_inner :: "breaker_inner mutex"

section \<open>Operations\<close>

definition breaker_new :: "u32 \<Rightarrow> u64 \<Rightarrow> circuit_breaker" where
  "breaker_new failure_threshold open_secs =
     \<lparr>cb_threshold = max failure_threshold 1,
      cb_open_for = from_secs (max open_secs 1),
      cb_inner = mutex_new \<lparr>bi_state = Closed, bi_consecutive_failures = 0, bi_open_until = None\<rparr>\<rparr>"

definition on_inner ::
  "circuit_breaker \<Rightarrow> (breaker_inner \<Rightarrow> 'a res \<times> breaker_inner) \<Rightarrow> 'a res \<times> circuit_breaker" where
  "on_inner cb f = (let (r, m) = with_lock (cb_inner cb) f in (r, cb\<lparr>cb_inner := m\<rparr>))"

definition allow_body :: "instant \<Rightarrow> breaker_inner \<Rightarrow> bool res \<times> breaker_inner" where
  "allow_body now i =
     (case bi_state i of
        Closed \<Rightarrow> (Ret True, i)
      | HalfOpen \<Rightarrow> (Ret True, i)
      | Open \<Rightarrow>
          if (case bi_open_until i of None \<Rightarrow> True | Some u \<Rightarrow> u \<le> now)
          then (Ret True, i\<lparr>bi_state := HalfOpen\<rparr>)
          else (Ret False, i))"

definition allow_at :: "circuit_breaker \<Rightarrow> instant \<Rightarrow> bool res \<times> circuit_breaker" where
  "allow_at cb now = on_inner cb (allow_body now)"

definition success_body :: "breaker_inner \<Rightarrow> unit res \<times> breaker_inner" where
  "success_body i =
     (Ret (), i\<lparr>bi_state := Closed, bi_consecutive_failures := 0, bi_open_until := None\<rparr>)"

definition record_success :: "circuit_breaker \<Rightarrow> unit res \<times> circuit_breaker" where
  "record_success cb = on_inner cb success_body"

definition failure_body :: "u32 \<Rightarrow> duration \<Rightarrow> instant \<Rightarrow> breaker_inner \<Rightarrow> unit res \<times> breaker_inner" where
  "failure_body thr open_dur now i =
     (let i = i\<lparr>bi_consecutive_failures := bi_consecutive_failures i + 1\<rparr> in
      if bi_state i = HalfOpen \<or> thr \<le> bi_consecutive_failures i
      then let i = i\<lparr>bi_state := Open\<rparr> in
           (case instant_add now open_dur of
              None \<Rightarrow> (Panic, i)
            | Some u \<Rightarrow> (Ret (), i\<lparr>bi_open_until := Some u\<rparr>))
      else (Ret (), i))"

definition record_failure_at :: "circuit_breaker \<Rightarrow> instant \<Rightarrow> unit res \<times> circuit_breaker" where
  "record_failure_at cb now = on_inner cb (failure_body (cb_threshold cb) (cb_open_for cb) now)"

definition breaker_get_state :: "circuit_breaker \<Rightarrow> breaker_state res \<times> circuit_breaker" where
  "breaker_get_state cb = on_inner cb (\<lambda>i. (Ret (bi_state i), i))"

section \<open>Events and runs\<close>

text \<open>
  What the gateway's tasks do to one breaker, in the order in which they get the mutex.
\<close>

datatype breaker_event = EvAllow instant | EvSuccess | EvFailure instant

fun breaker_apply :: "circuit_breaker \<Rightarrow> breaker_event \<Rightarrow> circuit_breaker" where
  "breaker_apply cb (EvAllow now) = snd (allow_at cb now)"
| "breaker_apply cb EvSuccess = snd (record_success cb)"
| "breaker_apply cb (EvFailure now) = snd (record_failure_at cb now)"

definition breaker_run :: "circuit_breaker \<Rightarrow> breaker_event list \<Rightarrow> circuit_breaker" where
  "breaker_run cb evs = foldl breaker_apply cb evs"

fun event_time :: "breaker_event \<Rightarrow> instant option" where
  "event_time (EvAllow t) = Some t"
| "event_time EvSuccess = None"
| "event_time (EvFailure t) = Some t"

inductive breaker_step :: "circuit_breaker \<Rightarrow> circuit_breaker \<Rightarrow> bool" where
  step_allow: "allow_at cb now = (r, cb') \<Longrightarrow> breaker_step cb cb'"
| step_success: "record_success cb = (r, cb') \<Longrightarrow> breaker_step cb cb'"
| step_failure: "record_failure_at cb now = (r, cb') \<Longrightarrow> breaker_step cb cb'"

inductive_cases breaker_stepE: "breaker_step cb cb'"

section \<open>Views of a breaker\<close>

abbreviation st :: "circuit_breaker \<Rightarrow> breaker_state" where
  "st cb \<equiv> bi_state (guarded (cb_inner cb))"

abbreviation fails :: "circuit_breaker \<Rightarrow> u32" where
  "fails cb \<equiv> bi_consecutive_failures (guarded (cb_inner cb))"

abbreviation until :: "circuit_breaker \<Rightarrow> instant option" where
  "until cb \<equiv> bi_open_until (guarded (cb_inner cb))"

definition breaker_ok :: "circuit_breaker \<Rightarrow> bool" where
  "breaker_ok cb \<longleftrightarrow> \<not> poisoned (cb_inner cb)"

text \<open>\<open>blocked cb now\<close>: the breaker turns a call at \<open>now\<close> away.\<close>

definition blocked :: "circuit_breaker \<Rightarrow> instant \<Rightarrow> bool" where
  "blocked cb now \<longleftrightarrow> st cb = Open \<and> (\<exists>u. until cb = Some u \<and> now < u)"

text \<open>The invariant of a breaker that started fresh.\<close>

definition breaker_inv :: "circuit_breaker \<Rightarrow> bool" where
  "breaker_inv cb \<longleftrightarrow>
     0 < cb_threshold cb \<and> 0 < cb_open_for cb
     \<and> (st cb = Closed \<longrightarrow> fails cb < cb_threshold cb \<and> until cb = None)
     \<and> (st cb \<noteq> Closed \<and> \<not> poisoned (cb_inner cb) \<longrightarrow> until cb \<noteq> None)"

text \<open>The instants at which the breaker may still be used without overflowing the clock.\<close>

definition clock_fits :: "circuit_breaker \<Rightarrow> instant \<Rightarrow> bool" where
  "clock_fits cb now \<longleftrightarrow> now + cb_open_for cb < instant_limit"

section \<open>The abstract breaker\<close>

datatype abs_breaker = AClosed nat | AOpen instant | AHalfOpen

definition breaker_abs :: "circuit_breaker \<Rightarrow> abs_breaker" where
  "breaker_abs cb = (case st cb of
      Closed \<Rightarrow> AClosed (unat (fails cb))
    | Open \<Rightarrow> AOpen (case until cb of None \<Rightarrow> 0 | Some u \<Rightarrow> u)
    | HalfOpen \<Rightarrow> AHalfOpen)"

fun spec_allow :: "instant \<Rightarrow> abs_breaker \<Rightarrow> bool \<times> abs_breaker" where
  "spec_allow now (AClosed n) = (True, AClosed n)"
| "spec_allow now AHalfOpen = (True, AHalfOpen)"
| "spec_allow now (AOpen u) = (if u \<le> now then (True, AHalfOpen) else (False, AOpen u))"

fun spec_failure :: "nat \<Rightarrow> duration \<Rightarrow> instant \<Rightarrow> abs_breaker \<Rightarrow> abs_breaker" where
  "spec_failure thr d now (AClosed n) = (if thr \<le> Suc n then AOpen (now + d) else AClosed (Suc n))"
| "spec_failure thr d now (AOpen u) = AOpen (now + d)"
| "spec_failure thr d now AHalfOpen = AOpen (now + d)"

section \<open>Lemmas\<close>

lemma allow_body_ret: "fst (allow_body now i) \<noteq> Panic"
  by (auto simp: allow_body_def split: breaker_state.splits)

lemma on_inner_ok [lock_simps]:
  "\<not> poisoned (cb_inner cb) \<Longrightarrow>
   on_inner cb f = (fst (f (guarded (cb_inner cb))),
     cb\<lparr>cb_inner := \<lparr>guarded = snd (f (guarded (cb_inner cb))),
                     poisoned = is_Panic (fst (f (guarded (cb_inner cb))))\<rparr>\<rparr>)"
  by (simp add: on_inner_def lock_simps)

lemma on_inner_poisoned [lock_simps]:
  "poisoned (cb_inner cb) \<Longrightarrow> on_inner cb f = (Panic, cb)"
  by (simp add: on_inner_def lock_simps)

lemma on_inner_static [simp]:
  "cb_threshold (snd (on_inner cb f)) = cb_threshold cb"
  "cb_open_for (snd (on_inner cb f)) = cb_open_for cb"
  by (simp_all add: on_inner_def case_prod_beta)

lemmas breaker_op_defs = allow_at_def record_success_def record_failure_at_def breaker_get_state_def
lemmas breaker_body_defs = allow_body_def success_body_def failure_body_def

lemma breaker_ops_static [simp]:
  "cb_threshold (snd (allow_at cb now)) = cb_threshold cb"
  "cb_open_for (snd (allow_at cb now)) = cb_open_for cb"
  "cb_threshold (snd (record_success cb)) = cb_threshold cb"
  "cb_open_for (snd (record_success cb)) = cb_open_for cb"
  "cb_threshold (snd (record_failure_at cb now)) = cb_threshold cb"
  "cb_open_for (snd (record_failure_at cb now)) = cb_open_for cb"
  by (simp_all add: breaker_op_defs)

lemma breaker_apply_static [simp]:
  "cb_threshold (breaker_apply cb e) = cb_threshold cb"
  "cb_open_for (breaker_apply cb e) = cb_open_for cb"
  by (cases e; simp)+

lemma breaker_run_simps [simp]:
  "breaker_run cb [] = cb"
  "breaker_run cb (e # es) = breaker_run (breaker_apply cb e) es"
  by (simp_all add: breaker_run_def)

lemma breaker_run_static [simp]:
  "cb_threshold (breaker_run cb es) = cb_threshold cb"
  "cb_open_for (breaker_run cb es) = cb_open_for cb"
  by (induction es arbitrary: cb) simp_all

lemma breaker_run_append: "breaker_run cb (es @ fs) = breaker_run (breaker_run cb es) fs"
  by (simp add: breaker_run_def)

text \<open>What each operation returns and leaves, on a breaker whose mutex is not poisoned.\<close>

lemma allow_at_fst: "breaker_ok cb \<Longrightarrow> fst (allow_at cb now) = Ret (\<not> blocked cb now)"
  by (auto simp: breaker_ok_def allow_at_def lock_simps allow_body_def blocked_def
      split: breaker_state.splits option.splits)

lemma allow_at_ok: "breaker_ok cb \<Longrightarrow> breaker_ok (snd (allow_at cb now))"
  by (auto simp: breaker_ok_def allow_at_def lock_simps allow_body_def
      split: breaker_state.splits option.splits)

lemma allow_at_st:
  "breaker_ok cb \<Longrightarrow>
   st (snd (allow_at cb now)) = (if st cb = Open \<and> \<not> blocked cb now then HalfOpen else st cb)"
  by (auto simp: breaker_ok_def allow_at_def lock_simps allow_body_def blocked_def
      split: breaker_state.splits option.splits)

lemma allow_at_rest:
  "fails (snd (allow_at cb now)) = fails cb" "until (snd (allow_at cb now)) = until cb"
  by (cases "poisoned (cb_inner cb)";
      auto simp: allow_at_def lock_simps allow_body_def split: breaker_state.splits)+

lemma record_success_ok:
  "breaker_ok cb \<Longrightarrow>
   record_success cb = (Ret (),
     cb\<lparr>cb_inner := mutex_new \<lparr>bi_state = Closed, bi_consecutive_failures = 0, bi_open_until = None\<rparr>\<rparr>)"
  by (simp add: breaker_ok_def record_success_def lock_simps success_body_def mutex_new_def)

lemma record_failure_trip:
  assumes "breaker_ok cb" and "clock_fits cb now"
    and "st cb = HalfOpen \<or> cb_threshold cb \<le> fails cb + 1"
  shows "record_failure_at cb now = (Ret (),
     cb\<lparr>cb_inner := mutex_new \<lparr>bi_state = Open, bi_consecutive_failures = fails cb + 1,
                                bi_open_until = Some (now + cb_open_for cb)\<rparr>\<rparr>)"
  using assms
  by (auto simp: breaker_ok_def record_failure_at_def lock_simps failure_body_def clock_fits_def
      instant_add_def mutex_new_def)

lemma record_failure_count:
  assumes "breaker_ok cb" and "st cb \<noteq> HalfOpen" and "\<not> cb_threshold cb \<le> fails cb + 1"
  shows "record_failure_at cb now = (Ret (),
     cb\<lparr>cb_inner := mutex_new \<lparr>bi_state = st cb, bi_consecutive_failures = fails cb + 1,
                                bi_open_until = until cb\<rparr>\<rparr>)"
  using assms
  by (auto simp: breaker_ok_def record_failure_at_def lock_simps failure_body_def mutex_new_def)

lemma record_failure_ok:
  assumes "breaker_ok cb" and "clock_fits cb now"
  shows "fst (record_failure_at cb now) = Ret () \<and> breaker_ok (snd (record_failure_at cb now))"
proof (cases "st cb = HalfOpen \<or> cb_threshold cb \<le> fails cb + 1")
  case True
  with assms show ?thesis by (simp add: record_failure_trip) (simp add: breaker_ok_def)
next
  case False
  with assms show ?thesis by (simp add: record_failure_count) (simp add: breaker_ok_def)
qed

lemma breaker_new_simps [simp]:
  "breaker_ok (breaker_new t s)" "st (breaker_new t s) = Closed" "fails (breaker_new t s) = 0"
  "until (breaker_new t s) = None"
  by (simp_all add: breaker_new_def breaker_ok_def)

subsection \<open>The invariant\<close>

lemma breaker_ok_or_id:
  "breaker_step cb cb' \<Longrightarrow> \<not> breaker_ok cb \<Longrightarrow> cb' = cb"
  by (auto simp: breaker_ok_def breaker_op_defs lock_simps elim!: breaker_stepE)

lemma Suc_less_threshold: "\<not> thr \<le> (n :: u32) + 1 \<Longrightarrow> n + 1 < thr"
  by simp

lemma allow_at_inv: "breaker_ok cb \<Longrightarrow> breaker_inv cb \<Longrightarrow> breaker_inv (snd (allow_at cb now))"
  by (auto simp: breaker_inv_def allow_at_st allow_at_rest breaker_ok_def split: if_splits)

lemma record_success_inv: "breaker_ok cb \<Longrightarrow> breaker_inv cb \<Longrightarrow> breaker_inv (snd (record_success cb))"
  by (simp add: breaker_inv_def record_success_ok)

lemma record_failure_inv:
  assumes "breaker_ok cb" and "breaker_inv cb"
  shows "breaker_inv (snd (record_failure_at cb now))"
  using assms
  by (auto simp: breaker_inv_def breaker_ok_def record_failure_at_def lock_simps failure_body_def
      Let_def split: option.splits)

interpretation brk: machine breaker_step breaker_inv
proof unfold_locales
  fix cb cb'
  assume step: "breaker_step cb cb'" and inv: "breaker_inv cb"
  show "breaker_inv cb'"
  proof (cases "breaker_ok cb")
    case True
    with step inv show ?thesis
      by (elim breaker_stepE; metis allow_at_inv record_success_inv record_failure_inv snd_conv)
  next
    case False
    with breaker_ok_or_id [OF step] inv show ?thesis by simp
  qed
qed

lemma breaker_apply_step: "breaker_step cb (breaker_apply cb e)"
  by (cases e) (auto intro: breaker_step.intros prod.collapse [symmetric])

lemma breaker_new_inv: "breaker_inv (breaker_new t s)"
proof -
  have "0 < max t 1" "0 < max s 1" for t :: u32 and s :: u64
    by (simp_all add: less_max_iff_disj)
  then show ?thesis
    by (simp add: breaker_inv_def breaker_new_def from_secs_def nanos_per_sec_def unat_gt_0
        word_gt_0)
qed

subsection \<open>Cooldown and threshold along a run\<close>

definition open_at_least :: "instant \<Rightarrow> circuit_breaker \<Rightarrow> bool" where
  "open_at_least d cb \<longleftrightarrow> breaker_ok cb \<and> st cb = Open \<and> (\<exists>u. until cb = Some u \<and> d \<le> u)"

lemma open_at_least_blocked: "open_at_least d cb \<Longrightarrow> now < d \<Longrightarrow> blocked cb now"
  by (auto simp: open_at_least_def blocked_def)

lemma open_at_least_allow:
  assumes "open_at_least d cb" and "now < d"
  shows "open_at_least d (snd (allow_at cb now))"
  using assms open_at_least_blocked [OF assms]
  by (auto simp: open_at_least_def allow_at_ok allow_at_st allow_at_rest)

lemma open_at_least_failure:
  assumes "open_at_least d cb" and "clock_fits cb now" and "d \<le> now + cb_open_for cb"
  shows "open_at_least d (snd (record_failure_at cb now))"
proof (cases "cb_threshold cb \<le> fails cb + 1")
  case True
  with assms record_failure_trip [of cb now] show ?thesis
    by (simp add: open_at_least_def breaker_ok_def)
next
  case False
  with assms record_failure_count [of cb now] show ?thesis
    by (simp add: open_at_least_def breaker_ok_def)
qed

lemma open_at_least_run:
  assumes "open_at_least d cb" and "d = t0 + cb_open_for cb"
    and "\<And>e. e \<in> set es \<Longrightarrow> \<exists>t. event_time e = Some t \<and> t0 \<le> t \<and> t < d \<and> clock_fits cb t"
  shows "open_at_least d (breaker_run cb es)"
  using assms
proof (induction es arbitrary: cb)
  case (Cons e es)
  obtain t where t: "event_time e = Some t" "t0 \<le> t" "t < d" "clock_fits cb t"
    using Cons.prems(3) [of e] by auto
  have "open_at_least d (breaker_apply cb e)"
    using t Cons.prems(1,2)
    by (cases e) (auto intro: open_at_least_allow open_at_least_failure)
  moreover have "\<exists>t. event_time e' = Some t \<and> t0 \<le> t \<and> t < d \<and> clock_fits (breaker_apply cb e) t"
    if "e' \<in> set es" for e'
    using Cons.prems(3) [of e'] that by (auto simp: clock_fits_def)
  ultimately show ?case
    using Cons.IH [of "breaker_apply cb e"] Cons.prems(2) by simp
qed simp

fun is_failure :: "breaker_event \<Rightarrow> bool" where
  "is_failure (EvFailure t) = True"
| "is_failure _ = False"

definition counting :: "nat \<Rightarrow> circuit_breaker \<Rightarrow> bool" where
  "counting n cb \<longleftrightarrow> breaker_ok cb \<and> st cb = Closed \<and> unat (fails cb) = n"

lemma counting_allow: "counting n cb \<Longrightarrow> counting n (snd (allow_at cb now))"
  by (simp add: counting_def allow_at_ok allow_at_st allow_at_rest)

lemma Suc_unat_le_threshold:
  "thr \<le> n + 1 \<longleftrightarrow> unat thr \<le> Suc (unat n)" if "unat n < unat thr" for n thr :: u32
proof -
  have "Suc (unat n) < 2 ^ 32"
    using that unat_u32_less [of thr] by simp
  then show ?thesis by (simp add: word_le_nat_alt unat_Suc_u32)
qed

lemma counting_failure:
  assumes "counting n cb" and "Suc n < unat (cb_threshold cb)"
  shows "counting (Suc n) (snd (record_failure_at cb now))"
proof -
  have le: "\<not> cb_threshold cb \<le> fails cb + 1"
    using assms Suc_unat_le_threshold [of "fails cb" "cb_threshold cb"] by (simp add: counting_def)
  have "unat (fails cb + 1) = Suc n"
    using assms unat_u32_less [of "cb_threshold cb"] by (simp add: counting_def unat_Suc_u32)
  with assms le show ?thesis
    by (simp add: counting_def record_failure_count) (simp add: breaker_ok_def)
qed

lemma counting_trip:
  assumes "counting n cb" and "Suc n = unat (cb_threshold cb)" and "clock_fits cb now"
  shows "record_failure_at cb now = (Ret (),
     cb\<lparr>cb_inner := mutex_new \<lparr>bi_state = Open, bi_consecutive_failures = cb_threshold cb,
                                bi_open_until = Some (now + cb_open_for cb)\<rparr>\<rparr>)"
proof -
  have "unat (fails cb + 1) = unat (cb_threshold cb)"
    using assms unat_u32_less [of "cb_threshold cb"] by (simp add: counting_def unat_Suc_u32)
  then have "fails cb + 1 = cb_threshold cb" by (simp add: word_unat_eq_iff)
  with assms show ?thesis
    by (simp add: counting_def record_failure_trip)
qed

lemma counting_run:
  assumes "counting n cb" and "EvSuccess \<notin> set es"
    and "n + length (filter is_failure es) < unat (cb_threshold cb)"
  shows "counting (n + length (filter is_failure es)) (breaker_run cb es)"
  using assms
proof (induction es arbitrary: cb n)
  case (Cons e es)
  show ?case
  proof (cases e)
    case (EvAllow t)
    with Cons show ?thesis using Cons.IH [of n "snd (allow_at cb t)"] by (simp add: counting_allow)
  next
    case EvSuccess
    with Cons.prems show ?thesis by simp
  next
    case (EvFailure t)
    with Cons.prems have "counting (Suc n) (snd (record_failure_at cb t))"
      by (auto intro: counting_failure)
    with EvFailure Cons.prems show ?thesis
      using Cons.IH [of "Suc n" "snd (record_failure_at cb t)"] by simp
  qed
qed simp

subsection \<open>Refinement of the abstract breaker\<close>

lemma breaker_abs_allow:
  assumes "breaker_ok cb" and "breaker_inv cb"
  shows "spec_allow now (breaker_abs cb) =
           (\<not> blocked cb now, breaker_abs (snd (allow_at cb now)))"
  using assms
  by (cases "st cb")
    (auto simp: breaker_abs_def allow_at_st allow_at_rest blocked_def breaker_inv_def breaker_ok_def
      split: option.splits)

lemma breaker_abs_failure:
  assumes "breaker_ok cb" and "breaker_inv cb" and "clock_fits cb now"
    and "st cb = Open \<Longrightarrow> cb_threshold cb \<le> fails cb + 1"
  shows "breaker_abs (snd (record_failure_at cb now)) =
           spec_failure (unat (cb_threshold cb)) (cb_open_for cb) now (breaker_abs cb)"
proof (cases "st cb")
  case Closed
  then have lt: "unat (fails cb) < unat (cb_threshold cb)"
    using assms(2) by (simp add: breaker_inv_def word_less_nat_alt)
  then have suc: "unat (fails cb + 1) = Suc (unat (fails cb))"
    using unat_u32_less [of "cb_threshold cb"] by (simp add: unat_Suc_u32)
  show ?thesis
  proof (cases "cb_threshold cb \<le> fails cb + 1")
    case True
    with assms Closed lt show ?thesis
      by (simp add: breaker_abs_def record_failure_trip Suc_unat_le_threshold)
  next
    case False
    with assms Closed lt suc show ?thesis
      by (simp add: breaker_abs_def record_failure_count Suc_unat_le_threshold)
  qed
qed (use assms in \<open>simp_all add: breaker_abs_def record_failure_trip\<close>)

lemmas breaker_eval = breaker_new_def breaker_op_defs breaker_body_defs on_inner_def with_lock_def
  mutex_new_def instant_add_def instant_limit_def from_secs_def nanos_per_sec_def clock_fits_def
  breaker_ok_def blocked_def breaker_abs_def Let_def max_def word_le_nat_alt word_less_nat_alt

section \<open>Properties\<close>

text \<open>The invariant of the breaker: in every state that any interleaving of calls can reach
  from a new breaker the threshold and the cooldown are positive, a closed breaker has counted
  fewer consecutive failures than the threshold and has no pending deadline, and a breaker
  that is open or half-open (and was not poisoned by a panic) has a deadline.\<close>

theorem breaker_reachable_inv:
  "breaker_step\<^sup>*\<^sup>* (breaker_new failure_threshold open_secs) cb \<Longrightarrow> breaker_inv cb"
  using brk.reach_inv breaker_new_inv by blast

theorem breaker_reachable_inv_witness:
  "breaker_inv (snd (record_failure_at (breaker_new 1 10) 5))
   \<and> st (snd (record_failure_at (breaker_new 1 10) 5)) = Open"
proof -
  have "breaker_step\<^sup>*\<^sup>* (breaker_new 1 10) (snd (record_failure_at (breaker_new 1 10) 5))"
    by (rule r_into_rtranclp) (rule breaker_apply_step [of _ "EvFailure 5", simplified])
  moreover have "st (snd (record_failure_at (breaker_new 1 10) 5)) = Open"
    by (simp add: breaker_eval)
  ultimately show ?thesis using breaker_reachable_inv by blast
qed

text \<open>The state diagram: a single call moves a usable breaker along the edges closed to open,
  open to half-open, half-open to closed and half-open to open only, or, when a success arrives
  while the breaker is open, from open straight to closed. It opens from closed only when the
  consecutive failures reach the threshold, and it leaves open for half-open only when the
  deadline has passed.\<close>

theorem breaker_transitions:
  assumes "breaker_ok cb"
  shows "st (breaker_apply cb e) = st cb
     \<or> st cb = Closed \<and> st (breaker_apply cb e) = Open
         \<and> (\<exists>now. e = EvFailure now) \<and> cb_threshold cb \<le> fails cb + 1
     \<or> st cb = Open \<and> st (breaker_apply cb e) = HalfOpen \<and> (\<exists>now. e = EvAllow now \<and> \<not> blocked cb now)
     \<or> st cb = HalfOpen \<and> st (breaker_apply cb e) = Open \<and> (\<exists>now. e = EvFailure now)
     \<or> st cb \<noteq> Closed \<and> st (breaker_apply cb e) = Closed \<and> e = EvSuccess"
proof (cases e)
  case (EvAllow now)
  with assms show ?thesis by (auto simp: allow_at_st)
next
  case EvSuccess
  with assms show ?thesis by (auto simp: record_success_ok)
next
  case (EvFailure now)
  with assms show ?thesis
    by (cases "st cb")
      (auto simp: breaker_ok_def record_failure_at_def lock_simps failure_body_def Let_def
        split: option.splits)
qed

theorem breaker_transitions_witness:
  "st (breaker_apply (snd (record_failure_at (breaker_new 1 10) 5)) EvSuccess) = Closed
   \<and> st (snd (record_failure_at (breaker_new 1 10) 5)) = Open"
proof -
  have ok: "breaker_ok (snd (record_failure_at (breaker_new 1 10) 5))"
    and o: "st (snd (record_failure_at (breaker_new 1 10) 5)) = Open"
    and n: "st (breaker_apply (snd (record_failure_at (breaker_new 1 10) 5)) EvSuccess) \<noteq> Open"
    by (simp_all add: breaker_eval)
  from breaker_transitions [OF ok, of EvSuccess] o n show ?thesis by auto
qed

text \<open>Fast rejection: once a breaker has opened at \<open>t0\<close>, then through any sequence of further
  calls and failures inside the cooldown (no success among them) it stays open, and every
  request in that time is turned away.\<close>

theorem breaker_rejects_during_cooldown:
  assumes "breaker_ok cb" and "st cb = Open" and "until cb = Some (t0 + cb_open_for cb)"
    and "\<And>e. e \<in> set es \<Longrightarrow>
           \<exists>t. event_time e = Some t \<and> t0 \<le> t \<and> t < t0 + cb_open_for cb \<and> clock_fits cb t"
    and "now < t0 + cb_open_for cb"
  shows "st (breaker_run cb es) = Open \<and> fst (allow_at (breaker_run cb es) now) = Ret False"
proof -
  have "open_at_least (t0 + cb_open_for cb) cb"
    using assms(1-3) by (simp add: open_at_least_def)
  then have "open_at_least (t0 + cb_open_for cb) (breaker_run cb es)"
    using assms(4) by (intro open_at_least_run) simp_all
  with open_at_least_blocked [OF this assms(5)] show ?thesis
    by (simp add: open_at_least_def allow_at_fst)
qed

theorem breaker_rejects_during_cooldown_witness:
  "let cb = snd (record_failure_at (breaker_new 1 10) 5) in
   st (breaker_run cb [EvAllow 6, EvFailure 7]) = Open
   \<and> fst (allow_at (breaker_run cb [EvAllow 6, EvFailure 7]) 9) = Ret False"
proof -
  let ?cb = "snd (record_failure_at (breaker_new 1 10) 5)"
  have h: "breaker_ok ?cb" "st ?cb = Open" "until ?cb = Some (5 + cb_open_for ?cb)"
    "cb_open_for ?cb = 10000000000" "clock_fits ?cb 6" "clock_fits ?cb 7"
    by (simp_all add: breaker_eval)
  have "\<exists>t. event_time e = Some t \<and> 5 \<le> t \<and> t < 5 + cb_open_for ?cb \<and> clock_fits ?cb t"
    if "e \<in> set [EvAllow 6, EvFailure 7]" for e
    using that h(4-6) by auto
  from breaker_rejects_during_cooldown [where now = 9 and es = "[EvAllow 6, EvFailure 7]", OF h(1-3) this] h(4)
  show ?thesis
    by (simp add: Let_def)
qed

text \<open>The breaker opens exactly at its threshold: starting from a new breaker and with no
  success in between, it is closed and lets requests through as long as fewer failures than
  the threshold were recorded, whatever calls are interleaved, and the failure that reaches
  the threshold opens it for the configured cooldown.\<close>

theorem breaker_opens_at_threshold:
  fixes failure_threshold :: u32 and open_secs :: u64
  defines "cb0 \<equiv> breaker_new failure_threshold open_secs"
  assumes "EvSuccess \<notin> set es"
  shows "(length (filter is_failure es) < unat (max failure_threshold 1) \<longrightarrow>
           st (breaker_run cb0 es) = Closed \<and> fst (allow_at (breaker_run cb0 es) now) = Ret True)
      \<and> (Suc (length (filter is_failure es)) = unat (max failure_threshold 1) \<and> clock_fits cb0 t \<longrightarrow>
           st (breaker_run cb0 (es @ [EvFailure t])) = Open
           \<and> until (breaker_run cb0 (es @ [EvFailure t])) = Some (t + from_secs (max open_secs 1)))"
proof -
  have c0: "counting 0 cb0" and thr: "cb_threshold cb0 = max failure_threshold 1"
    and opn: "cb_open_for cb0 = from_secs (max open_secs 1)"
    by (simp_all add: cb0_def counting_def) (simp_all add: breaker_new_def)
  note run = counting_run [OF c0 assms(2), unfolded thr add_0]
  show ?thesis
    using run counting_trip [of "length (filter is_failure es)" "breaker_run cb0 es" t]
    by (auto simp: counting_def allow_at_fst blocked_def breaker_run_append thr opn clock_fits_def)
qed

theorem breaker_opens_at_threshold_witness:
  "st (breaker_run (breaker_new 2 10) [EvFailure 3, EvAllow 4]) = Closed
   \<and> st (breaker_run (breaker_new 2 10) ([EvFailure 3, EvAllow 4] @ [EvFailure 5])) = Open"
proof -
  have u: "unat (max (2 :: u32) 1) = 2" and c: "clock_fits (breaker_new 2 10) 5" by (simp_all add: breaker_eval)
  from breaker_opens_at_threshold [of "[EvFailure 3, EvAllow 4]" 2 10 0 5] u c
  show ?thesis by simp
qed



text \<open>Half-open does not admit a single trial: once the cooldown is over, every request is let
  through, however many arrive, until one of them reports its outcome.\<close>

theorem half_open_admits_every_request:
  assumes "breaker_ok cb" and "\<not> blocked cb now"
  shows "fst (allow_at (breaker_run cb (map EvAllow (now # ts))) t) = Ret True"
proof -
  have "breaker_ok (breaker_run cb (map EvAllow ts)) \<and> st (breaker_run cb (map EvAllow ts)) \<noteq> Open"
    if "breaker_ok cb" "st cb \<noteq> Open" for cb
    using that by (induction ts arbitrary: cb) (auto simp: allow_at_ok allow_at_st)
  moreover have "breaker_ok (snd (allow_at cb now))" "st (snd (allow_at cb now)) \<noteq> Open"
    using assms by (auto simp: allow_at_ok allow_at_st blocked_def)
  ultimately show ?thesis by (simp add: allow_at_fst blocked_def)
qed

theorem half_open_admits_every_request_witness:
  "fst (allow_at (breaker_run (snd (record_failure_at (breaker_new 1 1) 5))
      (map EvAllow [2000000000, 2000000001])) 2000000002) = Ret True"
proof -
  have "breaker_ok (snd (record_failure_at (breaker_new 1 1) 5))"
    "\<not> blocked (snd (record_failure_at (breaker_new 1 1) 5)) 2000000000"
    by (simp_all add: breaker_eval)
  from half_open_admits_every_request [OF this, of "[2000000001]" 2000000002]
  show ?thesis by simp
qed

text \<open>A cooldown that the clock cannot represent breaks the breaker for good: the failure that
  should open it panics while the mutex is held, and from then on every call panics. The
  configuration check accepts such a cooldown.\<close>

theorem breaker_overflow_poisons:
  assumes "breaker_ok cb" and "\<not> clock_fits cb now"
    and "st cb = HalfOpen \<or> cb_threshold cb \<le> fails cb + 1"
  shows "fst (record_failure_at cb now) = Panic
     \<and> fst (allow_at (breaker_run (snd (record_failure_at cb now)) es) t) = Panic"
proof -
  have p: "fst (record_failure_at cb now) = Panic \<and> \<not> breaker_ok (snd (record_failure_at cb now))"
    using assms
    by (auto simp: breaker_ok_def record_failure_at_def lock_simps failure_body_def clock_fits_def
        instant_add_def)
  have "\<not> breaker_ok (breaker_run c es)" if "\<not> breaker_ok c" for c
    using that
    by (induction es arbitrary: c) (simp_all add: breaker_ok_or_id [OF breaker_apply_step])
  with p show ?thesis
    by (simp add: breaker_ok_def allow_at_def lock_simps)
qed

theorem breaker_overflow_poisons_witness:
  "fst (record_failure_at (breaker_new 1 18446744073709551615) 0) = Panic
   \<and> fst (allow_at (breaker_run (snd (record_failure_at (breaker_new 1 18446744073709551615) 0)) [EvSuccess]) 0) = Panic"
proof -
  have "\<not> clock_fits (breaker_new 1 18446744073709551615) 0" by (simp add: breaker_eval)
  moreover have "cb_threshold (breaker_new 1 18446744073709551615) \<le> fails (breaker_new 1 18446744073709551615) + 1" by (simp add: breaker_eval)
  ultimately show ?thesis
    using breaker_overflow_poisons [of "breaker_new 1 18446744073709551615" 0 "[EvSuccess]" 0] by simp
qed

end
