(* ===== verification/Balancer.thy ===== *)
theory Balancer
  imports Gateway_Config Breaker
begin

text \<open>
  Load balancing over the upstreams of a route, \<^verbatim>\<open>crates/gateway/src/balancer.rs\<close>. The
  shared \<^verbatim>\<open>Arc<Upstream>\<close> of the source is the entry of the upstream list at its index.
  A probe (\<^verbatim>\<open>eligible()\<close>) can change the breaker it asks, so the selection routines pass
  the balancer along; \<open>clk k\<close> is the instant the clock shows at the probe numbered \<open>k\<close> of
  a call. Relaxed atomic loads and stores on one counter or flag are plain reads and writes.
\<close>

section \<open>State\<close>

record upstream =
  up_url :: string
  up_weight :: u32
  up_active :: i64
  up_healthy :: bool
  up_breaker :: circuit_breaker

record balancer =
  bal_upstreams :: "upstream list"
  bal_strategy :: strategy
  bal_rr_order :: "nat list"
  bal_rr_cursor :: usize

section \<open>Operations\<close>

definition set_healthy :: "bool \<Rightarrow> upstream \<Rightarrow> upstream" where
  "set_healthy v u = u\<lparr>up_healthy := v\<rparr>"

definition eligible :: "upstream \<Rightarrow> instant \<Rightarrow> bool res \<times> upstream" where
  "eligible u now =
     (if \<not> up_healthy u then (Ret False, u)
      else let (r, cb) = allow_at (up_breaker u) now in (r, u\<lparr>up_breaker := cb\<rparr>))"

definition upd_upstream :: "nat \<Rightarrow> (upstream \<Rightarrow> upstream) \<Rightarrow> balancer \<Rightarrow> balancer" where
  "upd_upstream i f b = b\<lparr>bal_upstreams := (bal_upstreams b)[i := f (bal_upstreams b ! i)]\<rparr>"

definition guard_new :: "nat \<Rightarrow> balancer \<Rightarrow> balancer" where
  "guard_new i b = upd_upstream i (\<lambda>u. u\<lparr>up_active := up_active u + 1\<rparr>) b"

definition guard_drop :: "nat \<Rightarrow> balancer \<Rightarrow> balancer" where
  "guard_drop i b = upd_upstream i (\<lambda>u. u\<lparr>up_active := up_active u - 1\<rparr>) b"

definition upstream_from :: "route_config \<Rightarrow> upstream_config \<Rightarrow> upstream" where
  "upstream_from route u =
     \<lparr>up_url = trim_end_matches (uc_url u) (CHR ''/''),
      up_weight = max (uc_weight u) 1,
      up_active = 0,
      up_healthy = True,
      up_breaker = breaker_new (cb_failure_threshold (rc_circuit_breaker route))
                               (cb_open_secs (rc_circuit_breaker route))\<rparr>"

fun rr_expand :: "nat \<Rightarrow> upstream list \<Rightarrow> nat list" where
  "rr_expand i [] = []"
| "rr_expand i (u # us) = replicate (unat (up_weight u)) i @ rr_expand (Suc i) us"

definition from_route :: "route_config \<Rightarrow> balancer" where
  "from_route route =
     (let upstreams = map (upstream_from route) (rc_upstreams route);
          rr_order = rr_expand 0 upstreams;
          rr_order = (if rr_order = [] then [0] else rr_order)
      in \<lparr>bal_upstreams = upstreams, bal_strategy = rc_strategy route,
          bal_rr_order = rr_order, bal_rr_cursor = 0\<rparr>)"

text \<open>\<^verbatim>\<open>self.upstreams[idx].eligible()\<close>: indexing past the end panics.\<close>

definition probe_at :: "nat \<Rightarrow> instant \<Rightarrow> balancer \<Rightarrow> bool res \<times> balancer" where
  "probe_at i now b =
     (if i < length (bal_upstreams b)
      then let (r, u) = eligible (bal_upstreams b ! i) now in (r, upd_upstream i (\<lambda>_. u) b)
      else (Panic, b))"

text \<open>
  The loop of \<^verbatim>\<open>pick_round_robin\<close>, \<open>k\<close> turns still to go; it gives \<^verbatim>\<open>None\<close> when it
  runs out of turns. The cursor is a wrapping \<^verbatim>\<open>usize\<close>.
\<close>

fun rr_loop :: "nat \<Rightarrow> nat list \<Rightarrow> (nat \<Rightarrow> instant) \<Rightarrow> balancer \<Rightarrow> nat option res \<times> balancer" where
  "rr_loop 0 exclude clk b = (Ret None, b)"
| "rr_loop (Suc k) exclude clk b =
     (let n = length (bal_rr_order b);
          cursor = bal_rr_cursor b;
          b = b\<lparr>bal_rr_cursor := cursor + 1\<rparr>;
          idx = bal_rr_order b ! (unat cursor mod n)
      in if idx \<in> set exclude then rr_loop k exclude clk b
         else (case probe_at idx (clk k) b of
                 (Panic, b) \<Rightarrow> (Panic, b)
               | (Ret ok, b) \<Rightarrow> if ok then (Ret (Some idx), b) else rr_loop k exclude clk b))"

text \<open>\<^verbatim>\<open>first_eligible\<close>: the iterator over the upstreams, at index \<open>i\<close> with \<open>k\<close> to go.\<close>

fun find_loop :: "nat \<Rightarrow> nat \<Rightarrow> nat list \<Rightarrow> (nat \<Rightarrow> instant) \<Rightarrow> balancer \<Rightarrow> nat option res \<times> balancer" where
  "find_loop 0 i exclude clk b = (Ret None, b)"
| "find_loop (Suc k) i exclude clk b =
     (if i \<in> set exclude then find_loop k (Suc i) exclude clk b
      else (case probe_at i (clk i) b of
              (Panic, b) \<Rightarrow> (Panic, b)
            | (Ret ok, b) \<Rightarrow> if ok then (Ret (Some i), b) else find_loop k (Suc i) exclude clk b))"

definition first_eligible :: "nat list \<Rightarrow> (nat \<Rightarrow> instant) \<Rightarrow> balancer \<Rightarrow> nat option res \<times> balancer" where
  "first_eligible exclude clk b = find_loop (length (bal_upstreams b)) 0 exclude clk b"

definition pick_round_robin :: "nat list \<Rightarrow> (nat \<Rightarrow> instant) \<Rightarrow> balancer \<Rightarrow> nat option res \<times> balancer" where
  "pick_round_robin exclude clk b =
     (let n = length (bal_rr_order b) in
      case rr_loop n exclude clk b of
        (Panic, b) \<Rightarrow> (Panic, b)
      | (Ret (Some idx), b) \<Rightarrow> (Ret (Some idx), b)
      | (Ret None, b) \<Rightarrow> first_eligible exclude (\<lambda>k. clk (n + k)) b)"

text \<open>
  \<^verbatim>\<open>pick_least_conn\<close>: \<^verbatim>\<open>filter\<close> probes every upstream that is not excluded, and
  \<^verbatim>\<open>min_by_key\<close> keeps the first of the smallest active counts seen so far.
\<close>

definition least_update :: "(int \<times> nat) option \<Rightarrow> int \<Rightarrow> nat \<Rightarrow> (int \<times> nat) option" where
  "least_update best key i = (case best of
      None \<Rightarrow> Some (key, i)
    | Some (m, j) \<Rightarrow> if key < m then Some (key, i) else Some (m, j))"

fun least_loop ::
  "nat \<Rightarrow> nat \<Rightarrow> nat list \<Rightarrow> (nat \<Rightarrow> instant) \<Rightarrow> (int \<times> nat) option \<Rightarrow> balancer
   \<Rightarrow> nat option res \<times> balancer" where
  "least_loop 0 i exclude clk best b = (Ret (map_option snd best), b)"
| "least_loop (Suc k) i exclude clk best b =
     (if i \<in> set exclude then least_loop k (Suc i) exclude clk best b
      else (case probe_at i (clk i) b of
              (Panic, b) \<Rightarrow> (Panic, b)
            | (Ret ok, b) \<Rightarrow>
                least_loop k (Suc i) exclude clk
                  (if ok then least_update best (sint (up_active (bal_upstreams b ! i))) i else best) b))"

definition pick_least_conn :: "nat list \<Rightarrow> (nat \<Rightarrow> instant) \<Rightarrow> balancer \<Rightarrow> nat option res \<times> balancer" where
  "pick_least_conn exclude clk b = least_loop (length (bal_upstreams b)) 0 exclude clk None b"

text \<open>The tail of \<^verbatim>\<open>pick\<close>: the chosen upstream and its active-request guard.\<close>

definition take_guard :: "nat option res \<times> balancer \<Rightarrow> nat option res \<times> balancer" where
  "take_guard sel = (case sel of
      (Panic, b) \<Rightarrow> (Panic, b)
    | (Ret None, b) \<Rightarrow> (Ret None, b)
    | (Ret (Some idx), b) \<Rightarrow>
        if idx < length (bal_upstreams b) then (Ret (Some idx), guard_new idx b) else (Panic, b))"

definition pick :: "nat list \<Rightarrow> (nat \<Rightarrow> instant) \<Rightarrow> balancer \<Rightarrow> nat option res \<times> balancer" where
  "pick exclude clk b =
     take_guard (case bal_strategy b of
        RoundRobin \<Rightarrow> pick_round_robin exclude clk b
      | LeastConnections \<Rightarrow> pick_least_conn exclude clk b)"

text \<open>
  A caller that holds the picked upstream reports to its breaker: \<^verbatim>\<open>upstream.breaker.m()\<close>
  for a method \<open>m\<close>.
\<close>

definition on_breaker ::
  "nat \<Rightarrow> (circuit_breaker \<Rightarrow> 'a res \<times> circuit_breaker) \<Rightarrow> balancer \<Rightarrow> 'a res \<times> balancer" where
  "on_breaker i m b =
     (let (r, cb) = m (up_breaker (bal_upstreams b ! i))
      in (r, upd_upstream i (\<lambda>u. u\<lparr>up_breaker := cb\<rparr>) b))"

section \<open>Sharing a balancer\<close>

text \<open>
  The steps that the tasks of the gateway take on one balancer, each atomic, in any order:
  a request picks an upstream and gets a guard (or finds none), a guard is dropped, an outcome
  is reported to a breaker, a health check sets a flag. The second component lists the
  guards that are alive.
\<close>

inductive bal_step :: "balancer \<times> nat list \<Rightarrow> balancer \<times> nat list \<Rightarrow> bool" where
  acquire: "pick ex clk b = (Ret (Some i), b') \<Longrightarrow> bal_step (b, gs) (b', i # gs)"
| busy: "pick ex clk b = (Ret None, b') \<Longrightarrow> bal_step (b, gs) (b', gs)"
| release: "i \<in> set gs \<Longrightarrow> bal_step (b, gs) (guard_drop i b, remove1 i gs)"
| success: "i < length (bal_upstreams b) \<Longrightarrow> on_breaker i record_success b = (r, b') \<Longrightarrow>
    bal_step (b, gs) (b', gs)"
| failure: "i < length (bal_upstreams b) \<Longrightarrow> clock_fits (up_breaker (bal_upstreams b ! i)) now \<Longrightarrow>
    on_breaker i (\<lambda>cb. record_failure_at cb now) b = (r, b') \<Longrightarrow> bal_step (b, gs) (b', gs)"
| health: "i < length (bal_upstreams b) \<Longrightarrow> bal_step (b, gs) (upd_upstream i (set_healthy v) b, gs)"

inductive_cases bal_stepE: "bal_step s t"

section \<open>Invariant and views\<close>

definition bal_ok :: "balancer \<Rightarrow> bool" where
  "bal_ok b \<longleftrightarrow>
     bal_rr_order b \<noteq> [] \<and> (\<forall>i \<in> set (bal_rr_order b). i < length (bal_upstreams b))
     \<and> (\<forall>u \<in> set (bal_upstreams b). breaker_ok (up_breaker u))"

text \<open>\<open>admits u now\<close>: a probe of \<open>u\<close> at \<open>now\<close> succeeds. \<open>serving u\<close>: it has succeeded.\<close>

definition admits :: "upstream \<Rightarrow> instant \<Rightarrow> bool" where
  "admits u now \<longleftrightarrow> up_healthy u \<and> \<not> blocked (up_breaker u) now"

definition serving :: "upstream \<Rightarrow> bool" where
  "serving u \<longleftrightarrow> up_healthy u \<and> st (up_breaker u) \<noteq> Open"

text \<open>
  What probing can change of an upstream: its breaker may go from open to half-open, and
  nothing else.
\<close>

definition probed :: "upstream \<Rightarrow> upstream \<Rightarrow> bool" where
  "probed u u' \<longleftrightarrow>
     up_url u' = up_url u \<and> up_weight u' = up_weight u \<and> up_active u' = up_active u
     \<and> up_healthy u' = up_healthy u
     \<and> cb_threshold (up_breaker u') = cb_threshold (up_breaker u)
     \<and> cb_open_for (up_breaker u') = cb_open_for (up_breaker u)
     \<and> fails (up_breaker u') = fails (up_breaker u)
     \<and> until (up_breaker u') = until (up_breaker u)
     \<and> (st (up_breaker u') = st (up_breaker u)
        \<or> st (up_breaker u) = Open \<and> st (up_breaker u') = HalfOpen)
     \<and> (breaker_ok (up_breaker u) \<longrightarrow> breaker_ok (up_breaker u'))"

definition bal_frame :: "balancer \<Rightarrow> balancer \<Rightarrow> bool" where
  "bal_frame b b' \<longleftrightarrow>
     bal_strategy b' = bal_strategy b \<and> bal_rr_order b' = bal_rr_order b
     \<and> list_all2 probed (bal_upstreams b) (bal_upstreams b')"

section \<open>Lemmas\<close>

subsection \<open>Probing one upstream\<close>

lemma probed_refl [simp]: "probed u u"
  by (simp add: probed_def)

lemma probed_trans: "probed u v \<Longrightarrow> probed v w \<Longrightarrow> probed u w"
  by (auto simp: probed_def)

lemma eligible_fst: "breaker_ok (up_breaker u) \<Longrightarrow> fst (eligible u now) = Ret (admits u now)"
  by (simp add: eligible_def admits_def case_prod_beta allow_at_fst)

lemma eligible_probed: "breaker_ok (up_breaker u) \<Longrightarrow> probed u (snd (eligible u now))"
  by (auto simp: eligible_def probed_def case_prod_beta allow_at_ok allow_at_st allow_at_rest)

lemma eligible_serving:
  "breaker_ok (up_breaker u) \<Longrightarrow> admits u now \<Longrightarrow> serving (snd (eligible u now))"
  by (auto simp: eligible_def admits_def serving_def case_prod_beta allow_at_st)

lemma probed_admits: "probed u u' \<Longrightarrow> admits u now \<Longrightarrow> admits u' now"
  by (auto simp: probed_def admits_def blocked_def)

lemma probed_serving: "probed u u' \<Longrightarrow> serving u \<Longrightarrow> serving u'"
  by (auto simp: probed_def serving_def)

lemma serving_admits: "serving u \<Longrightarrow> admits u now"
  by (simp add: serving_def admits_def blocked_def)

subsection \<open>Frames\<close>

lemma bal_frame_refl [simp]: "bal_frame b b"
  by (simp add: bal_frame_def list_all2_conv_all_nth)

lemma bal_frame_trans: "bal_frame a b \<Longrightarrow> bal_frame b c \<Longrightarrow> bal_frame a c"
  unfolding bal_frame_def by (auto intro: list_all2_trans [OF probed_trans])

lemma bal_frame_length: "bal_frame b b' \<Longrightarrow> length (bal_upstreams b') = length (bal_upstreams b)"
  by (auto simp: bal_frame_def dest: list_all2_lengthD)

lemma bal_frame_nth:
  "bal_frame b b' \<Longrightarrow> i < length (bal_upstreams b) \<Longrightarrow> probed (bal_upstreams b ! i) (bal_upstreams b' ! i)"
  by (auto simp: bal_frame_def list_all2_conv_all_nth)

lemma probed_ok: "probed u u' \<Longrightarrow> breaker_ok (up_breaker u) \<Longrightarrow> breaker_ok (up_breaker u')"
  by (simp add: probed_def)

lemma bal_frame_ok:
  assumes "bal_frame b b'" and "bal_ok b"
  shows "bal_ok b'"
proof -
  have "breaker_ok (up_breaker u)" if "u \<in> set (bal_upstreams b')" for u
    using that assms bal_frame_nth [OF assms(1)] bal_frame_length [OF assms(1)] probed_ok
    by (metis bal_ok_def in_set_conv_nth)
  with assms bal_frame_length [OF assms(1)] show ?thesis
    by (simp add: bal_ok_def bal_frame_def)
qed

lemma bal_frame_cursor [simp]:
  "bal_frame (b\<lparr>bal_rr_cursor := c\<rparr>) b' \<longleftrightarrow> bal_frame b b'"
  "bal_frame b (b'\<lparr>bal_rr_cursor := c\<rparr>) \<longleftrightarrow> bal_frame b b'"
  by (simp_all add: bal_frame_def)

lemma bal_ok_cursor [simp]: "bal_ok (b\<lparr>bal_rr_cursor := c\<rparr>) \<longleftrightarrow> bal_ok b"
  by (simp add: bal_ok_def)

lemma upd_upstream_simps [simp]:
  "bal_strategy (upd_upstream i f b) = bal_strategy b"
  "bal_rr_order (upd_upstream i f b) = bal_rr_order b"
  "bal_rr_cursor (upd_upstream i f b) = bal_rr_cursor b"
  "length (bal_upstreams (upd_upstream i f b)) = length (bal_upstreams b)"
  by (simp_all add: upd_upstream_def)

lemma upd_upstream_nth:
  "j < length (bal_upstreams b) \<Longrightarrow>
   bal_upstreams (upd_upstream i f b) ! j
     = (if i = j then f (bal_upstreams b ! j) else bal_upstreams b ! j)"
  by (auto simp: upd_upstream_def nth_list_update)

lemma probe_at_spec:
  assumes "bal_ok b" and "i < length (bal_upstreams b)"
  shows "fst (probe_at i now b) = Ret (admits (bal_upstreams b ! i) now)"
    and "bal_frame b (snd (probe_at i now b))"
    and "admits (bal_upstreams b ! i) now \<Longrightarrow> serving (bal_upstreams (snd (probe_at i now b)) ! i)"
proof -
  have ok: "breaker_ok (up_breaker (bal_upstreams b ! i))"
    using assms by (simp add: bal_ok_def)
  show "fst (probe_at i now b) = Ret (admits (bal_upstreams b ! i) now)"
    using assms(2) ok by (simp add: probe_at_def case_prod_beta eligible_fst)
  show "bal_frame b (snd (probe_at i now b))"
    using assms(2) eligible_probed [OF ok]
    by (auto simp: probe_at_def bal_frame_def list_all2_conv_all_nth upd_upstream_nth case_prod_beta)
  show "serving (bal_upstreams (snd (probe_at i now b)) ! i)" if "admits (bal_upstreams b ! i) now"
    using assms(2) eligible_serving [OF ok that]
    by (simp add: probe_at_def case_prod_beta upd_upstream_nth)
qed

lemma probe_at_cases [consumes 2, case_names admitted refused]:
  assumes "bal_ok b" and "i < length (bal_upstreams b)"
  obtains (admitted) b' where "probe_at i now b = (Ret True, b')" "admits (bal_upstreams b ! i) now"
      "bal_frame b b'" "bal_ok b'" "serving (bal_upstreams b' ! i)"
  | (refused) b' where "probe_at i now b = (Ret False, b')" "\<not> admits (bal_upstreams b ! i) now"
      "bal_frame b b'" "bal_ok b'"
  using probe_at_spec [OF assms, of now] bal_frame_ok [OF _ assms(1)]
  by (cases "admits (bal_upstreams b ! i) now") (metis prod.collapse)+

section \<open>The contract of a selection routine\<close>

text \<open>
  The three selection routines of the source promise the same: they never panic on a
  well-formed balancer, they change nothing but breakers whose cooldown is over, a selected
  upstream is in range, not excluded and was admitted, and they select something whenever an
  upstream that is not excluded would be admitted at every instant of the call.
\<close>

locale selector =
  fixes sel :: "nat list \<Rightarrow> (nat \<Rightarrow> instant) \<Rightarrow> balancer \<Rightarrow> nat option res \<times> balancer"
  assumes sel_total: "bal_ok b \<Longrightarrow> \<exists>r. fst (sel ex clk b) = Ret r"
    and sel_frame: "bal_ok b \<Longrightarrow> bal_frame b (snd (sel ex clk b))"
    and sel_sound: "bal_ok b \<Longrightarrow> fst (sel ex clk b) = Ret (Some i) \<Longrightarrow>
      i < length (bal_upstreams b) \<and> i \<notin> set ex \<and> serving (bal_upstreams (snd (sel ex clk b)) ! i)"
    and sel_complete: "bal_ok b \<Longrightarrow> fst (sel ex clk b) = Ret None \<Longrightarrow>
      i < length (bal_upstreams b) \<Longrightarrow> i \<notin> set ex \<Longrightarrow> \<exists>k. \<not> admits (bal_upstreams b ! i) (clk k)"
begin

lemma sel_available:
  assumes "bal_ok b" and "i < length (bal_upstreams b)" and "i \<notin> set ex"
    and "\<And>k. admits (bal_upstreams b ! i) (clk k)"
  shows "\<exists>j. fst (sel ex clk b) = Ret (Some j)"
  using sel_total [OF assms(1), of ex clk] sel_complete [OF assms(1) _ assms(2,3), of clk] assms(4)
  by (metis not_Some_eq)

lemma take_guard_some:
  assumes "bal_ok b" and "fst (take_guard (sel ex clk b)) = Ret (Some i)"
  shows "fst (sel ex clk b) = Ret (Some i)"
    and "snd (take_guard (sel ex clk b)) = guard_new i (snd (sel ex clk b))"
  using assms(2) by (auto simp: take_guard_def split: prod.splits res.splits option.splits if_splits)

lemma take_guard_none:
  assumes "bal_ok b" and "fst (take_guard (sel ex clk b)) = Ret None"
  shows "fst (sel ex clk b) = Ret None"
    and "snd (take_guard (sel ex clk b)) = snd (sel ex clk b)"
  using assms(2) by (auto simp: take_guard_def split: prod.splits res.splits option.splits if_splits)

lemma take_guard_total:
  assumes "bal_ok b"
  shows "\<exists>r. fst (take_guard (sel ex clk b)) = Ret r"
proof -
  obtain r where r: "fst (sel ex clk b) = Ret r"
    using sel_total [OF assms] by blast
  have "\<And>i. r = Some i \<Longrightarrow> i < length (bal_upstreams (snd (sel ex clk b)))"
    using sel_sound [OF assms, of ex clk] sel_frame [OF assms, of ex clk] r
    by (simp add: bal_frame_length)
  with r show ?thesis
    by (auto simp: take_guard_def split: prod.splits res.splits option.splits)
qed

end

subsection \<open>The routines keep the contract\<close>

definition sel_post ::
  "nat list \<Rightarrow> balancer \<Rightarrow> nat option res \<times> balancer \<Rightarrow> bool" where
  "sel_post ex b out \<longleftrightarrow>
     bal_frame b (snd out) \<and>
     (case fst out of
        Panic \<Rightarrow> False
      | Ret None \<Rightarrow> True
      | Ret (Some i) \<Rightarrow> i < length (bal_upstreams b) \<and> i \<notin> set ex \<and> serving (bal_upstreams (snd out) ! i))"

lemma sel_post_frame: "bal_frame b b' \<Longrightarrow> sel_post ex b' out \<Longrightarrow> sel_post ex b out"
  by (auto simp: sel_post_def bal_frame_length intro: bal_frame_trans split: res.splits option.splits)

lemma rr_loop_post: "bal_ok b \<Longrightarrow> sel_post ex b (rr_loop k ex clk b)"
proof (induction k arbitrary: b)
  case 0
  then show ?case by (simp add: sel_post_def)
next
  case (Suc k)
  let ?b = "b\<lparr>bal_rr_cursor := bal_rr_cursor b + 1\<rparr>"
  let ?idx = "bal_rr_order b ! (unat (bal_rr_cursor b) mod length (bal_rr_order b))"
  have ok: "bal_ok ?b" and idx: "?idx < length (bal_upstreams ?b)"
    using Suc.prems by (auto simp: bal_ok_def)
  show ?case
  proof (cases "?idx \<in> set ex")
    case True
    with Suc.IH [OF ok] show ?thesis
      by (auto simp: Let_def intro: sel_post_frame [of _ ?b])
  next
    case notin: False
    from ok idx show ?thesis
    proof (cases rule: probe_at_cases [where now = "clk k"])
      case (admitted b')
      with notin idx show ?thesis by (simp add: Let_def sel_post_def)
    next
      case (refused b')
      with Suc.IH [of b'] notin show ?thesis
        by (auto simp: Let_def intro: sel_post_frame [of _ b'])
    qed
  qed
qed

lemma find_loop_post:
  "bal_ok b \<Longrightarrow> i + k = length (bal_upstreams b) \<Longrightarrow>
     sel_post ex b (find_loop k i ex clk b)
     \<and> (fst (find_loop k i ex clk b) = Ret None \<longrightarrow>
          (\<forall>j. i \<le> j \<and> j < length (bal_upstreams b) \<and> j \<notin> set ex \<longrightarrow> \<not> admits (bal_upstreams b ! j) (clk j)))"
proof (induction k arbitrary: i b)
  case 0
  then show ?case by (auto simp: sel_post_def)
next
  case (Suc k)
  show ?case
  proof (cases "i \<in> set ex")
    case True
    with Suc.IH [of b "Suc i"] Suc.prems show ?thesis
      by (simp add: Suc_le_eq) (metis le_neq_implies_less)
  next
    case notin: False
    have i: "i < length (bal_upstreams b)" using Suc.prems by simp
    from Suc.prems(1) i show ?thesis
    proof (cases rule: probe_at_cases [where now = "clk i"])
      case (admitted b')
      with notin i show ?thesis by (simp add: sel_post_def)
    next
      case (refused b')
      have len: "length (bal_upstreams b') = length (bal_upstreams b)"
        using refused(3) by (rule bal_frame_length)
      have "\<not> admits (bal_upstreams b ! j) (clk j)"
        if "fst (find_loop k (Suc i) ex clk b') = Ret None" "i \<le> j" "j < length (bal_upstreams b)"
          "j \<notin> set ex" for j
      proof (cases "j = i")
        case False
        with that Suc.IH [of b' "Suc i"] Suc.prems(2) len refused(4)
        have "\<not> admits (bal_upstreams b' ! j) (clk j)" by auto
        with that(3) bal_frame_nth [OF refused(3)] probed_admits show ?thesis by blast
      qed (use refused(2) in simp)
      with Suc.IH [of b' "Suc i"] refused notin Suc.prems(2) len show ?thesis
        by (auto intro: sel_post_frame [of _ b'])
    qed
  qed
qed

lemma frame_not_admits:
  "bal_frame b b' \<Longrightarrow> j < length (bal_upstreams b) \<Longrightarrow> \<not> admits (bal_upstreams b' ! j) t \<Longrightarrow>
   \<not> admits (bal_upstreams b ! j) t"
  using bal_frame_nth probed_admits by blast

definition candidate :: "nat list \<Rightarrow> balancer \<Rightarrow> (int \<times> nat) option \<Rightarrow> bool" where
  "candidate ex b best \<longleftrightarrow> (\<forall>m j. best = Some (m, j) \<longrightarrow>
     j < length (bal_upstreams b) \<and> j \<notin> set ex \<and> serving (bal_upstreams b ! j))"

lemma candidate_None [simp]: "candidate ex b None"
  by (simp add: candidate_def)

lemma candidate_frame: "bal_frame b b' \<Longrightarrow> candidate ex b best \<Longrightarrow> candidate ex b' best"
  using bal_frame_nth probed_serving by (fastforce simp: candidate_def bal_frame_length)

lemma candidate_update:
  "candidate ex b best \<Longrightarrow> i < length (bal_upstreams b) \<Longrightarrow> i \<notin> set ex \<Longrightarrow> serving (bal_upstreams b ! i) \<Longrightarrow>
   candidate ex b (least_update best key i)"
  by (auto simp: candidate_def least_update_def split: option.splits)

lemma least_update_not_None [simp]: "least_update best key i \<noteq> None"
  by (auto simp: least_update_def split: option.splits)

lemma least_loop_post:
  "bal_ok b \<Longrightarrow> i + k = length (bal_upstreams b) \<Longrightarrow> candidate ex b best \<Longrightarrow>
     sel_post ex b (least_loop k i ex clk best b)
     \<and> (fst (least_loop k i ex clk best b) = Ret None \<longrightarrow> best = None \<and>
          (\<forall>j. i \<le> j \<and> j < length (bal_upstreams b) \<and> j \<notin> set ex \<longrightarrow> \<not> admits (bal_upstreams b ! j) (clk j)))"
proof (induction k arbitrary: i b best)
  case 0
  then show ?case by (auto simp: sel_post_def candidate_def split: option.splits)
next
  case (Suc k)
  have i: "i < length (bal_upstreams b)" using Suc.prems(2) by simp
  show ?case
  proof (cases "i \<in> set ex")
    case True
    with Suc.IH [of b "Suc i" best] Suc.prems show ?thesis
      by (simp add: Suc_le_eq) (metis le_neq_implies_less)
  next
    case notin: False
    from Suc.prems(1) i show ?thesis
    proof (cases rule: probe_at_cases [where now = "clk i"])
      case (admitted b')
      let ?best = "least_update best (sint (up_active (bal_upstreams b' ! i))) i"
      have "candidate ex b' ?best"
        using admitted Suc.prems(3) i notin
        by (auto intro!: candidate_update intro: candidate_frame simp: bal_frame_length)
      with Suc.IH [of b' "Suc i" ?best] admitted Suc.prems(2) notin show ?thesis
        by (auto simp: bal_frame_length intro: sel_post_frame [of _ b'])
    next
      case (refused b')
      note IH = Suc.IH [of b' "Suc i" best, OF refused(4) _ candidate_frame [OF refused(3) Suc.prems(3)]]
      have "\<not> admits (bal_upstreams b ! j) (clk j)"
        if "fst (least_loop k (Suc i) ex clk best b') = Ret None" "i \<le> j" "j < length (bal_upstreams b)"
          "j \<notin> set ex" for j
        using that IH Suc.prems(2) refused(2,3) frame_not_admits [OF refused(3)]
        by (cases "j = i") (auto simp: bal_frame_length)
      with IH refused notin Suc.prems(2) show ?thesis
        by (auto simp: bal_frame_length intro: sel_post_frame [of _ b'])
    qed
  qed
qed

subsection \<open>Interpretations\<close>

lemma sel_postD:
  assumes "sel_post ex b out"
  shows "\<exists>r. fst out = Ret r" "bal_frame b (snd out)"
    "fst out = Ret (Some i) \<Longrightarrow>
       i < length (bal_upstreams b) \<and> i \<notin> set ex \<and> serving (bal_upstreams (snd out) ! i)"
  using assms by (auto simp: sel_post_def split: res.splits option.splits)

lemma first_eligible_post:
  assumes "bal_ok b"
  shows "sel_post ex b (first_eligible ex clk b)"
    and "fst (first_eligible ex clk b) = Ret None \<Longrightarrow> i < length (bal_upstreams b) \<Longrightarrow> i \<notin> set ex \<Longrightarrow>
      \<not> admits (bal_upstreams b ! i) (clk i)"
  using find_loop_post [OF assms, of 0 "length (bal_upstreams b)" ex clk]
  by (auto simp: first_eligible_def)

interpretation fe: selector first_eligible
proof unfold_locales
  fix b ex clk i
  assume ok: "bal_ok b"
  note post = first_eligible_post [OF ok] sel_postD [OF first_eligible_post(1) [OF ok]]
  show "\<exists>r. fst (first_eligible ex clk b) = Ret r" "bal_frame b (snd (first_eligible ex clk b))"
    by (rule post)+
  show "i < length (bal_upstreams b) \<and> i \<notin> set ex \<and> serving (bal_upstreams (snd (first_eligible ex clk b)) ! i)"
    if "fst (first_eligible ex clk b) = Ret (Some i)"
    using that by (rule post)
  show "\<exists>k. \<not> admits (bal_upstreams b ! i) (clk k)"
    if "fst (first_eligible ex clk b) = Ret None" "i < length (bal_upstreams b)" "i \<notin> set ex"
    using post(2) [OF that] by blast
qed

lemma pick_round_robin_cases:
  assumes "bal_ok b"
  obtains i b' where "pick_round_robin ex clk b = (Ret (Some i), b')"
      "rr_loop (length (bal_rr_order b)) ex clk b = (Ret (Some i), b')"
      "sel_post ex b (Ret (Some i), b')"
  | b' where "pick_round_robin ex clk b = first_eligible ex (\<lambda>k. clk (length (bal_rr_order b) + k)) b'"
      "bal_frame b b'" "bal_ok b'"
proof (cases "rr_loop (length (bal_rr_order b)) ex clk b")
  case (Pair r b')
  with rr_loop_post [OF assms, of ex "length (bal_rr_order b)" clk]
  have post: "sel_post ex b (r, b')" by simp
  show ?thesis
  proof (cases r)
    case (Ret io)
    with Pair post that bal_frame_ok [OF _ assms] show ?thesis
      by (cases io) (auto simp: pick_round_robin_def sel_post_def)
  qed (use post in \<open>simp add: sel_post_def\<close>)
qed

interpretation rr: selector pick_round_robin
proof unfold_locales
  fix b ex clk i
  assume ok: "bal_ok b"
  have post: "sel_post ex b (pick_round_robin ex clk b)"
    by (rule pick_round_robin_cases [OF ok, of ex clk])
      (auto intro: sel_post_frame first_eligible_post(1))
  show "\<exists>r. fst (pick_round_robin ex clk b) = Ret r" "bal_frame b (snd (pick_round_robin ex clk b))"
    by (rule sel_postD [OF post])+
  show "i < length (bal_upstreams b) \<and> i \<notin> set ex \<and> serving (bal_upstreams (snd (pick_round_robin ex clk b)) ! i)"
    if "fst (pick_round_robin ex clk b) = Ret (Some i)"
    using that by (rule sel_postD [OF post])
  show "\<exists>k. \<not> admits (bal_upstreams b ! i) (clk k)"
    if none: "fst (pick_round_robin ex clk b) = Ret None" and i: "i < length (bal_upstreams b)" "i \<notin> set ex"
  proof (cases rule: pick_round_robin_cases [OF ok, of ex clk])
    case (2 b')
    with none i first_eligible_post(2) [OF 2(3)] frame_not_admits [OF 2(2)] show ?thesis
      by (metis bal_frame_length)
  qed (use none in simp)
qed

interpretation lc: selector pick_least_conn
proof unfold_locales
  fix b ex clk i
  assume ok: "bal_ok b"
  note loop = least_loop_post [OF ok, of 0 "length (bal_upstreams b)" ex None clk,
      folded pick_least_conn_def, simplified]
  then have post: "sel_post ex b (pick_least_conn ex clk b)" by simp
  show "\<exists>r. fst (pick_least_conn ex clk b) = Ret r" "bal_frame b (snd (pick_least_conn ex clk b))"
    by (rule sel_postD [OF post])+
  show "i < length (bal_upstreams b) \<and> i \<notin> set ex \<and> serving (bal_upstreams (snd (pick_least_conn ex clk b)) ! i)"
    if "fst (pick_least_conn ex clk b) = Ret (Some i)"
    using that by (rule sel_postD [OF post])
  show "\<exists>k. \<not> admits (bal_upstreams b ! i) (clk k)"
    if "fst (pick_least_conn ex clk b) = Ret None" "i < length (bal_upstreams b)" "i \<notin> set ex"
    using that loop by blast
qed

subsection \<open>Picking\<close>

lemma pick_selector:
  obtains sel where "selector sel" "pick ex clk b = take_guard (sel ex clk b)"
  by (cases "bal_strategy b") (auto simp: pick_def intro: that rr.selector_axioms lc.selector_axioms)

lemma guard_new_nth:
  "j < length (bal_upstreams b) \<Longrightarrow> bal_upstreams (guard_new i b) ! j =
     (if i = j then (bal_upstreams b ! j)\<lparr>up_active := up_active (bal_upstreams b ! j) + 1\<rparr> else bal_upstreams b ! j)"
  by (auto simp: guard_new_def upd_upstream_nth)

lemma guard_drop_nth:
  "j < length (bal_upstreams b) \<Longrightarrow> bal_upstreams (guard_drop i b) ! j =
     (if i = j then (bal_upstreams b ! j)\<lparr>up_active := up_active (bal_upstreams b ! j) - 1\<rparr> else bal_upstreams b ! j)"
  by (auto simp: guard_drop_def upd_upstream_nth)

lemma guard_simps [simp]:
  "length (bal_upstreams (guard_new i b)) = length (bal_upstreams b)"
  "length (bal_upstreams (guard_drop i b)) = length (bal_upstreams b)"
  "bal_rr_order (guard_new i b) = bal_rr_order b" "bal_rr_order (guard_drop i b) = bal_rr_order b"
  "bal_rr_cursor (guard_new i b) = bal_rr_cursor b" "bal_rr_cursor (guard_drop i b) = bal_rr_cursor b"
  "bal_strategy (guard_new i b) = bal_strategy b" "bal_strategy (guard_drop i b) = bal_strategy b"
  by (simp_all add: guard_new_def guard_drop_def)

lemma bal_ok_upd:
  assumes "bal_ok b" and "breaker_ok (up_breaker (f (bal_upstreams b ! i)))"
  shows "bal_ok (upd_upstream i f b)"
  using assms unfolding bal_ok_def
  by (auto simp: upd_upstream_def dest!: set_update_subset_insert [THEN subsetD])

lemma bal_ok_breaker: "bal_ok b \<Longrightarrow> i < length (bal_upstreams b) \<Longrightarrow> breaker_ok (up_breaker (bal_upstreams b ! i))"
  by (simp add: bal_ok_def)

lemma bal_ok_guards [simp]:
  "bal_ok b \<Longrightarrow> i < length (bal_upstreams b) \<Longrightarrow> bal_ok (guard_new i b)"
  "bal_ok b \<Longrightarrow> i < length (bal_upstreams b) \<Longrightarrow> bal_ok (guard_drop i b)"
  by (simp_all add: guard_new_def guard_drop_def bal_ok_upd bal_ok_breaker)

lemma pick_total: "bal_ok b \<Longrightarrow> \<exists>r. fst (pick ex clk b) = Ret r"
  by (rule pick_selector [of ex clk b]) (simp add: selector.take_guard_total)

lemma pick_some:
  assumes ok: "bal_ok b" and p: "pick ex clk b = (Ret (Some i), b')"
  obtains b1 where "bal_frame b b1" "b' = guard_new i b1" "i < length (bal_upstreams b)"
    "i \<notin> set ex" "serving (bal_upstreams b1 ! i)"
proof (rule pick_selector [of ex clk b])
  fix sel
  assume sel: "selector sel" and eq: "pick ex clk b = take_guard (sel ex clk b)"
  from eq p have f: "fst (take_guard (sel ex clk b)) = Ret (Some i)"
    and s: "snd (take_guard (sel ex clk b)) = b'" by (metis fst_conv snd_conv)+
  note tg = selector.take_guard_some [OF sel ok f]
  from selector.sel_frame [OF sel ok] selector.sel_sound [OF sel ok tg(1)] tg(2) s that
  show thesis by metis
qed

lemma pick_none:
  assumes ok: "bal_ok b" and p: "pick ex clk b = (Ret None, b')"
  shows "bal_frame b b' \<and> (\<forall>i < length (bal_upstreams b). i \<notin> set ex \<longrightarrow>
           (\<exists>k. \<not> admits (bal_upstreams b ! i) (clk k)))"
proof (rule pick_selector [of ex clk b])
  fix sel
  assume sel: "selector sel" and eq: "pick ex clk b = take_guard (sel ex clk b)"
  from eq p have f: "fst (take_guard (sel ex clk b)) = Ret None"
    and s: "snd (take_guard (sel ex clk b)) = b'" by (metis fst_conv snd_conv)+
  note tg = selector.take_guard_none [OF sel ok f]
  show ?thesis
    using selector.sel_frame [OF sel ok] selector.sel_complete [OF sel ok tg(1)] tg(2) s by metis
qed

lemma pick_ok:
  assumes ok: "bal_ok b" and p: "pick ex clk b = (r, b')"
  shows "bal_ok b'"
proof -
  obtain io where r: "r = Ret io"
    using pick_total [OF ok, of ex clk] p by auto
  show ?thesis
  proof (cases io)
    case None
    with pick_none [OF ok] p r bal_frame_ok [OF _ ok] show ?thesis by blast
  next
    case (Some i)
    with p r have "pick ex clk b = (Ret (Some i), b')" by simp
    from pick_some [OF ok this] show ?thesis
      by (metis bal_frame_length bal_frame_ok bal_ok_guards(1) ok)
  qed
qed

subsection \<open>A balancer whose upstreams all serve\<close>

lemma allow_at_not_open:
  "breaker_ok cb \<Longrightarrow> st cb \<noteq> Open \<Longrightarrow> allow_at cb now = (Ret True, cb)"
  by (cases cb; cases "cb_inner cb"; cases "st cb")
    (auto simp: breaker_ok_def allow_at_def lock_simps allow_body_def)

lemma eligible_serving_id:
  "breaker_ok (up_breaker u) \<Longrightarrow> serving u \<Longrightarrow> eligible u now = (Ret True, u)"
  by (simp add: eligible_def serving_def allow_at_not_open)

definition all_serving :: "balancer \<Rightarrow> bool" where
  "all_serving b \<longleftrightarrow> bal_ok b \<and> (\<forall>u \<in> set (bal_upstreams b). serving u)"

lemma probe_at_serving:
  "all_serving b \<Longrightarrow> i < length (bal_upstreams b) \<Longrightarrow> probe_at i now b = (Ret True, b)"
  by (simp add: all_serving_def probe_at_def bal_ok_breaker eligible_serving_id upd_upstream_def)

lemma all_serving_cursor [simp]: "all_serving (b\<lparr>bal_rr_cursor := c\<rparr>) \<longleftrightarrow> all_serving b"
  by (simp add: all_serving_def)

lemma pick_round_robin_serving:
  assumes "all_serving b"
  shows "pick_round_robin [] clk b =
     (Ret (Some (bal_rr_order b ! (unat (bal_rr_cursor b) mod length (bal_rr_order b)))),
      b\<lparr>bal_rr_cursor := bal_rr_cursor b + 1\<rparr>)"
proof -
  obtain n where n: "length (bal_rr_order b) = Suc n"
    using assms by (auto simp: all_serving_def bal_ok_def neq_Nil_conv)
  have "bal_rr_order b ! (unat (bal_rr_cursor b) mod Suc n) < length (bal_upstreams b)"
    using assms n by (simp add: all_serving_def bal_ok_def)
  with assms n show ?thesis
    by (simp add: pick_round_robin_def probe_at_serving Let_def)
qed

text \<open>\<open>k\<close> picks in a row, the guards kept: the indices picked.\<close>

fun pick_many :: "nat \<Rightarrow> (nat \<Rightarrow> instant) \<Rightarrow> balancer \<Rightarrow> nat list" where
  "pick_many 0 clk b = []"
| "pick_many (Suc k) clk b =
     (case pick [] clk b of (Ret (Some i), b') \<Rightarrow> i # pick_many k clk b' | _ \<Rightarrow> [])"

lemma all_serving_guard_new:
  assumes "all_serving b" and "i < length (bal_upstreams b)"
  shows "all_serving (guard_new i b)"
  using assms unfolding all_serving_def
  by (simp add: all_set_conv_all_nth guard_new_nth serving_def)

lemma pick_many_round_robin:
  assumes "all_serving b" and "bal_strategy b = RoundRobin"
    and "unat (bal_rr_cursor b) + k < 2 ^ 64"
  shows "pick_many k clk b =
     map (\<lambda>j. bal_rr_order b ! ((unat (bal_rr_cursor b) + j) mod length (bal_rr_order b))) [0..<k]"
  using assms
proof (induction k arbitrary: b)
  case (Suc k)
  let ?n = "length (bal_rr_order b)"
  let ?i = "bal_rr_order b ! (unat (bal_rr_cursor b) mod ?n)"
  let ?b = "guard_new ?i (b\<lparr>bal_rr_cursor := bal_rr_cursor b + 1\<rparr>)"
  have "?n \<noteq> 0" using Suc.prems(1) by (simp add: all_serving_def bal_ok_def)
  then have i: "?i < length (bal_upstreams b)"
    using Suc.prems(1) by (simp add: all_serving_def bal_ok_def)
  have c: "unat (bal_rr_cursor b + 1) = Suc (unat (bal_rr_cursor b))"
    using Suc.prems(3) by (simp add: unat_Suc_u64)
  have "pick [] clk b = (Ret (Some ?i), ?b)"
    using Suc.prems(1,2) i by (simp add: pick_def pick_round_robin_serving take_guard_def)
  moreover have "pick_many k clk ?b =
      map (\<lambda>j. bal_rr_order b ! ((Suc (unat (bal_rr_cursor b)) + j) mod ?n)) [0..<k]"
    using Suc.IH [of ?b] Suc.prems i c by (simp add: all_serving_guard_new)
  ultimately show ?case
    by (simp add: upt_conv_Cons map_Suc_upt [symmetric] comp_def del: upt_Suc)
qed simp

lemma count_rr_expand:
  "count_list (rr_expand n us) i =
     (if n \<le> i \<and> i < n + length us then unat (up_weight (us ! (i - n))) else 0)"
  by (induction us arbitrary: n) (auto simp: nth_Cons' Suc_le_eq count_list_replicate)

lemma count_list_rotate: "count_list (rotate c xs) i = count_list xs i"
proof -
  have "count_list (rotate c xs) i = count_list (take (c mod length xs) xs @ drop (c mod length xs) xs) i"
    unfolding rotate_drop_take by (simp only: count_list_append add.commute)
  then show ?thesis by simp
qed

lemma map_nth_rotate:
  "map (\<lambda>j. xs ! ((c + j) mod length xs)) [0..<length xs] = rotate c xs"
  by (rule nth_equalityI) (simp_all add: nth_rotate)

subsection \<open>Least connections\<close>

definition leads :: "(nat \<Rightarrow> int) \<Rightarrow> (nat \<Rightarrow> bool) \<Rightarrow> nat \<Rightarrow> (int \<times> nat) option \<Rightarrow> bool" where
  "leads A Q i best \<longleftrightarrow>
     (\<forall>m j. best = Some (m, j) \<longrightarrow> m = A j \<and> j < i)
     \<and> (\<forall>l < i. Q l \<longrightarrow> (\<exists>m j. best = Some (m, j) \<and> (m < A l \<or> m = A l \<and> j \<le> l)))"

lemma leads_start: "leads A Q 0 None"
  by (simp add: leads_def)

lemma leads_skip: "leads A Q i best \<Longrightarrow> \<not> Q i \<Longrightarrow> leads A Q (Suc i) best"
  unfolding leads_def by (metis less_Suc_eq)

lemma leads_update: "leads A Q i best \<Longrightarrow> leads A Q (Suc i) (least_update best (A i) i)"
  by (cases best) (force simp: leads_def least_update_def less_Suc_eq)+

lemma leads_result:
  "leads A Q n best \<Longrightarrow> map_option snd best = Some r \<Longrightarrow> l < n \<Longrightarrow> Q l \<Longrightarrow> A r < A l \<or> A r = A l \<and> r \<le> l"
  unfolding leads_def by (cases best) force+

lemma least_loop_min:
  assumes "bal_ok b" and "i + k = length (bal_upstreams b)"
    and "\<And>l. l < length (bal_upstreams b) \<Longrightarrow> sint (up_active (bal_upstreams b ! l)) = A l"
    and "\<And>l. l < length (bal_upstreams b) \<Longrightarrow> Q l \<Longrightarrow> l \<notin> set ex \<and> admits (bal_upstreams b ! l) (clk l)"
    and "leads A Q i best" and "fst (least_loop k i ex clk best b) = Ret (Some r)"
    and "l < length (bal_upstreams b)" and "Q l"
  shows "A r < A l \<or> A r = A l \<and> r \<le> l"
  using assms
proof (induction k arbitrary: i b best)
  case 0
  then show ?case using leads_result [of A Q i best r l] by simp
next
  case (Suc k)
  have i: "i < length (bal_upstreams b)" using Suc.prems(2) by simp
  show ?case
  proof (cases "i \<in> set ex")
    case True
    with Suc.prems(4) [OF i] Suc.prems(5) have "leads A Q (Suc i) best" by (auto intro: leads_skip)
    with True Suc.IH [of b "Suc i" best] Suc.prems show ?thesis by simp
  next
    case notin: False
    have keep: "sint (up_active (bal_upstreams b' ! l)) = A l"
      "Q l \<Longrightarrow> l \<notin> set ex \<and> admits (bal_upstreams b' ! l) (clk l)"
      if "bal_frame b b'" "l < length (bal_upstreams b)" for b' l
      using Suc.prems(3,4) [OF that(2)] bal_frame_nth [OF that] probed_admits
      by (auto simp: probed_def)
    from Suc.prems(1) i show ?thesis
    proof (cases rule: probe_at_cases [where now = "clk i"])
      case (admitted b')
      let ?best = "least_update best (sint (up_active (bal_upstreams b' ! i))) i"
      have "leads A Q (Suc i) ?best"
        using Suc.prems(5) keep(1) [OF admitted(3) i] by (simp add: leads_update)
      with Suc.IH [of b' "Suc i" ?best] Suc.prems(2,6-8) admitted notin keep [OF admitted(3)]
      show ?thesis by (simp add: bal_frame_length)
    next
      case (refused b')
      have "leads A Q (Suc i) best"
        using Suc.prems(5) Suc.prems(4) [OF i] refused(2) by (auto intro: leads_skip)
      with Suc.IH [of b' "Suc i" best] Suc.prems(2,6-8) refused notin keep [OF refused(3)]
      show ?thesis by (simp add: bal_frame_length)
    qed
  qed
qed

subsection \<open>Guards and active counts\<close>

definition bal_inv :: "balancer \<times> nat list \<Rightarrow> bool" where
  "bal_inv = (\<lambda>(b, gs). bal_ok b
     \<and> (\<forall>i \<in> set gs. i < length (bal_upstreams b))
     \<and> (\<forall>i < length (bal_upstreams b). up_active (bal_upstreams b ! i) = of_nat (count_list gs i)))"

lemma bal_frame_active:
  "bal_frame b b' \<Longrightarrow> i < length (bal_upstreams b) \<Longrightarrow>
   up_active (bal_upstreams b' ! i) = up_active (bal_upstreams b ! i)"
  using bal_frame_nth [of b b' i] by (simp add: probed_def)

lemma bal_inv_frame: "bal_frame b b' \<Longrightarrow> bal_inv (b, gs) \<Longrightarrow> bal_inv (b', gs)"
  by (auto simp: bal_inv_def bal_frame_length bal_frame_active intro: bal_frame_ok)

lemma bal_inv_guard_new:
  "bal_inv (b, gs) \<Longrightarrow> i < length (bal_upstreams b) \<Longrightarrow> bal_inv (guard_new i b, i # gs)"
  by (auto simp: bal_inv_def guard_new_nth)

lemma bal_inv_guard_drop:
  assumes "bal_inv (b, gs)" and "i \<in> set gs"
  shows "bal_inv (guard_drop i b, remove1 i gs)"
proof -
  have "0 < count_list gs i"
    using assms(2) count_list_0_iff [of gs i] by auto
  then obtain n where "count_list gs i = Suc n"
    using gr0_implies_Suc by blast
  then have "(of_nat (count_list gs i) :: i64) - 1 = of_nat (count_list gs i - 1)"
    by simp
  moreover have "\<forall>j \<in> set (remove1 i gs). j < length (bal_upstreams b)"
    using assms(1) set_remove1_subset [of i gs] by (auto simp: bal_inv_def)
  ultimately show ?thesis
    using assms by (simp add: bal_inv_def guard_drop_nth count_list_remove1)
qed

lemma bal_inv_upd:
  assumes "bal_inv (b, gs)" and "i < length (bal_upstreams b)"
    and "breaker_ok (up_breaker (f (bal_upstreams b ! i)))"
    and "up_active (f (bal_upstreams b ! i)) = up_active (bal_upstreams b ! i)"
  shows "bal_inv (upd_upstream i f b, gs)"
  using assms by (auto simp: bal_inv_def bal_ok_upd upd_upstream_nth)

lemma bal_inv_on_breaker:
  assumes "bal_inv (b, gs)" and "i < length (bal_upstreams b)" and "on_breaker i m b = (r, b')"
    and "breaker_ok (snd (m (up_breaker (bal_upstreams b ! i))))"
  shows "bal_inv (b', gs)"
  using assms by (auto simp: on_breaker_def case_prod_beta intro!: bal_inv_upd)

interpretation bal: machine bal_step bal_inv
proof unfold_locales
  fix s t
  assume "bal_step s t" and inv: "bal_inv s"
  then show "bal_inv t"
  proof (induction rule: bal_step.induct)
    case (acquire ex clk b i b' gs)
    then have "bal_ok b" by (simp add: bal_inv_def)
    from pick_some [OF this acquire.hyps] acquire.prems show ?case
      by (metis bal_frame_length bal_inv_frame bal_inv_guard_new)
  next
    case (busy ex clk b b' gs)
    then have "bal_ok b" by (simp add: bal_inv_def)
    with pick_none busy show ?case by (blast intro: bal_inv_frame)
  next
    case (release i gs b)
    then show ?case by (simp add: bal_inv_guard_drop)
  next
    case (success i b r b' gs)
    then have "breaker_ok (up_breaker (bal_upstreams b ! i))"
      by (simp add: bal_inv_def bal_ok_breaker)
    then have "breaker_ok (snd (record_success (up_breaker (bal_upstreams b ! i))))"
      by (simp add: record_success_ok) (simp add: breaker_ok_def)
    with success show ?case by (blast intro: bal_inv_on_breaker)
  next
    case (failure i b now r b' gs)
    then have "breaker_ok (up_breaker (bal_upstreams b ! i))"
      by (simp add: bal_inv_def bal_ok_breaker)
    with failure record_failure_ok show ?case by (blast intro: bal_inv_on_breaker)
  next
    case (health i b gs v)
    then have "breaker_ok (up_breaker (bal_upstreams b ! i))"
      by (simp add: bal_inv_def bal_ok_breaker)
    with health show ?case by (simp add: bal_inv_upd set_healthy_def)
  qed
qed

subsection \<open>A balancer built from a route\<close>

lemma set_rr_expand: "set (rr_expand n us) = {i. n \<le> i \<and> i < n + length us \<and> up_weight (us ! (i - n)) \<noteq> 0}"
proof -
  have "i \<in> set xs \<longleftrightarrow> count_list xs i \<noteq> 0" for i :: nat and xs
    by (simp add: count_list_0_iff)
  then show ?thesis by (auto simp: count_rr_expand unat_gt_0 split: if_splits)
qed

lemma up_weight_upstream_from: "0 < up_weight (upstream_from r u)"
  by (simp add: upstream_from_def less_max_iff_disj)

lemma bal_upstreams_from_route [simp]:
  "bal_upstreams (from_route r) = map (upstream_from r) (rc_upstreams r)"
  by (simp add: from_route_def Let_def)

lemma bal_rr_order_from_route:
  assumes "rc_upstreams r \<noteq> []"
  shows "bal_rr_order (from_route r) = rr_expand 0 (bal_upstreams (from_route r))"
    and "bal_rr_order (from_route r) \<noteq> []"
proof -
  have "up_weight (upstream_from r (rc_upstreams r ! 0)) \<noteq> 0"
    using up_weight_upstream_from [of r "rc_upstreams r ! 0"] by auto
  then have "0 \<in> set (rr_expand 0 (map (upstream_from r) (rc_upstreams r)))"
    using assms by (simp add: set_rr_expand)
  then have "rr_expand 0 (map (upstream_from r) (rc_upstreams r)) \<noteq> []" by (metis empty_iff empty_set)
  then show "bal_rr_order (from_route r) = rr_expand 0 (bal_upstreams (from_route r))"
    "bal_rr_order (from_route r) \<noteq> []"
    by (simp_all add: from_route_def Let_def)
qed

lemma bal_ok_from_route: "rc_upstreams r \<noteq> [] \<Longrightarrow> bal_ok (from_route r)"
  using bal_rr_order_from_route [of r]
  by (auto simp: bal_ok_def set_rr_expand upstream_from_def)

lemma all_serving_from_route: "rc_upstreams r \<noteq> [] \<Longrightarrow> all_serving (from_route r)"
  by (auto simp: all_serving_def bal_ok_from_route serving_def upstream_from_def)

subsection \<open>What holds of any balancer\<close>

text \<open>
  Probing changes no active count, and a selected index is in range and not excluded, also when
  a breaker is poisoned.
\<close>

definition actives :: "balancer \<Rightarrow> i64 list" where
  "actives b = map up_active (bal_upstreams b)"

lemma length_actives [simp]: "length (actives b) = length (bal_upstreams b)"
  by (simp add: actives_def)

lemma actives_cursor [simp]: "actives (b\<lparr>bal_rr_cursor := n\<rparr>) = actives b"
  by (simp add: actives_def)

lemma actives_upd: "(\<And>u. up_active (f u) = up_active u) \<Longrightarrow> actives (upd_upstream i f b) = actives b"
  by (cases "i < length (bal_upstreams b)")
    (simp_all add: actives_def upd_upstream_def map_update list_update_beyond list_update_same_conv)

lemma actives_probe [simp]: "actives (snd (probe_at i now b)) = actives b"
proof -
  have "up_active (snd (eligible u now)) = up_active u" for u
    by (simp add: eligible_def case_prod_beta)
  then show ?thesis
    by (auto simp: probe_at_def actives_def upd_upstream_def map_update case_prod_beta list_update_same_conv)
qed

lemma actives_probe_eq: "probe_at i now b = (r, b') \<Longrightarrow> actives b' = actives b"
  by (metis actives_probe snd_conv)

lemma actives_loops:
  "actives (snd (rr_loop k ex clk b)) = actives b"
  "actives (snd (find_loop k i ex clk b)) = actives b"
  "actives (snd (least_loop k i ex clk best b)) = actives b"
proof -
  show "actives (snd (rr_loop k ex clk b)) = actives b"
    by (induction k arbitrary: b)
      (auto simp: Let_def split: prod.splits res.splits dest!: actives_probe_eq)
  show "actives (snd (find_loop k i ex clk b)) = actives b"
    by (induction k arbitrary: i b)
      (auto split: prod.splits res.splits dest!: actives_probe_eq)
  show "actives (snd (least_loop k i ex clk best b)) = actives b"
    by (induction k arbitrary: i best b)
      (auto split: prod.splits res.splits dest!: actives_probe_eq)
qed

definition best_allowed :: "nat list \<Rightarrow> (int \<times> nat) option \<Rightarrow> bool" where
  "best_allowed ex best \<longleftrightarrow> (\<forall>m j. best = Some (m, j) \<longrightarrow> j \<notin> set ex)"

lemma best_allowed_update: "best_allowed ex best \<Longrightarrow> i \<notin> set ex \<Longrightarrow> best_allowed ex (least_update best key i)"
  by (auto simp: best_allowed_def least_update_def split: option.splits)

lemma loops_not_excluded:
  "fst (rr_loop k ex clk b) = Ret (Some j) \<Longrightarrow> j \<notin> set ex"
  "fst (find_loop k i ex clk b) = Ret (Some j) \<Longrightarrow> j \<notin> set ex"
  "best_allowed ex best \<Longrightarrow> fst (least_loop k i ex clk best b) = Ret (Some j) \<Longrightarrow> j \<notin> set ex"
proof -
  show "fst (rr_loop k ex clk b) = Ret (Some j) \<Longrightarrow> j \<notin> set ex"
    by (induction k arbitrary: b) (auto simp: Let_def split: prod.splits res.splits if_splits)
  show "fst (find_loop k i ex clk b) = Ret (Some j) \<Longrightarrow> j \<notin> set ex"
    by (induction k arbitrary: i b) (auto split: prod.splits res.splits if_splits)
  show "best_allowed ex best \<Longrightarrow> fst (least_loop k i ex clk best b) = Ret (Some j) \<Longrightarrow> j \<notin> set ex"
  proof (induction k arbitrary: i best b)
    case 0
    then show ?case by (auto simp: best_allowed_def)
  next
    case (Suc k)
    then show ?case
      by (auto split: prod.splits res.splits if_splits intro: best_allowed_update)
  qed
qed

lemma actives_routines:
  "actives (snd (first_eligible ex clk b)) = actives b"
  "actives (snd (pick_round_robin ex clk b)) = actives b"
  "actives (snd (pick_least_conn ex clk b)) = actives b"
proof -
  show fe: "actives (snd (first_eligible ex clk b)) = actives b" for clk b
    by (simp add: first_eligible_def actives_loops)
  show "actives (snd (pick_round_robin ex clk b)) = actives b"
    using actives_loops(1) [of "length (bal_rr_order b)" ex clk b]
    by (auto simp: pick_round_robin_def Let_def fe split: prod.splits res.splits option.splits)
  show "actives (snd (pick_least_conn ex clk b)) = actives b"
    by (simp add: pick_least_conn_def actives_loops)
qed

lemma routines_not_excluded:
  "fst (pick_round_robin ex clk b) = Ret (Some j) \<Longrightarrow> j \<notin> set ex"
  "fst (pick_least_conn ex clk b) = Ret (Some j) \<Longrightarrow> j \<notin> set ex"
proof -
  show "fst (pick_round_robin ex clk b) = Ret (Some j) \<Longrightarrow> j \<notin> set ex"
    using loops_not_excluded(1) [of "length (bal_rr_order b)" ex clk b j]
    by (auto simp: pick_round_robin_def first_eligible_def Let_def
        dest: loops_not_excluded(2) split: prod.splits res.splits option.splits)
  show "fst (pick_least_conn ex clk b) = Ret (Some j) \<Longrightarrow> j \<notin> set ex"
    by (auto simp: pick_least_conn_def best_allowed_def dest!: loops_not_excluded(3) [rotated])
qed

lemma actives_guards:
  "actives (guard_new i b) = (actives b)[i := actives b ! i + 1]"
  "actives (guard_drop i b) = (actives b)[i := actives b ! i - 1]"
  by (cases "i < length (bal_upstreams b)";
      simp add: guard_new_def guard_drop_def upd_upstream_def actives_def map_update list_update_beyond)+

lemma pick_any:
  assumes "pick ex clk b = (r, b')"
  shows "(\<exists>i. r = Ret (Some i) \<and> i \<notin> set ex \<and> i < length (bal_upstreams b)
            \<and> actives b' = (actives b)[i := actives b ! i + 1])
       \<or> (r = Ret None \<or> r = Panic) \<and> actives b' = actives b"
proof -
  obtain s where s: "pick ex clk b = take_guard s" "actives (snd s) = actives b"
    "\<And>j. fst s = Ret (Some j) \<Longrightarrow> j \<notin> set ex"
    by (cases "bal_strategy b")
      (auto simp: pick_def actives_routines intro: that dest: routines_not_excluded)
  moreover have "length (bal_upstreams (snd s)) = length (bal_upstreams b)"
    using s(2) by (metis length_actives)
  ultimately show ?thesis using assms
    by (auto simp: take_guard_def actives_guards split: prod.splits res.splits option.splits if_splits)
qed

lemma actives_on_breaker [simp]: "actives (snd (on_breaker i m b)) = actives b"
  by (simp add: on_breaker_def case_prod_beta actives_upd)

section \<open>Properties\<close>

text \<open>C24. A pick is sound: on a well-formed balancer, whatever the strategy, the exclusion list and
  the clock readings, the picked index is in range and not excluded, the upstream is marked
  healthy and its breaker is not open after the pick, its active count is one higher and
  nothing but breaker admission changed on any other upstream.\<close>

theorem pick_sound:
  assumes "bal_ok b" and "pick ex clk b = (Ret (Some i), b')"
  shows "i < length (bal_upstreams b) \<and> i \<notin> set ex \<and> serving (bal_upstreams b' ! i)
     \<and> up_active (bal_upstreams b' ! i) = up_active (bal_upstreams b ! i) + 1
     \<and> (\<forall>j < length (bal_upstreams b). j \<noteq> i \<longrightarrow> probed (bal_upstreams b ! j) (bal_upstreams b' ! j))
     \<and> bal_ok b'"
proof -
  obtain b1 where b1: "bal_frame b b1" "b' = guard_new i b1" "i < length (bal_upstreams b)"
    "i \<notin> set ex" "serving (bal_upstreams b1 ! i)"
    by (rule pick_some [OF assms])
  with pick_ok [OF assms] bal_frame_nth [OF b1(1)] bal_frame_active [OF b1(1)] show ?thesis
    by (simp add: guard_new_nth bal_frame_length serving_def)
qed

definition sample_balancer :: "strategy \<Rightarrow> balancer" where
  "sample_balancer s = from_route ((route_with_defaults ''r''
     [\<lparr>uc_url = ''http://a'', uc_weight = 3\<rparr>, \<lparr>uc_url = ''http://b'', uc_weight = 1\<rparr>])\<lparr>rc_strategy := s\<rparr>)"

lemma sample_balancer_ok: "bal_ok (sample_balancer s)" "all_serving (sample_balancer s)"
  by (simp_all add: sample_balancer_def bal_ok_from_route all_serving_from_route route_with_defaults_def)

lemma sample_balancer_length [simp]:
  "length (bal_upstreams (sample_balancer s)) = 2" "bal_upstreams (sample_balancer s) \<noteq> []"
  by (simp_all add: sample_balancer_def route_with_defaults_def)

lemma sample_balancer_simps [simp]:
  "bal_rr_cursor (sample_balancer s) = 0" "bal_strategy (sample_balancer s) = s"
  "up_weight (bal_upstreams (sample_balancer s) ! 0) = 3"
  by (simp_all add: sample_balancer_def from_route_def route_with_defaults_def upstream_from_def
      max_def word_le_nat_alt Let_def)

lemma sample_balancer_rr_order:
  "bal_rr_order (sample_balancer s) = rr_expand 0 (bal_upstreams (sample_balancer s))"
  "bal_rr_order (sample_balancer s) = [0, 0, 0, 1]"
proof -
  show "bal_rr_order (sample_balancer s) = rr_expand 0 (bal_upstreams (sample_balancer s))"
    unfolding sample_balancer_def by (rule bal_rr_order_from_route) (simp add: route_with_defaults_def)
  then show "bal_rr_order (sample_balancer s) = [0, 0, 0, 1]"
    by (simp add: sample_balancer_def route_with_defaults_def upstream_from_def max_def word_le_nat_alt)
      (simp add: numeral_eq_Suc)
qed

theorem pick_sound_witness:
  "\<exists>i b'. pick [0] (\<lambda>_. 7) (sample_balancer LeastConnections) = (Ret (Some i), b') \<and> i = 1
     \<and> serving (bal_upstreams b' ! i)"
proof -
  have f: "fst (pick [0] (\<lambda>_. 7) (sample_balancer LeastConnections)) = Ret (Some 1)"
    by (simp add: sample_balancer_def from_route_def route_with_defaults_def pick_def pick_least_conn_def
        probe_at_def eligible_def upstream_from_def allow_at_not_open take_guard_def least_update_def
        upd_upstream_def Let_def numeral_2_eq_2)
  then obtain b' where p: "pick [0] (\<lambda>_. 7) (sample_balancer LeastConnections) = (Ret (Some 1), b')"
    by (metis prod.collapse)
  from pick_sound [OF sample_balancer_ok(1) p] p show ?thesis by blast
qed

text \<open>C25. A pick never panics on a well-formed balancer, and it finds an upstream whenever there is
  one: when it gives none, then every upstream that is not excluded was refused at some clock
  reading of the call, because it was marked unhealthy or its breaker was cooling down.\<close>

theorem pick_complete:
  assumes "bal_ok b"
  shows "(\<exists>i. fst (pick ex clk b) = Ret (Some i))
     \<or> fst (pick ex clk b) = Ret None
        \<and> (\<forall>i < length (bal_upstreams b). i \<notin> set ex \<longrightarrow> (\<exists>k. \<not> admits (bal_upstreams b ! i) (clk k)))"
  using pick_total [OF assms, of ex clk] pick_none [OF assms, of ex clk]
  by (metis not_Some_eq prod.collapse)

theorem pick_complete_witness:
  "\<exists>i. fst (pick [] (\<lambda>_. 0) (sample_balancer RoundRobin)) = Ret (Some i)"
proof -
  have "admits (bal_upstreams (sample_balancer RoundRobin) ! 0) t" for t
    by (simp add: sample_balancer_def route_with_defaults_def admits_def blocked_def upstream_from_def)
  moreover have "0 < length (bal_upstreams (sample_balancer RoundRobin))"
    by (simp add: sample_balancer_def route_with_defaults_def)
  ultimately show ?thesis
    using pick_complete [OF sample_balancer_ok(1), of "[]" "\<lambda>_. 0" RoundRobin] by (metis empty_iff empty_set)
qed

text \<open>C26. Weighted round robin is fair: as long as all upstreams serve (and the cursor does not
  wrap around within the round), one round of picks selects every upstream exactly as many
  times as its weight, from whatever position the cursor starts.\<close>

theorem round_robin_weighted_fair:
  assumes "all_serving b" and "bal_strategy b = RoundRobin"
    and "bal_rr_order b = rr_expand 0 (bal_upstreams b)"
    and "unat (bal_rr_cursor b) + length (bal_rr_order b) < 2 ^ 64"
    and "i < length (bal_upstreams b)"
  shows "count_list (pick_many (length (bal_rr_order b)) clk b) i = unat (up_weight (bal_upstreams b ! i))"
proof -
  have "pick_many (length (bal_rr_order b)) clk b = rotate (unat (bal_rr_cursor b)) (bal_rr_order b)"
    by (simp add: pick_many_round_robin [OF assms(1,2,4)] map_nth_rotate)
  then show ?thesis
    using assms(5) by (simp add: count_list_rotate) (simp add: assms(3) count_rr_expand)
qed

theorem round_robin_weighted_fair_witness:
  "count_list (pick_many 4 (\<lambda>_. 0) (sample_balancer RoundRobin)) 0 = 3"
proof -
  have "length (bal_rr_order (sample_balancer RoundRobin)) = 4"
    by (simp add: sample_balancer_rr_order(2))
  with round_robin_weighted_fair [OF sample_balancer_ok(2) _ sample_balancer_rr_order(1), of RoundRobin 0 "\<lambda>_. 0"]
  show ?thesis by simp
qed

text \<open>C27. Least connections picks a least loaded upstream: among the upstreams that are not excluded
  and were admitted at their probe, the one picked has the smallest active count, and it is the
  first of those with that count.\<close>

theorem least_conn_minimal:
  assumes "bal_ok b" and "fst (pick_least_conn ex clk b) = Ret (Some i)"
    and "j < length (bal_upstreams b)" and "j \<notin> set ex" and "admits (bal_upstreams b ! j) (clk j)"
  shows "sint (up_active (bal_upstreams b ! i)) < sint (up_active (bal_upstreams b ! j))
     \<or> sint (up_active (bal_upstreams b ! i)) = sint (up_active (bal_upstreams b ! j)) \<and> i \<le> j"
  by (rule least_loop_min [where Q = "\<lambda>l. l \<notin> set ex \<and> admits (bal_upstreams b ! l) (clk l)"
        and A = "\<lambda>l. sint (up_active (bal_upstreams b ! l))" and i = 0
        and k = "length (bal_upstreams b)" and best = None and b = b and ex = ex and clk = clk])
    (use assms in \<open>simp_all add: leads_start pick_least_conn_def\<close>)

theorem least_conn_minimal_witness:
  "let b = guard_new 0 (sample_balancer LeastConnections) in
   fst (pick_least_conn [] (\<lambda>_. 7) b) = Ret (Some 1)
   \<and> (sint (up_active (bal_upstreams b ! 1)) < sint (up_active (bal_upstreams b ! 0))
      \<or> sint (up_active (bal_upstreams b ! 1)) = sint (up_active (bal_upstreams b ! 0)) \<and> (1::nat) \<le> 0)"
proof -
  let ?b = "guard_new 0 (sample_balancer LeastConnections)"
  have ok: "bal_ok ?b" and len: "length (bal_upstreams ?b) = 2"
    by (simp_all add: sample_balancer_ok sample_balancer_length)
  have p: "fst (pick_least_conn [] (\<lambda>_. 7) ?b) = Ret (Some 1)"
    by (simp add: sample_balancer_def from_route_def route_with_defaults_def pick_least_conn_def
        probe_at_def eligible_def upstream_from_def allow_at_not_open least_update_def
        upd_upstream_def guard_new_def Let_def numeral_2_eq_2)
  have "admits (bal_upstreams ?b ! 0) 7"
    by (simp add: guard_new_nth sample_balancer_def route_with_defaults_def admits_def blocked_def upstream_from_def)
  with least_conn_minimal [OF ok p, of 0] p len show ?thesis by (simp add: Let_def)
qed

text \<open>The active counts are exact under every interleaving of picks, guard drops, breaker
  reports and health checks: in every state reachable from a balancer built from a route with
  upstreams, the active count of an upstream is the number of live guards on it (as a 64-bit
  integer), and the balancer is still well formed.\<close>

theorem active_counts_live_guards:
  assumes "rc_upstreams r \<noteq> []" and "bal_step\<^sup>*\<^sup>* (from_route r, []) (b, gs)"
  shows "bal_ok b \<and> (\<forall>i < length (bal_upstreams b). up_active (bal_upstreams b ! i) = of_nat (count_list gs i))"
proof -
  have "bal_inv (from_route r, [])"
    using assms(1) by (auto simp: bal_inv_def bal_ok_from_route upstream_from_def)
  with bal.reach_inv [OF assms(2)] show ?thesis by (simp add: bal_inv_def)
qed

theorem active_counts_live_guards_witness:
  "up_active (bal_upstreams ((guard_new 0 (sample_balancer RoundRobin))\<lparr>bal_rr_cursor := 1\<rparr>) ! 0) = 1"
proof -
  let ?b = "(guard_new 0 (sample_balancer RoundRobin))\<lparr>bal_rr_cursor := 1\<rparr>"
  let ?r = "(route_with_defaults ''r'' [\<lparr>uc_url = ''http://a'', uc_weight = 3\<rparr>,
      \<lparr>uc_url = ''http://b'', uc_weight = 1\<rparr>])\<lparr>rc_strategy := RoundRobin\<rparr>"
  have eq: "sample_balancer RoundRobin = from_route ?r" by (simp add: sample_balancer_def)
  have "pick [] (\<lambda>_. 0) (sample_balancer RoundRobin) = (Ret (Some 0), ?b)"
    by (simp add: pick_def pick_round_robin_serving sample_balancer_ok take_guard_def
        sample_balancer_rr_order(2) guard_new_def upd_upstream_def)
  then have "bal_step\<^sup>*\<^sup>* (from_route ?r, []) (?b, [0])"
    unfolding eq [symmetric] by (blast intro: r_into_rtranclp bal_step.acquire)
  moreover have "rc_upstreams ?r \<noteq> []" by (simp add: route_with_defaults_def)
  ultimately show ?thesis
    using active_counts_live_guards [of ?r ?b "[0]"] by simp
qed

end
