(* ===== verification/Response_Cache.thy ===== *)
theory Response_Cache
  imports Gateway_Prelude "HOL-Library.AList"
begin

text \<open>
  The TTL response cache of a route, \<^verbatim>\<open>crates/gateway/src/cache.rs\<close>. The
  \<^verbatim>\<open>HashMap\<close> is an association list with distinct keys. The order in which a
  \<^verbatim>\<open>HashMap\<close> iterates is not specified: it is the argument \<open>ord\<close>, a function that lists
  the entries of the map in some order; the locale \<open>map_order\<close> says that it lists exactly
  those. The instants read by a call are arguments.
\<close>

section \<open>State and operations\<close>

record cached_response =
  cr_status :: u16
  cr_headers :: "(string \<times> string) list"
  cr_body :: string
  cr_expires_at :: instant

type_synonym cache_map = "(string \<times> cached_response) list"

record response_cache =
  ca_ttl :: duration
  ca_capacity :: usize
  ca_map :: "cache_map mutex"

definition cache_new :: "duration \<Rightarrow> usize \<Rightarrow> response_cache" where
  "cache_new ttl capacity = \<lparr>ca_ttl = ttl, ca_capacity = max capacity 1, ca_map = mutex_new []\<rparr>"

definition cache_key :: "string \<Rightarrow> string \<Rightarrow> string \<Rightarrow> string" where
  "cache_key meth host path_and_query = meth @ '' '' @ host @ '' '' @ path_and_query"

definition cache_get_body :: "instant \<Rightarrow> string \<Rightarrow> cache_map \<Rightarrow> cached_response option res \<times> cache_map" where
  "cache_get_body now key m =
     (case map_of m key of
        Some entry \<Rightarrow>
          if now < cr_expires_at entry then (Ret (Some entry), m)
          else (Ret None, AList.delete key m)
      | None \<Rightarrow> (Ret None, m))"

definition cache_get :: "response_cache \<Rightarrow> string \<Rightarrow> instant \<Rightarrow> cached_response option res \<times> response_cache" where
  "cache_get c key now =
     (let (r, m) = with_lock (ca_map c) (cache_get_body now key) in (r, c\<lparr>ca_map := m\<rparr>))"

definition cache_victim :: "(cache_map \<Rightarrow> cache_map) \<Rightarrow> instant \<Rightarrow> cache_map \<Rightarrow> string option" where
  "cache_victim ord now m =
     (case find (\<lambda>(_, v). cr_expires_at v \<le> now) (ord m) of
        Some (k, _) \<Rightarrow> Some k
      | None \<Rightarrow> (case ord m of [] \<Rightarrow> None | (k, _) # _ \<Rightarrow> Some k))"

definition cache_evict ::
  "(cache_map \<Rightarrow> cache_map) \<Rightarrow> usize \<Rightarrow> instant \<Rightarrow> string \<Rightarrow> cache_map \<Rightarrow> cache_map" where
  "cache_evict ord capacity now key m =
     (if unat capacity \<le> length m \<and> key \<notin> fst ` set m
      then (case cache_victim ord now m of Some v \<Rightarrow> AList.delete v m | None \<Rightarrow> m)
      else m)"

definition cache_put_body ::
  "(cache_map \<Rightarrow> cache_map) \<Rightarrow> duration \<Rightarrow> usize \<Rightarrow> string \<Rightarrow> u16 \<Rightarrow> (string \<times> string) list \<Rightarrow> string
   \<Rightarrow> instant \<Rightarrow> instant \<Rightarrow> cache_map \<Rightarrow> unit res \<times> cache_map" where
  "cache_put_body ord ttl capacity key status headers body now_evict now_put m =
     (let m = cache_evict ord capacity now_evict key m in
      case instant_add now_put ttl of
        None \<Rightarrow> (Panic, m)
      | Some t \<Rightarrow> (Ret (), AList.update key
          \<lparr>cr_status = status, cr_headers = headers, cr_body = body, cr_expires_at = t\<rparr> m))"

definition cache_put ::
  "(cache_map \<Rightarrow> cache_map) \<Rightarrow> response_cache \<Rightarrow> string \<Rightarrow> u16 \<Rightarrow> (string \<times> string) list \<Rightarrow> string
   \<Rightarrow> instant \<Rightarrow> instant \<Rightarrow> unit res \<times> response_cache" where
  "cache_put ord c key status headers body now_evict now_put =
     (let (r, m) = with_lock (ca_map c)
            (cache_put_body ord (ca_ttl c) (ca_capacity c) key status headers body now_evict now_put)
      in (r, c\<lparr>ca_map := m\<rparr>))"

section \<open>Invariant and view\<close>

definition cache_inv :: "response_cache \<Rightarrow> bool" where
  "cache_inv c \<longleftrightarrow>
     distinct (map fst (guarded (ca_map c)))
     \<and> length (guarded (ca_map c)) \<le> unat (ca_capacity c) \<and> 0 < ca_capacity c"

definition cache_ok :: "response_cache \<Rightarrow> bool" where
  "cache_ok c \<longleftrightarrow> cache_inv c \<and> \<not> poisoned (ca_map c)"

definition cache_view :: "response_cache \<Rightarrow> string \<Rightarrow> cached_response option" where
  "cache_view c key = map_of (guarded (ca_map c)) key"

definition live :: "instant \<Rightarrow> cached_response option \<Rightarrow> cached_response option" where
  "live now e = (case e of Some r \<Rightarrow> if now < cr_expires_at r then Some r else None | None \<Rightarrow> None)"

section \<open>What a TTL store promises\<close>

text \<open>
  The contract the request handler relies on: a lookup gives the live entry of the view and
  hides no live entry; a store that fits the clock makes its entry the one found, and gives
  every other key its old entry or (an eviction) none; and both keep the store usable.
\<close>

locale ttl_store =
  fixes usable :: "'c \<Rightarrow> bool"
    and view :: "'c \<Rightarrow> string \<Rightarrow> cached_response option"
    and lookup :: "'c \<Rightarrow> string \<Rightarrow> instant \<Rightarrow> cached_response option res \<times> 'c"
    and store :: "'c \<Rightarrow> string \<Rightarrow> u16 \<Rightarrow> (string \<times> string) list \<Rightarrow> string \<Rightarrow> instant \<Rightarrow> instant
                  \<Rightarrow> unit res \<times> 'c"
    and ttl_of :: "'c \<Rightarrow> duration"
  assumes lookup_value: "usable c \<Longrightarrow> fst (lookup c k now) = Ret (live now (view c k))"
    and lookup_view: "usable c \<Longrightarrow> view (snd (lookup c k now)) k'
          = (if k' = k \<and> live now (view c k) = None then None else view c k')"
    and lookup_usable: "usable c \<Longrightarrow> usable (snd (lookup c k now))"
    and store_value: "usable c \<Longrightarrow> now + ttl_of c < instant_limit \<Longrightarrow>
          fst (store c k s h b t now) = Ret ()"
    and store_view_same: "usable c \<Longrightarrow> now + ttl_of c < instant_limit \<Longrightarrow>
          view (snd (store c k s h b t now)) k
            = Some \<lparr>cr_status = s, cr_headers = h, cr_body = b, cr_expires_at = now + ttl_of c\<rparr>"
    and store_view_other: "usable c \<Longrightarrow> now + ttl_of c < instant_limit \<Longrightarrow> k' \<noteq> k \<Longrightarrow>
          view (snd (store c k s h b t now)) k' \<in> {None, view c k'}"
    and store_usable: "usable c \<Longrightarrow> now + ttl_of c < instant_limit \<Longrightarrow>
          usable (snd (store c k s h b t now))"
begin

lemma lookup_after_store:
  assumes "usable c" and "now + ttl_of c < instant_limit"
  shows "fst (lookup (snd (store c k s h b t now)) k t') =
     Ret (if t' < now + ttl_of c
          then Some \<lparr>cr_status = s, cr_headers = h, cr_body = b, cr_expires_at = now + ttl_of c\<rparr>
          else None)"
  using assms by (simp add: lookup_value store_usable store_view_same live_def)

lemma lookup_other_after_store:
  assumes "usable c" and "now + ttl_of c < instant_limit" and "k' \<noteq> k"
    and "fst (lookup (snd (store c k s h b t now)) k' t') = Ret (Some e)"
  shows "fst (lookup c k' t') = Ret (Some e)"
proof -
  have "live t' (view (snd (store c k s h b t now)) k') = Some e"
    using assms by (simp add: lookup_value store_usable)
  moreover from this have "view (snd (store c k s h b t now)) k' = view c k'"
    using store_view_other [OF assms(1-3), of s h b t] by (auto simp: live_def)
  ultimately show ?thesis using assms(1) by (simp add: lookup_value)
qed

lemma lookup_lookup:
  assumes "usable c" and "now \<le> t'"
  shows "fst (lookup (snd (lookup c k now)) k' t') = fst (lookup c k' t')"
  using assms by (auto simp: lookup_value lookup_usable lookup_view live_def split: option.splits if_splits)

end

section \<open>Lemmas\<close>

lemma length_alist_delete:
  "distinct (map fst m) \<Longrightarrow> k \<in> fst ` set m \<Longrightarrow> Suc (length (AList.delete k m)) = length m"
  by (induction m) (auto simp: delete_id dest: sym)

lemma find_Some_mem: "find P xs = Some x \<Longrightarrow> x \<in> set xs \<and> P x"
  by (induction xs) (auto split: if_splits)

lemma length_alist_update:
  "length (AList.update k v m) = (if k \<in> fst ` set m then length m else Suc (length m))"
  by (induction m) auto

lemma length_alist_delete_le: "length (AList.delete k m) \<le> length m"
  by (simp add: AList.delete_eq)

locale map_order =
  fixes ord :: "cache_map \<Rightarrow> cache_map"
  assumes ord_set: "set (ord m) = set m"
begin

lemma victim_in: "m \<noteq> [] \<Longrightarrow> \<exists>k. cache_victim ord now m = Some k \<and> k \<in> fst ` set m"
proof -
  assume "m \<noteq> []"
  then have ne: "ord m \<noteq> []" using ord_set [of m] by (metis set_empty)
  show ?thesis
  proof (cases "find (\<lambda>(_, v). cr_expires_at v \<le> now) (ord m)")
    case None
    obtain k v rest where m: "ord m = (k, v) # rest" using ne by (cases "ord m") auto
    then have "(k, v) \<in> set m" using ord_set [of m] by auto
    then have "k \<in> fst ` set m" by (rule rev_image_eqI) simp
    with None m show ?thesis by (simp add: cache_victim_def)
  next
    case (Some kv)
    then have "kv \<in> set m" using ord_set [of m] by (blast dest: find_Some_mem)
    then have "fst kv \<in> fst ` set m" by (rule imageI)
    with Some show ?thesis by (simp add: cache_victim_def case_prod_beta)
  qed
qed

text \<open>An entry that is still live is evicted only when no entry has expired.\<close>

lemma victim_expired_first:
  assumes "cache_victim ord now m = Some k" and "(k', v') \<in> set m" and "cr_expires_at v' \<le> now"
  shows "\<exists>v. (k, v) \<in> set m \<and> cr_expires_at v \<le> now"
proof -
  have "find (\<lambda>(_, v). cr_expires_at v \<le> now) (ord m) \<noteq> None"
    using assms(2,3) ord_set [of m] by (auto simp: find_None_iff)
  then obtain x y where f: "find (\<lambda>(_, v). cr_expires_at v \<le> now) (ord m) = Some (x, y)" by auto
  then have "(x, y) \<in> set (ord m)" "cr_expires_at y \<le> now" by (auto dest: find_Some_mem)
  moreover have "k = x" using assms(1) f by (simp add: cache_victim_def)
  ultimately show ?thesis using ord_set [of m] by auto
qed

lemma evict_distinct: "distinct (map fst m) \<Longrightarrow> distinct (map fst (cache_evict ord cap now key m))"
  by (auto simp: cache_evict_def intro: distinct_delete split: option.splits)

lemma evict_view: "map_of (cache_evict ord cap now key m) k' \<in> {None, map_of m k'}"
  by (auto simp: cache_evict_def delete_conv' split: option.splits)

lemma evict_room:
  assumes "distinct (map fst m)" and "length m \<le> unat cap" and "0 < cap"
  shows "length (AList.update key e (cache_evict ord cap now key m)) \<le> unat cap"
proof (cases "unat cap \<le> length m \<and> key \<notin> fst ` set m")
  case True
  with assms(3) have "m \<noteq> []" by (auto simp: word_less_nat_alt)
  then obtain k where k: "cache_victim ord now m = Some k" "k \<in> fst ` set m"
    using victim_in by blast
  with True have "Suc (length (cache_evict ord cap now key m)) = length m"
    using length_alist_delete [OF assms(1) k(2)] by (simp add: cache_evict_def)
  with assms(2) show ?thesis by (simp add: length_alist_update)
next
  case False
  with assms(2) show ?thesis by (auto simp: cache_evict_def length_alist_update)
qed

lemma put_ok:
  assumes "cache_ok c" and "now + ca_ttl c < instant_limit"
  shows "cache_put ord c k s h b t now = (Ret (), c\<lparr>ca_map := mutex_new (AList.update k
     \<lparr>cr_status = s, cr_headers = h, cr_body = b, cr_expires_at = now + ca_ttl c\<rparr>
     (cache_evict ord (ca_capacity c) t k (guarded (ca_map c))))\<rparr>)"
  using assms
  by (simp add: cache_ok_def cache_put_def lock_simps cache_put_body_def instant_add_def mutex_new_def)

end

lemma get_inv: "cache_inv c \<Longrightarrow> cache_inv (snd (cache_get c k now))"
  by (cases "poisoned (ca_map c)")
    (auto simp: cache_inv_def cache_get_def lock_simps cache_get_body_def distinct_delete
      intro: order_trans [OF length_alist_delete_le] split: option.splits)

lemma get_fst: "cache_ok c \<Longrightarrow> fst (cache_get c k now) = Ret (live now (cache_view c k))"
  by (auto simp: cache_ok_def cache_get_def lock_simps cache_get_body_def live_def cache_view_def
      split: option.splits)

lemma get_ok: "cache_ok c \<Longrightarrow> cache_ok (snd (cache_get c k now))"
  using get_inv [of c k now]
  by (auto simp: cache_ok_def cache_get_def lock_simps cache_get_body_def split: option.splits)

lemma get_view:
  "cache_ok c \<Longrightarrow> cache_view (snd (cache_get c k now)) k'
     = (if k' = k \<and> live now (cache_view c k) = None then None else cache_view c k')"
  by (auto simp: cache_ok_def cache_get_def lock_simps cache_get_body_def live_def cache_view_def
      delete_conv' split: option.splits)

sublocale map_order \<subseteq> ttl_store cache_ok cache_view cache_get "cache_put ord" ca_ttl
proof unfold_locales
  fix c k k' now t s h b
  assume ok: "cache_ok c"
  show "fst (cache_get c k now) = Ret (live now (cache_view c k))" by (rule get_fst [OF ok])
  show "cache_view (snd (cache_get c k now)) k'
      = (if k' = k \<and> live now (cache_view c k) = None then None else cache_view c k')"
    by (rule get_view [OF ok])
  show "cache_ok (snd (cache_get c k now))" by (rule get_ok [OF ok])
  assume fits: "now + ca_ttl c < instant_limit"
  note put = put_ok [OF ok fits, of k s h b t]
  show "fst (cache_put ord c k s h b t now) = Ret ()" by (simp add: put)
  show "cache_view (snd (cache_put ord c k s h b t now)) k
      = Some \<lparr>cr_status = s, cr_headers = h, cr_body = b, cr_expires_at = now + ca_ttl c\<rparr>"
    by (simp add: put cache_view_def update_conv')
  show "cache_ok (snd (cache_put ord c k s h b t now))"
    using ok evict_room evict_distinct
    by (simp add: put cache_ok_def cache_inv_def distinct_update)
  assume "k' \<noteq> k"
  then show "cache_view (snd (cache_put ord c k s h b t now)) k' \<in> {None, cache_view c k'}"
    using evict_view by (simp add: put cache_view_def update_conv')
qed

context map_order
begin

lemma put_then_get:
  assumes "cache_ok c" and "now + ca_ttl c < instant_limit"
  shows "fst (cache_get (snd (cache_put ord c k s h b t now)) k later) =
     Ret (if later < now + ca_ttl c
          then Some \<lparr>cr_status = s, cr_headers = h, cr_body = b, cr_expires_at = now + ca_ttl c\<rparr>
          else None)"
  using assms by (rule lookup_after_store)

lemma put_usable:
  "cache_ok c \<Longrightarrow> now + ca_ttl c < instant_limit \<Longrightarrow>
   fst (cache_put ord c k s h b t now) = Ret () \<and> cache_ok (snd (cache_put ord c k s h b t now))"
  using store_value store_usable by blast

lemma get_other_after_put:
  assumes "cache_ok c" and "now + ca_ttl c < instant_limit" and "k' \<noteq> k"
  shows "fst (cache_get (snd (cache_put ord c k s h b t now)) k' later)
     = Ret (live later (map_of (cache_evict ord (ca_capacity c) t k (guarded (ca_map c))) k'))"
  using assms store_usable [OF assms(1,2), of k s h b t]
  by (simp add: lookup_value) (simp add: put_ok cache_view_def update_conv')

lemma evict_loses:
  assumes "cache_inv c" and "cache_view c k' = Some e" and "t < cr_expires_at e"
    and "map_of (cache_evict ord (ca_capacity c) t k (guarded (ca_map c))) k' \<noteq> Some e"
  shows "length (guarded (ca_map c)) = unat (ca_capacity c) \<and> cache_view c k = None
     \<and> (\<forall>k v. cache_view c k = Some v \<longrightarrow> t < cr_expires_at v)"
proof -
  let ?m = "guarded (ca_map c)"
  have full: "unat (ca_capacity c) \<le> length ?m" "k \<notin> fst ` set ?m"
    and vic: "cache_victim ord t ?m = Some k'"
    using assms(2,4)
    by (auto simp: cache_evict_def cache_view_def delete_conv' split: if_splits option.splits)
  have "t < cr_expires_at v" if "cache_view c x = Some v" for x v
  proof (rule ccontr)
    assume "\<not> t < cr_expires_at v"
    with that obtain v' where "(k', v') \<in> set ?m" "cr_expires_at v' \<le> t"
      using victim_expired_first [OF vic, of x v] by (auto simp: cache_view_def dest: map_of_SomeD)
    with assms(1-3) show False by (auto simp: cache_inv_def cache_view_def)
  qed
  with full assms(1) show ?thesis
    by (auto simp: cache_inv_def cache_view_def map_of_eq_None_iff)
qed

end

interpretation insertion_order: map_order "\<lambda>m. m"
  by unfold_locales simp

section \<open>Histories\<close>

text \<open>
  The calls made on one cache, in the order in which they take its lock. The iteration order
  of the \<^verbatim>\<open>HashMap\<close> may differ from call to call.
\<close>

datatype cache_event =
    GetAt string instant
  | PutAt "cache_map \<Rightarrow> cache_map" string u16 "(string \<times> string) list" string instant instant

fun cache_apply :: "response_cache \<Rightarrow> cache_event \<Rightarrow> response_cache" where
  "cache_apply c (GetAt k now) = snd (cache_get c k now)"
| "cache_apply c (PutAt ord k s h b t now) = snd (cache_put ord c k s h b t now)"

definition cache_run :: "response_cache \<Rightarrow> cache_event list \<Rightarrow> response_cache" where
  "cache_run c es = foldl cache_apply c es"

inductive cache_step :: "response_cache \<Rightarrow> response_cache \<Rightarrow> bool" where
  get: "cache_step c (snd (cache_get c k now))"
| put: "map_order ord \<Longrightarrow> cache_step c (snd (cache_put ord c k s h b t now))"

inductive_cases cache_stepE: "cache_step c c'"

text \<open>The last response stored under a key, with the instant of the store.\<close>

fun last_put :: "string \<Rightarrow> cache_event list \<Rightarrow> (u16 \<times> (string \<times> string) list \<times> string \<times> instant) option" where
  "last_put k [] = None"
| "last_put k (GetAt _ _ # es) = last_put k es"
| "last_put k (PutAt _ k' s h b _ now # es) =
     (case last_put k es of Some p \<Rightarrow> Some p | None \<Rightarrow> if k' = k then Some (s, h, b, now) else None)"

definition entry_of :: "duration \<Rightarrow> u16 \<times> (string \<times> string) list \<times> string \<times> instant \<Rightarrow> cached_response" where
  "entry_of ttl p = (case p of (s, h, b, now) \<Rightarrow>
     \<lparr>cr_status = s, cr_headers = h, cr_body = b, cr_expires_at = now + ttl\<rparr>)"

lemma cache_get_fields [simp]:
  "ca_ttl (snd (cache_get c k now)) = ca_ttl c" "ca_capacity (snd (cache_get c k now)) = ca_capacity c"
  by (simp_all add: cache_get_def case_prod_beta)

lemma cache_put_fields [simp]:
  "ca_ttl (snd (cache_put ord c k s h b t now)) = ca_ttl c"
  "ca_capacity (snd (cache_put ord c k s h b t now)) = ca_capacity c"
  by (simp_all add: cache_put_def case_prod_beta)

lemma last_put_snoc:
  "last_put k (es @ [GetAt k' now]) = last_put k es"
  "last_put k (es @ [PutAt ord k' s h b t now]) = (if k' = k then Some (s, h, b, now) else last_put k es)"
  by (induction es rule: last_put.induct [of _ k]) (auto split: option.splits)

lemma put_inv:
  assumes "map_order ord" and "cache_inv c"
  shows "cache_inv (snd (cache_put ord c k s h b t now))"
proof (cases "poisoned (ca_map c)")
  case True
  with assms(2) show ?thesis by (simp add: cache_put_def lock_simps)
next
  case False
  let ?m = "cache_evict ord (ca_capacity c) t k (guarded (ca_map c))"
  have le: "length (AList.update k e ?m) \<le> unat (ca_capacity c)" for e
    using assms by (auto simp: cache_inv_def intro: map_order.evict_room)
  then have "length ?m \<le> unat (ca_capacity c)"
    by (metis Suc_leD length_alist_update)
  with assms le False show ?thesis
    by (auto simp: cache_inv_def cache_put_def lock_simps cache_put_body_def distinct_update
        map_order.evict_distinct Let_def split: option.splits)
qed

interpretation cache: machine cache_step "\<lambda>c. cache_inv c \<and> ca_capacity c = max cap 1" for cap
  by unfold_locales (auto elim!: cache_stepE intro: get_inv put_inv)

lemma cache_new_inv: "cache_inv (cache_new ttl cap) \<and> ca_capacity (cache_new ttl cap) = max cap 1"
  by (auto simp: cache_inv_def cache_new_def max_def word_le_nat_alt word_less_nat_alt unat_gt_0)

lemma map_of_evict: "map_of (cache_evict ord cap now key m) k \<in> {None, map_of m k}"
  by (auto simp: cache_evict_def delete_conv' split: option.splits)

lemma cache_run_view:
  assumes "\<not> poisoned (ca_map (cache_run (cache_new ttl cap) es))"
    and "cache_view (cache_run (cache_new ttl cap) es) k = Some e"
  shows "\<exists>p. last_put k es = Some p \<and> e = entry_of ttl p"
  using assms
proof (induction es arbitrary: k e rule: rev_induct)
  case Nil
  then show ?case by (simp add: cache_run_def cache_view_def cache_new_def)
next
  case (snoc ev es)
  let ?c = "cache_run (cache_new ttl cap) es"
  have ttl: "ca_ttl ?c = ttl"
  proof (induction es rule: rev_induct)
    case (snoc a as)
    then show ?case by (cases a) (simp_all add: cache_run_def)
  qed (simp add: cache_run_def cache_new_def)
  have run: "cache_run (cache_new ttl cap) (es @ [ev]) = cache_apply ?c ev"
    by (simp add: cache_run_def)
  show ?case
  proof (cases ev)
    case (GetAt k' now)
    with snoc.prems run have "\<not> poisoned (ca_map ?c)" "cache_view ?c k = Some e"
      by (auto simp: cache_get_def with_lock_def cache_get_body_def cache_view_def delete_conv'
          split: if_splits option.splits)
    with snoc.IH GetAt show ?thesis by (simp add: last_put_snoc)
  next
    case (PutAt ord k' s h b t now)
    with snoc.prems run have np: "\<not> poisoned (ca_map ?c)"
      and v: "k \<noteq> k' \<Longrightarrow> cache_view ?c k = Some e"
      and v': "k = k' \<Longrightarrow> e = entry_of ttl (s, h, b, now)"
      using map_of_evict [of ord "ca_capacity ?c" t k' "guarded (ca_map ?c)" k]
      by (auto simp: cache_put_def with_lock_def cache_put_body_def cache_view_def update_conv'
          instant_add_def entry_of_def ttl Let_def split: if_splits option.splits prod.splits)
    with snoc.IH [OF np] PutAt show ?thesis by (cases "k = k'") (simp_all add: last_put_snoc)
  qed
qed

section \<open>Properties\<close>

text \<open>A small cache for the examples: one entry, ten seconds to live.\<close>

definition tiny_cache :: response_cache where
  "tiny_cache = cache_new (from_secs 10) 1"

lemma tiny_cache_ok [simp]: "cache_ok tiny_cache" "ca_ttl tiny_cache = 10000000000"
  by (simp_all add: tiny_cache_def cache_ok_def cache_inv_def cache_new_def from_secs_def nanos_per_sec_def)

lemma instant_limit_num: "instant_limit = 9223372036854775808000000000"
  by (simp add: instant_limit_def nanos_per_sec_def)

lemmas cache_eval = tiny_cache_def cache_new_def cache_put_def cache_put_body_def cache_get_def
  cache_get_body_def cache_evict_def cache_victim_def lock_simps instant_add_def instant_limit_num
  from_secs_def nanos_per_sec_def cache_view_def Let_def

text \<open>C33. Whatever calls are made on a cache, in any order and also when one of them panics, it
  never holds more than \<^verbatim>\<open>max(capacity, 1)\<close> entries and never two of one key.\<close>

theorem cache_capacity_bound:
  assumes "cache_step\<^sup>*\<^sup>* (cache_new ttl capacity) c"
  shows "length (guarded (ca_map c)) \<le> max (unat capacity) 1 \<and> distinct (map fst (guarded (ca_map c)))"
  using cache.reach_inv [OF assms cache_new_inv]
  by (auto simp: cache_inv_def max_def word_le_nat_alt split: if_splits)

theorem cache_capacity_bound_witness:
  "length (guarded (ca_map (snd (cache_put (\<lambda>m. m) (cache_new 5 0) ''k'' 200 [] ''b'' 1 1)))) \<le> 1"
proof -
  have "cache_step\<^sup>*\<^sup>* (cache_new 5 0) (snd (cache_put (\<lambda>m. m) (cache_new 5 0) ''k'' 200 [] ''b'' 1 1))"
    by (intro r_into_rtranclp cache_step.put insertion_order.map_order_axioms)
  from cache_capacity_bound [OF this] show ?thesis by simp
qed

text \<open>C32. A hit is never stale and never another key's or an older response: over any sequence of
  calls, what \<^verbatim>\<open>get\<close> returns is the response of the last \<^verbatim>\<open>put\<close> under that key, and the
  time to live of that \<^verbatim>\<open>put\<close> has not passed.\<close>

theorem cache_hit_is_last_put:
  assumes "fst (cache_get (cache_run (cache_new ttl capacity) es) key now) = Ret (Some e)"
  shows "\<exists>s h b t. last_put key es = Some (s, h, b, t) \<and> now < t + ttl
           \<and> cr_status e = s \<and> cr_headers e = h \<and> cr_body e = b"
proof -
  let ?c = "cache_run (cache_new ttl capacity) es"
  have "\<not> poisoned (ca_map ?c)" "cache_view ?c key = Some e" "now < cr_expires_at e"
    using assms by (auto simp: cache_get_def with_lock_def cache_get_body_def cache_view_def
        split: if_splits option.splits)
  with cache_run_view [of ttl capacity es key e] show ?thesis
    by (auto simp: entry_of_def split: prod.splits)
qed

theorem cache_hit_is_last_put_witness:
  "\<exists>s h b t. last_put ''k'' [PutAt (\<lambda>m. m) ''k'' 200 [] ''old'' 1 1, GetAt ''k'' 2,
       PutAt (\<lambda>m. m) ''k'' 200 [] ''new'' 3 3] = Some (s, h, b, t) \<and> 4 < t + 5
     \<and> s = 200 \<and> h = [] \<and> b = ''new''"
proof -
  let ?es = "[PutAt (\<lambda>m. m) ''k'' 200 [] ''old'' 1 1, GetAt ''k'' 2, PutAt (\<lambda>m. m) ''k'' 200 [] ''new'' 3 3]"
  have "fst (cache_get (cache_run (cache_new 5 2) ?es) ''k'' 4) = Ret (Some
      \<lparr>cr_status = 200, cr_headers = [], cr_body = ''new'', cr_expires_at = 8\<rparr>)"
    by (simp add: cache_eval cache_run_def mutex_new_def)
  from cache_hit_is_last_put [OF this] show ?thesis by auto
qed

text \<open>Storing and reading back: after a \<^verbatim>\<open>put\<close>, \<^verbatim>\<open>get\<close> of the same key returns exactly
  what was stored until the time to live has passed, and nothing from then on.\<close>

theorem cache_put_get_roundtrip:
  assumes "map_order ord" and "cache_ok c" and "now + ca_ttl c < instant_limit"
  shows "fst (cache_get (snd (cache_put ord c key status headers body now_evict now)) key later) =
     Ret (if later < now + ca_ttl c
          then Some \<lparr>cr_status = status, cr_headers = headers, cr_body = body,
                     cr_expires_at = now + ca_ttl c\<rparr>
          else None)"
  by (rule map_order.put_then_get [OF assms])

theorem cache_put_get_roundtrip_witness:
  "fst (cache_get (snd (cache_put rev tiny_cache ''k'' 200 [] ''b'' 0 1)) ''k'' 10000000000) =
     Ret (Some \<lparr>cr_status = 200, cr_headers = [], cr_body = ''b'', cr_expires_at = 10000000001\<rparr>)
   \<and> fst (cache_get (snd (cache_put rev tiny_cache ''k'' 200 [] ''b'' 0 1)) ''k'' 10000000001) = Ret None"
proof -
  have "map_order rev" by unfold_locales simp
  from cache_put_get_roundtrip [OF this, of tiny_cache 1] show ?thesis
    by (simp add: instant_limit_num)
qed

text \<open>A \<^verbatim>\<open>put\<close> loses a live response of another key only when it has to: the cache is full, the
  key it stores is a new one, and no entry had expired that could have been evicted instead. In
  every other case the other keys read as before.\<close>

theorem cache_evicts_live_only_when_full:
  assumes "map_order ord" and "cache_ok c" and "now + ca_ttl c < instant_limit" and "key' \<noteq> key"
    and "fst (cache_get c key' now_evict) = Ret (Some e)" and "later < cr_expires_at e"
    and "fst (cache_get (snd (cache_put ord c key status headers body now_evict now)) key' later)
           \<noteq> Ret (Some e)"
  shows "length (guarded (ca_map c)) = unat (ca_capacity c) \<and> cache_view c key = None
     \<and> (\<forall>k v. cache_view c k = Some v \<longrightarrow> now_evict < cr_expires_at v)"
proof -
  have e: "cache_view c key' = Some e" "now_evict < cr_expires_at e"
    using assms(2,5) by (auto simp: get_fst live_def split: option.splits if_splits)
  have "map_of (cache_evict ord (ca_capacity c) now_evict key (guarded (ca_map c))) key' \<noteq> Some e"
    using assms(6,7) by (auto simp: map_order.get_other_after_put [OF assms(1-4)] live_def)
  with e assms(1,2) show ?thesis
    by (intro map_order.evict_loses) (auto simp: cache_ok_def)
qed

theorem cache_evicts_live_only_when_full_witness:
  "length (guarded (ca_map (snd (cache_put (\<lambda>m. m) tiny_cache ''a'' 200 [] ''A'' 0 0)))) = 1
   \<and> cache_view (snd (cache_put (\<lambda>m. m) tiny_cache ''a'' 200 [] ''A'' 0 0)) ''b'' = None"
proof -
  let ?c = "snd (cache_put (\<lambda>m. m) tiny_cache ''a'' 200 [] ''A'' 0 0)"
  let ?e = "\<lparr>cr_status = 200, cr_headers = [], cr_body = ''A'', cr_expires_at = 10000000000\<rparr>"
  have ok: "cache_ok ?c" and ttl: "now + ca_ttl ?c < instant_limit \<longleftrightarrow> now + 10000000000 < instant_limit" for now
    by (simp_all add: insertion_order.store_usable instant_limit_num)
  have got: "fst (cache_get ?c ''a'' 1) = Ret (Some ?e)"
    by (simp add: cache_eval mutex_new_def)
  have lost: "fst (cache_get (snd (cache_put (\<lambda>m. m) ?c ''b'' 200 [] ''B'' 1 1)) ''a'' 2) \<noteq> Ret (Some ?e)"
    by (simp add: cache_eval mutex_new_def)
  have "ca_capacity ?c = 1" by (simp add: cache_eval)
  with cache_evicts_live_only_when_full [OF insertion_order.map_order_axioms ok _ _ got _ lost]
  show ?thesis by (simp add: ttl instant_limit_num)
qed

text \<open>Two requests share a cache entry only if they have the same method, the same host and the
  same path and query, provided the methods and the hosts contain no blank (an HTTP method is a
  token and a host of an HTTP request has no blank).\<close>

theorem cache_key_injective:
  assumes "CHR '' '' \<notin> set m" and "CHR '' '' \<notin> set m'"
    and "CHR '' '' \<notin> set h" and "CHR '' '' \<notin> set h'"
    and "cache_key m h p = cache_key m' h' p'"
  shows "m = m' \<and> h = h' \<and> p = p'"
  using assms join_inject [of m "CHR '' ''" "h @ '' '' @ p" m' "h' @ '' '' @ p'"]
    join_inject [of h "CHR '' ''" p h' p']
  by (simp add: cache_key_def)

theorem cache_key_injective_witness:
  "cache_key ''GET'' ''a.example'' ''/x?y=1 2'' \<noteq> cache_key ''GET'' ''b.example'' ''/x?y=1 2''"
  using cache_key_injective [of "''GET''" "''GET''" "''a.example''" "''b.example''" "''/x?y=1 2''" "''/x?y=1 2''"]
  by auto

text \<open>A time to live that takes the clock past what an \<^verbatim>\<open>Instant\<close> can hold, which the
  configuration accepts, makes \<^verbatim>\<open>put\<close> panic while it holds the lock; from then on the mutex is
  poisoned and every call on the cache panics.\<close>

theorem cache_ttl_overflow_poisons:
  assumes "\<not> poisoned (ca_map c)" and "instant_limit \<le> now + ca_ttl c"
  shows "fst (cache_put ord c key status headers body now_evict now) = Panic
     \<and> (\<forall>k t. fst (cache_get (snd (cache_put ord c key status headers body now_evict now)) k t) = Panic)"
  using assms by (simp add: cache_put_def cache_put_body_def cache_get_def lock_simps instant_add_def Let_def)

theorem cache_ttl_overflow_poisons_witness:
  "fst (cache_put (\<lambda>m. m) (cache_new (from_secs (2 ^ 63)) 8) ''k'' 200 [] ''b'' 1 1) = Panic"
  using cache_ttl_overflow_poisons [of "cache_new (from_secs (2 ^ 63)) 8" 1 "\<lambda>m. m" "''k''" 200 "[]" "''b''" 1]
  by (simp add: cache_new_def from_secs_def nanos_per_sec_def instant_limit_num)

end
