(* ===== verification/Rate_Limit.thy ===== *)
theory Rate_Limit
  imports Gateway_Prelude
begin

text \<open>
  The rate limiters of \<^verbatim>\<open>crates/gateway/src/ratelimit.rs\<close>: the in-memory fixed-window
  limiter, the Redis limiter over the commands of a server that is not part of the program
  (\<open>redis_api\<close>), and the contract both keep: the locale \<open>rate_limiter\<close> for the shape of
  a decision and \<open>window_counter\<close>, which extends it, for the counting inside one window.
\<close>

section \<open>Decisions and the in-memory limiter\<close>

record rate_decision =
  rd_allowed :: bool
  rd_limit :: u32
  rd_remaining :: u32
  rd_reset_secs :: u64

type_synonym windows = "string \<rightharpoonup> instant \<times> u32"

record in_memory_limiter =
  lim_windows :: "windows mutex"

definition in_memory_new :: in_memory_limiter where
  "in_memory_new = \<lparr>lim_windows = mutex_new (\<lambda>_. None)\<rparr>"

text \<open>
  The entry of the key after \<^verbatim>\<open>or_insert((now, 0))\<close> and the reset of an elapsed window.
\<close>

definition window_entry :: "windows \<Rightarrow> string \<Rightarrow> duration \<Rightarrow> instant \<Rightarrow> instant \<times> u32" where
  "window_entry m key window now =
     (let entry = (case m key of Some e \<Rightarrow> e | None \<Rightarrow> (now, 0)) in
      if window \<le> duration_since now (fst entry) then (now, 0) else entry)"

definition in_memory_check_body ::
  "string \<Rightarrow> u32 \<Rightarrow> duration \<Rightarrow> instant \<Rightarrow> windows \<Rightarrow> rate_decision res \<times> windows" where
  "in_memory_check_body key limit window now m =
     (let (start, n) = window_entry m key window now;
          used = n + 1
      in (Ret \<lparr>rd_allowed = (used \<le> limit), rd_limit = limit,
               rd_remaining = saturating_sub_u32 limit (min used limit),
               rd_reset_secs = as_secs (window - duration_since now start)\<rparr>,
          m(key \<mapsto> (start, used))))"

definition in_memory_check ::
  "in_memory_limiter \<Rightarrow> string \<Rightarrow> u32 \<Rightarrow> duration \<Rightarrow> instant \<Rightarrow> rate_decision res \<times> in_memory_limiter" where
  "in_memory_check l key limit window now =
     (let (d, m) = with_lock (lim_windows l) (in_memory_check_body key limit window now)
      in (d, l\<lparr>lim_windows := m\<rparr>))"

section \<open>The Redis limiter\<close>

text \<open>
  The three commands, on the state of the server: each may fail, and may leave the server in
  another state (other gateways use it too). Integers are the 64 bits of an \<^verbatim>\<open>i64\<close>.
\<close>

record 's redis_api =
  redis_incr :: "'s \<Rightarrow> string \<Rightarrow> i64 option \<times> 's"
  redis_expire :: "'s \<Rightarrow> string \<Rightarrow> i64 \<Rightarrow> unit option \<times> 's"
  redis_ttl :: "'s \<Rightarrow> string \<Rightarrow> i64 option \<times> 's"

definition max_zero_i64 :: "i64 \<Rightarrow> i64" where
  "max_zero_i64 n = (if 0 \<le> sint n then n else 0)"

definition redis_window_secs :: "duration \<Rightarrow> i64" where
  "redis_window_secs window = max (as_secs window) 1"

definition redis_check ::
  "'s redis_api \<Rightarrow> 's \<Rightarrow> string \<Rightarrow> u32 \<Rightarrow> duration \<Rightarrow> rate_decision res \<times> 's" where
  "redis_check R s key limit window =
     (let redis_key = ''gw:rl:'' @ key; window_secs = redis_window_secs window in
      case redis_incr R s redis_key of
        (None, s) \<Rightarrow>
          (Ret \<lparr>rd_allowed = True, rd_limit = limit, rd_remaining = limit, rd_reset_secs = window_secs\<rparr>, s)
      | (Some count, s) \<Rightarrow>
          (let s = (if count = 1 then snd (redis_expire R s redis_key window_secs) else s);
               (t, s) = redis_ttl R s redis_key;
               ttl = (case t of Some v \<Rightarrow> v | None \<Rightarrow> window_secs);
               used = ucast (max_zero_i64 count) :: u32
           in (Ret \<lparr>rd_allowed = (used \<le> limit), rd_limit = limit,
                    rd_remaining = saturating_sub_u32 limit (min used limit),
                    rd_reset_secs = max_zero_i64 ttl\<rparr>, s)))"

text \<open>\<^verbatim>\<open>RedisLimiter::connect\<close>: opening the client and connecting may fail.\<close>

definition redis_connect :: "(string \<Rightarrow> 'c option) \<Rightarrow> ('c \<Rightarrow> 's option) \<Rightarrow> string \<Rightarrow> 's option" where
  "redis_connect open_client manager url =
     (case open_client url of None \<Rightarrow> None | Some client \<Rightarrow> manager client)"

section \<open>Dispatch\<close>

text \<open>\<^verbatim>\<open>Arc<dyn RateLimiter>\<close>: one of the two implementations.\<close>

datatype 's limiter = InMemory in_memory_limiter | Redis 's

fun limiter_check ::
  "'s redis_api \<Rightarrow> 's limiter \<Rightarrow> string \<Rightarrow> u32 \<Rightarrow> duration \<Rightarrow> instant \<Rightarrow> rate_decision res \<times> 's limiter" where
  "limiter_check R (InMemory l) key limit window now =
     (let (d, l) = in_memory_check l key limit window now in (d, InMemory l))"
| "limiter_check R (Redis s) key limit window now =
     (let (d, s) = redis_check R s key limit window in (d, Redis s))"

section \<open>The contract\<close>

text \<open>A request of a limiter: key, limit, window, and the instant at which it is checked.\<close>

type_synonym rate_request = "string \<times> u32 \<times> duration \<times> instant"

fun key_of :: "rate_request \<Rightarrow> string" where "key_of (k, _, _, _) = k"
fun limit_of :: "rate_request \<Rightarrow> u32" where "limit_of (_, lim, _, _) = lim"

fun run_checks :: "('l \<Rightarrow> 'r \<Rightarrow> rate_decision res \<times> 'l) \<Rightarrow> 'l \<Rightarrow> 'r list \<Rightarrow> ('r \<times> rate_decision res) list" where
  "run_checks check l [] = []"
| "run_checks check l (r # rs) = (r, fst (check l r)) # run_checks check (snd (check l r)) rs"

fun granted :: "rate_decision res \<Rightarrow> bool" where
  "granted (Ret d) = rd_allowed d"
| "granted Panic = False"

definition verdicts :: "string \<Rightarrow> (rate_request \<times> rate_decision res) list \<Rightarrow> bool list" where
  "verdicts k ds = map (granted \<circ> snd) (filter (\<lambda>rd. key_of (fst rd) = k) ds)"

locale rate_limiter =
  fixes check :: "'l \<Rightarrow> rate_request \<Rightarrow> rate_decision res \<times> 'l"
  assumes decision_wf: "fst (check l r) = Ret d \<Longrightarrow>
    rd_limit d = limit_of r \<and> rd_remaining d \<le> limit_of r \<and> (\<not> rd_allowed d \<longrightarrow> rd_remaining d = 0)"

locale window_counter = rate_limiter check
  for check :: "'l \<Rightarrow> rate_request \<Rightarrow> rate_decision res \<times> 'l" +
  fixes usable :: "'l \<Rightarrow> bool"
    and in_window :: "'l \<Rightarrow> rate_request \<Rightarrow> bool"
    and used :: "'l \<Rightarrow> string \<Rightarrow> nat"
  assumes check_granted: "usable l \<Longrightarrow> in_window l r \<Longrightarrow> Suc (used l (key_of r)) < 2 ^ 32 \<Longrightarrow>
      granted (fst (check l r)) \<longleftrightarrow> used l (key_of r) < unat (limit_of r)"
    and check_used: "usable l \<Longrightarrow> in_window l r \<Longrightarrow> Suc (used l (key_of r)) < 2 ^ 32 \<Longrightarrow>
      used (snd (check l r)) (key_of r) = Suc (used l (key_of r))"
    and other_used: "usable l \<Longrightarrow> key_of r \<noteq> k \<Longrightarrow> used (snd (check l r)) k = used l k"
    and check_usable: "usable l \<Longrightarrow> usable (snd (check l r))"
    and window_kept: "usable l \<Longrightarrow> in_window l r' \<Longrightarrow> key_of r = key_of r' \<longrightarrow> in_window l r \<Longrightarrow>
      in_window (snd (check l r)) r'"
begin

text \<open>Inside one window the first \<open>limit\<close> requests of a key are granted and no other.\<close>

lemma window_exact:
  assumes "usable l"
    and "\<And>r. r \<in> set rs \<Longrightarrow> key_of r = k \<Longrightarrow> in_window l r \<and> limit_of r = lim"
    and "used l k + length (filter (\<lambda>r. key_of r = k) rs) < 2 ^ 32"
  shows "verdicts k (run_checks check l rs)
     = map (\<lambda>i. used l k + i < unat lim) [0..<length (filter (\<lambda>r. key_of r = k) rs)]"
  using assms
proof (induction rs arbitrary: l)
  case Nil
  then show ?case by (simp add: verdicts_def)
next
  case (Cons r rs)
  let ?l = "snd (check l r)" and ?n = "length (filter (\<lambda>r. key_of r = k) rs)"
  have win: "in_window ?l r' \<and> limit_of r' = lim" if "r' \<in> set rs" "key_of r' = k" for r'
    using that window_kept [OF Cons.prems(1), of r' r] Cons.prems(2) [of r'] Cons.prems(2) [of r]
    by simp
  show ?case
  proof (cases "key_of r = k")
    case True
    with Cons.prems have r: "in_window l r" "limit_of r = lim" "Suc (used l k) < 2 ^ 32" by auto
    with True Cons.prems have u: "used ?l k = Suc (used l k)"
      and g: "granted (fst (check l r)) \<longleftrightarrow> used l k < unat lim"
      using check_used [of l r] check_granted [of l r] by auto
    have "verdicts k (run_checks check ?l rs) = map (\<lambda>i. Suc (used l k) + i < unat lim) [0..<?n]"
      using Cons.IH [OF check_usable [OF Cons.prems(1)] win] Cons.prems(3) True u by simp
    moreover have "map (\<lambda>i. used l k + i < unat lim) [0..<Suc ?n]
        = (used l k < unat lim) # map (\<lambda>i. Suc (used l k) + i < unat lim) [0..<?n]"
      by (simp add: map_upt_Suc del: upt_Suc)
    ultimately show ?thesis using True g by (simp add: verdicts_def del: upt_Suc)
  next
    case False
    with Cons.IH [OF check_usable [OF Cons.prems(1)] win] Cons.prems(1,3) show ?thesis
      by (simp add: verdicts_def other_used)
  qed
qed

end

section \<open>The in-memory limiter keeps the contract\<close>

fun mem_check :: "in_memory_limiter \<Rightarrow> rate_request \<Rightarrow> rate_decision res \<times> in_memory_limiter" where
  "mem_check l (key, limit, window, now) = in_memory_check l key limit window now"

definition mem_usable :: "in_memory_limiter \<Rightarrow> bool" where
  "mem_usable l \<longleftrightarrow> \<not> poisoned (lim_windows l)"

text \<open>The request falls into the window that is open for its key.\<close>

fun mem_in_window :: "in_memory_limiter \<Rightarrow> rate_request \<Rightarrow> bool" where
  "mem_in_window l (key, _, window, now) \<longleftrightarrow>
     (case guarded (lim_windows l) key of
        Some (start, _) \<Rightarrow> duration_since now start < window | None \<Rightarrow> False)"

definition mem_used :: "in_memory_limiter \<Rightarrow> string \<Rightarrow> nat" where
  "mem_used l k = (case guarded (lim_windows l) k of Some (_, n) \<Rightarrow> unat n | None \<Rightarrow> 0)"

lemma remaining_le: "saturating_sub_u32 limit (min used limit) \<le> limit"
  by (simp add: word_le_nat_alt unat_saturating_sub_u32)

lemma saturating_sub_u32_self [simp]: "saturating_sub_u32 a a = 0"
  by (simp add: saturating_sub_u32_def)

lemma remaining_zero: "\<not> used \<le> limit \<Longrightarrow> saturating_sub_u32 limit (min used limit) = 0"
  by (simp add: saturating_sub_u32_def min_def)

lemma in_memory_check_eq:
  "mem_usable l \<Longrightarrow> in_memory_check l key limit window now =
     (let (d, m) = in_memory_check_body key limit window now (guarded (lim_windows l))
      in (d, \<lparr>lim_windows = mutex_new m\<rparr>))"
  by (cases l) (auto simp: in_memory_check_def mem_usable_def lock_simps in_memory_check_body_def
      mutex_new_def Let_def split: prod.splits)

lemma unat_Suc_le: "Suc (unat n) < 2 ^ 32 \<Longrightarrow> (n :: u32) + 1 \<le> limit \<longleftrightarrow> unat n < unat limit"
  by (simp add: word_le_nat_alt unat_Suc_u32 Suc_le_eq)

interpretation mem: rate_limiter mem_check
proof
  fix l r d
  assume "fst (mem_check l r) = Ret d"
  then show "rd_limit d = limit_of r \<and> rd_remaining d \<le> limit_of r \<and> (\<not> rd_allowed d \<longrightarrow> rd_remaining d = 0)"
    by (cases r) (auto simp: in_memory_check_def with_lock_def in_memory_check_body_def
        remaining_le remaining_zero Let_def split: if_splits prod.splits)
qed

interpretation mem: window_counter mem_check mem_usable mem_in_window mem_used
proof
  fix l k and r r' :: rate_request
  assume ok: "mem_usable l"
  obtain key lim w now where r: "r = (key, lim, w, now)" by (cases r)
  show "mem_usable (snd (mem_check l r))"
    using ok by (simp add: r in_memory_check_eq mem_usable_def case_prod_beta)
  show "key_of r \<noteq> k \<Longrightarrow> mem_used (snd (mem_check l r)) k = mem_used l k"
    using ok by (simp add: r in_memory_check_eq mem_used_def in_memory_check_body_def case_prod_beta Let_def)
  { assume "mem_in_window l r" "Suc (mem_used l (key_of r)) < 2 ^ 32"
    then obtain s n where "guarded (lim_windows l) key = Some (s, n)" "duration_since now s < w"
      "Suc (unat n) < 2 ^ 32" by (auto simp: r mem_used_def split: option.splits)
    then show "granted (fst (mem_check l r)) \<longleftrightarrow> mem_used l (key_of r) < unat (limit_of r)"
      "mem_used (snd (mem_check l r)) (key_of r) = Suc (mem_used l (key_of r))"
      using ok by (simp_all add: r in_memory_check_eq in_memory_check_body_def window_entry_def
          mem_used_def unat_Suc_le unat_Suc_u32 Let_def) }
  assume "mem_in_window l r'" "key_of r = key_of r' \<longrightarrow> mem_in_window l r"
  then show "mem_in_window (snd (mem_check l r)) r'"
    using ok by (cases r') (auto simp: r in_memory_check_eq in_memory_check_body_def window_entry_def
        Let_def split: option.splits if_splits)
qed

section \<open>The Redis limiter keeps the contract\<close>

text \<open>
  What is relied on of the server inside one window, as its documentation states it:
  \<^verbatim>\<open>INCR\<close> adds one to the counter of the key and returns the new value, as long as that
  fits a signed 64-bit integer; \<^verbatim>\<open>EXPIRE\<close> and \<^verbatim>\<open>TTL\<close> leave the counters alone. That no
  command fails is part of \<open>up\<close>.
\<close>

locale redis_server =
  fixes R :: "'s redis_api" and up :: "'s \<Rightarrow> bool" and counter :: "'s \<Rightarrow> string \<Rightarrow> nat"
  assumes incr_value: "up s \<Longrightarrow> Suc (counter s k) < 2 ^ 63 \<Longrightarrow>
      fst (redis_incr R s k) = Some (of_nat (Suc (counter s k)))"
    and incr_counter: "up s \<Longrightarrow> Suc (counter s k) < 2 ^ 63 \<Longrightarrow>
      counter (snd (redis_incr R s k)) k = Suc (counter s k)"
    and incr_other: "up s \<Longrightarrow> k' \<noteq> k \<Longrightarrow> counter (snd (redis_incr R s k)) k' = counter s k'"
    and incr_up: "up s \<Longrightarrow> up (snd (redis_incr R s k))"
    and expire_counter: "up s \<Longrightarrow> counter (snd (redis_expire R s k t)) = counter s"
    and expire_up: "up s \<Longrightarrow> up (snd (redis_expire R s k t))"
    and ttl_counter: "up s \<Longrightarrow> counter (snd (redis_ttl R s k)) = counter s"
    and ttl_up: "up s \<Longrightarrow> up (snd (redis_ttl R s k))"

fun red_check :: "'s redis_api \<Rightarrow> 's \<Rightarrow> rate_request \<Rightarrow> rate_decision res \<times> 's" where
  "red_check R s (key, limit, window, _) = redis_check R s key limit window"

text \<open>The state the server is left in.\<close>

lemma snd_redis_check:
  "snd (redis_check R s key limit window) =
     (case redis_incr R s (''gw:rl:'' @ key) of
        (None, s) \<Rightarrow> s
      | (Some c, s) \<Rightarrow> snd (redis_ttl R (if c = 1
          then snd (redis_expire R s (''gw:rl:'' @ key) (redis_window_secs window)) else s) (''gw:rl:'' @ key)))"
  by (simp add: redis_check_def Let_def split: prod.splits option.splits)

lemma fst_redis_check:
  "\<exists>d. fst (redis_check R s key limit window) = Ret d"
  by (simp add: redis_check_def Let_def split: prod.splits option.splits)

lemma granted_redis_check:
  "granted (fst (redis_check R s key limit window)) \<longleftrightarrow>
     (case fst (redis_incr R s (''gw:rl:'' @ key)) of
        None \<Rightarrow> True | Some c \<Rightarrow> (ucast (max_zero_i64 c) :: u32) \<le> limit)"
  by (simp add: redis_check_def Let_def split: prod.splits option.splits)

interpretation red: rate_limiter "red_check R" for R
proof
  fix l r d
  assume "fst (red_check R l r) = Ret d"
  then show "rd_limit d = limit_of r \<and> rd_remaining d \<le> limit_of r \<and> (\<not> rd_allowed d \<longrightarrow> rd_remaining d = 0)"
    by (cases r) (auto simp: redis_check_def remaining_le remaining_zero Let_def
        split: if_splits prod.splits option.splits)
qed

lemma ucast_count:
  assumes "n < 2 ^ 32"
  shows "unat (ucast (max_zero_i64 (of_nat n)) :: u32) = n"
proof -
  have "sint (of_nat n :: i64) = int n"
    using assms by (simp add: signed_of_nat signed_take_bit_int_eq_self)
  then have "max_zero_i64 (of_nat n) = of_nat n" by (simp add: max_zero_i64_def)
  with assms show ?thesis by (simp add: unsigned_ucast_eq unat_of_nat take_bit_nat_eq_self)
qed

context redis_server
begin

lemma check_counter:
  assumes "up s"
  shows "counter (snd (redis_check R s key limit window)) k'
     = counter (snd (redis_incr R s (''gw:rl:'' @ key))) k'"
    and "up (snd (redis_check R s key limit window))"
  using assms incr_up [of s "''gw:rl:'' @ key"]
  by (auto simp: snd_redis_check ttl_counter ttl_up expire_counter expire_up
      split: prod.splits option.splits)

end

sublocale redis_server \<subseteq> redis: window_counter "red_check R" up "\<lambda>_ _. True"
  "\<lambda>s k. counter s (''gw:rl:'' @ k)"
proof
  fix s k and r r' :: rate_request
  assume up: "up s"
  obtain key lim w now where r: "r = (key, lim, w, now)" by (cases r)
  show "up (snd (red_check R s r))" using up by (simp add: r check_counter)
  show "key_of r \<noteq> k \<Longrightarrow> counter (snd (red_check R s r)) (''gw:rl:'' @ k) = counter s (''gw:rl:'' @ k)"
    using up by (simp add: r check_counter incr_other)
  assume "Suc (counter s (''gw:rl:'' @ key_of r)) < 2 ^ 32"
  with up show "counter (snd (red_check R s r)) (''gw:rl:'' @ key_of r) = Suc (counter s (''gw:rl:'' @ key_of r))"
    and "granted (fst (red_check R s r)) \<longleftrightarrow> counter s (''gw:rl:'' @ key_of r) < unat (limit_of r)"
    using ucast_count [of "Suc (counter s (''gw:rl:'' @ key_of r))"]
    by (simp_all add: r check_counter incr_counter incr_value granted_redis_check word_le_nat_alt
        Suc_le_eq del: of_nat_Suc)
qed simp

context redis_server
begin

lemmas server_window_exact = redis.window_exact

end

text \<open>A server that counts and lets nothing expire: the contract can be met.\<close>

definition counting_redis :: "(string \<Rightarrow> nat) redis_api" where
  "counting_redis =
     \<lparr>redis_incr = (\<lambda>s k. (Some (of_nat (Suc (s k))), s(k := Suc (s k)))),
      redis_expire = (\<lambda>s k t. (Some (), s)),
      redis_ttl = (\<lambda>s k. (Some 1, s))\<rparr>"

interpretation counting: redis_server counting_redis "\<lambda>_. True" "\<lambda>s. s"
  by unfold_locales (simp_all add: counting_redis_def)

section \<open>Properties\<close>

lemma limiter_check_cases:
  "fst (limiter_check R l key limit window now) =
     (case l of InMemory m \<Rightarrow> fst (mem_check m (key, limit, window, now))
      | Redis s \<Rightarrow> fst (red_check R s (key, limit, window, now)))"
  by (cases l) (simp_all add: case_prod_beta)

text \<open>C31. Whichever limiter is configured, a decision reports the limit of the route, at most that
  many remaining requests, and none remaining when the request is refused.\<close>

theorem limiter_decision_wf:
  assumes "fst (limiter_check R l key limit window now) = Ret d"
  shows "rd_limit d = limit \<and> rd_remaining d \<le> limit \<and> (\<not> rd_allowed d \<longrightarrow> rd_remaining d = 0)"
  using assms mem.decision_wf [of _ "(key, limit, window, now)"] red.decision_wf [of R _ "(key, limit, window, now)"]
  by (auto simp: limiter_check_cases split: limiter.splits)

theorem limiter_decision_wf_witness:
  "fst (limiter_check counting_redis (InMemory in_memory_new) ''r:ip:1'' 3 1000 5)
     = Ret \<lparr>rd_allowed = True, rd_limit = 3, rd_remaining = 2, rd_reset_secs = 0\<rparr>
   \<and> (2 :: u32) \<le> 3"
proof -
  have "fst (limiter_check counting_redis (InMemory in_memory_new) ''r:ip:1'' 3 1000 5)
     = Ret \<lparr>rd_allowed = True, rd_limit = 3, rd_remaining = 2, rd_reset_secs = 0\<rparr>"
    by (simp add: in_memory_new_def in_memory_check_eq mem_usable_def in_memory_check_body_def
        window_entry_def duration_since_def as_secs_def nanos_per_sec_def saturating_sub_u32_def)
  with limiter_decision_wf [OF this] show ?thesis by simp
qed

lemma fresh_check:
  assumes "mem_usable l" and "0 < w"
    and "\<forall>s n. guarded (lim_windows l) k = Some (s, n) \<longrightarrow> w \<le> duration_since now s"
  shows "mem_check l (k, lim, w, now)
     = mem_check \<lparr>lim_windows = mutex_new ((guarded (lim_windows l))(k \<mapsto> (now, 0)))\<rparr> (k, lim, w, now)"
  using assms
  by (auto simp: in_memory_check_eq mem_usable_def in_memory_check_body_def window_entry_def
      duration_since_def split: option.splits)

text \<open>C29. Fixed window: from the request that opens a window for a key, and however many requests
  for other keys come between, the first \<^verbatim>\<open>limit\<close> requests for the key in that window are
  allowed and every later one is refused (for fewer than 2^32 of them).\<close>

theorem in_memory_window_exact:
  assumes "\<not> poisoned (lim_windows l)"
    and "\<forall>s n. guarded (lim_windows l) k = Some (s, n) \<longrightarrow> w \<le> duration_since now s"
    and "rs = (k, lim, w, now) # rest"
    and "\<forall>r \<in> set rs. key_of r = k \<longrightarrow> (\<exists>t. r = (k, lim, w, t) \<and> duration_since t now < w)"
    and "length (filter (\<lambda>r. key_of r = k) rs) < 2 ^ 32"
  shows "verdicts k (run_checks mem_check l rs)
     = map (\<lambda>i. i < unat lim) [0..<length (filter (\<lambda>r. key_of r = k) rs)]"
proof -
  let ?l = "\<lparr>lim_windows = mutex_new ((guarded (lim_windows l))(k \<mapsto> (now, 0)))\<rparr>"
  have "0 < w" using assms(3,4) by auto
  then have "run_checks mem_check l rs = run_checks mem_check ?l rs"
    using assms(1-3) fresh_check [of l w k now lim] by (simp add: mem_usable_def)
  moreover have "mem_in_window ?l r \<and> limit_of r = lim" if "r \<in> set rs" "key_of r = k" for r
    using assms(4) that by (cases r) auto
  ultimately show ?thesis
    using mem.window_exact [of ?l rs k lim] assms(5) by (simp add: mem_usable_def mem_used_def)
qed

theorem in_memory_window_exact_witness:
  "verdicts ''a'' (run_checks mem_check in_memory_new
      [(''a'', 2, 100, 7), (''b'', 9, 5, 8), (''a'', 2, 100, 50), (''a'', 2, 100, 106)])
   = [True, True, False]"
  using in_memory_window_exact [of in_memory_new "''a''" 100 7
      "[(''a'', 2, 100, 7), (''b'', 9, 5, 8), (''a'', 2, 100, 50), (''a'', 2, 100, 106)]" 2]
  by (simp add: in_memory_new_def duration_since_def upt_rec)

definition admitted :: "string \<Rightarrow> in_memory_limiter \<Rightarrow> rate_request list \<Rightarrow> nat" where
  "admitted k l rs = length (filter id (verdicts k (run_checks mem_check l rs)))"

lemma admitted_simps:
  "admitted k l [] = 0"
  "admitted k l (r # rs) = (if key_of r = k \<and> granted (fst (mem_check l r)) then 1 else 0)
     + admitted k (snd (mem_check l r)) rs"
  by (simp_all add: admitted_def verdicts_def)

lemma length_filter_below: "length (filter id (map (\<lambda>i. u + i < m) [0..<n])) \<le> m - u"
  by (induction n) auto

lemma admitted_in_window:
  assumes "mem_usable l"
    and "\<And>r. r \<in> set rs \<Longrightarrow> key_of r = k \<Longrightarrow> mem_in_window l r \<and> limit_of r = lim"
    and "mem_used l k + length (filter (\<lambda>r. key_of r = k) rs) < 2 ^ 32"
  shows "admitted k l rs \<le> unat lim - mem_used l k"
  using mem.window_exact [OF assms] length_filter_below by (simp add: admitted_def)

lemma check_opens_window:
  assumes "mem_usable l" and "\<not> mem_in_window l (k, lim, w, t)" and "0 < w"
  shows "granted (fst (mem_check l (k, lim, w, t))) \<longleftrightarrow> 0 < unat lim"
    and "mem_used (snd (mem_check l (k, lim, w, t))) k = 1"
    and "duration_since t' t < w \<Longrightarrow> mem_in_window (snd (mem_check l (k, lim, w, t))) (k, lim, w, t')"
  using assms
  by (auto simp: in_memory_check_eq in_memory_check_body_def window_entry_def mem_used_def
      word_le_nat_alt duration_since_def Let_def not_less Suc_le_eq split: option.splits if_splits)

lemma admitted_bound:
  assumes "mem_usable l"
    and "\<forall>r \<in> set rs. key_of r = k \<longrightarrow> (\<exists>t. r = (k, lim, w, t) \<and> a \<le> t \<and> t < a + w)"
    and "mem_used l k + length (filter (\<lambda>r. key_of r = k) rs) < 2 ^ 32"
  shows "admitted k l rs \<le> (unat lim - mem_used l k) + unat lim"
  using assms
proof (induction rs arbitrary: l)
  case (Cons r rs)
  let ?l = "snd (mem_check l r)"
  have ok: "mem_usable ?l" using Cons.prems(1) by (rule mem.check_usable)
  show ?case
  proof (cases "key_of r = k")
    case False
    with Cons.IH [OF ok] Cons.prems show ?thesis by (simp add: admitted_simps mem.other_used)
  next
    case True
    with Cons.prems(2) obtain t where r: "r = (k, lim, w, t)" "a \<le> t" "t < a + w" by auto
    show ?thesis
    proof (cases "mem_in_window l r")
      case True
      with Cons.prems r mem.check_granted [of l r] mem.check_used [of l r] Cons.IH [OF ok]
      show ?thesis by (auto simp: admitted_simps)
    next
      case False
      with r have w: "0 < w" by auto
      have "mem_in_window ?l r' \<and> limit_of r' = lim" if r': "r' \<in> set rs" "key_of r' = k" for r'
      proof -
        from r' Cons.prems(2) obtain t' where "r' = (k, lim, w, t')" "t' < a + w" by auto
        with r check_opens_window(3) [OF Cons.prems(1), of k lim w t t'] False w show ?thesis
          by (auto simp: duration_since_def)
      qed
      then have "admitted k ?l rs \<le> unat lim - mem_used ?l k"
        using Cons.prems(3) r check_opens_window(2) [OF Cons.prems(1), of k lim w t] False w
        by (intro admitted_in_window [OF ok]) auto
      with check_opens_window(1,2) [OF Cons.prems(1), of k lim w t] False w r show ?thesis
        by (auto simp: admitted_simps)
    qed
  qed
qed (simp add: admitted_simps)

text \<open>A fixed window bounds every interval, not only the aligned ones: whatever happened
  before, in any interval as long as the window at most twice \<^verbatim>\<open>limit\<close> requests for a key are
  allowed.\<close>

theorem in_memory_interval_bound:
  assumes "\<not> poisoned (lim_windows l)"
    and "\<forall>r \<in> set rs. key_of r = k \<longrightarrow> (\<exists>t. r = (k, lim, w, t) \<and> a \<le> t \<and> t < a + w)"
    and "mem_used l k + length (filter (\<lambda>r. key_of r = k) rs) < 2 ^ 32"
  shows "length (filter id (verdicts k (run_checks mem_check l rs))) \<le> 2 * unat lim"
  using admitted_bound [of l rs k lim w a] assms by (simp add: mem_usable_def admitted_def)

theorem in_memory_interval_bound_witness:
  "length (filter id (verdicts ''a'' (run_checks mem_check
      \<lparr>lim_windows = mutex_new [''a'' \<mapsto> (0, 0)]\<rparr>
      [(''a'', 1, 10, 9), (''a'', 1, 10, 10), (''a'', 1, 10, 11)]))) \<le> 2"
  using in_memory_interval_bound [of "\<lparr>lim_windows = mutex_new [''a'' \<mapsto> (0, 0)]\<rparr>"
      "[(''a'', 1, 10, 9), (''a'', 1, 10, 10), (''a'', 1, 10, 11)]" "''a''" 1 10 5]
  by (simp add: mem_used_def)



text \<open>The expiry of a window is set once or never: a check of a key that already has a counter does
  not send \<^verbatim>\<open>EXPIRE\<close>, whatever became of the one that opened the window. A counter whose
  first \<^verbatim>\<open>EXPIRE\<close> was lost is never given an expiry.\<close>

theorem redis_expiry_sent_once:
  assumes "redis_server R up counter" and "up s" and "0 < counter s (''gw:rl:'' @ key)"
    and "Suc (counter s (''gw:rl:'' @ key)) < 2 ^ 63"
  shows "redis_check (R\<lparr>redis_expire := f\<rparr>) s key limit window = redis_check R s key limit window"
proof -
  let ?n = "Suc (counter s (''gw:rl:'' @ key))"
  have "(of_nat ?n :: i64) \<noteq> 1"
  proof
    assume "(of_nat ?n :: i64) = 1"
    then have "unat (of_nat ?n :: i64) = 1" by (metis unsigned_1)
    with assms(3,4) show False by (simp add: unat_of_nat take_bit_nat_eq_self del: of_nat_Suc)
  qed
  moreover have "fst (redis_incr R s (''gw:rl:'' @ key)) = Some (of_nat ?n)"
    using assms(2,4) by (rule redis_server.incr_value [OF assms(1)])
  then obtain s' where "redis_incr R s (''gw:rl:'' @ key) = (Some (of_nat ?n), s')" by (metis prod.collapse)
  ultimately show ?thesis by (simp add: redis_check_def Let_def del: of_nat_Suc)
qed

text \<open>The Redis limiter fails open: when \<^verbatim>\<open>INCR\<close> fails the request is allowed with the full
  limit remaining, and the reset is the window in whole seconds but at least one.\<close>

theorem redis_fails_open:
  assumes "fst (redis_incr R s (''gw:rl:'' @ key)) = None" and "window < 2 ^ 63 * nanos_per_sec"
  shows "\<exists>d. fst (redis_check R s key limit window) = Ret d \<and> rd_allowed d \<and> rd_remaining d = limit
     \<and> unat (rd_reset_secs d) = max (window div nanos_per_sec) 1"
proof -
  have "window div nanos_per_sec < 2 ^ 63"
    using assms(2) by (simp add: less_mult_imp_div_less)
  then have "unat (as_secs window) = window div nanos_per_sec"
    by (simp add: as_secs_def unat_of_nat take_bit_nat_eq_self)
  then have "unat (redis_window_secs window) = max (window div nanos_per_sec) 1"
    by (simp add: redis_window_secs_def max_def word_le_nat_alt)
  with assms(1) show ?thesis
    by (auto simp: redis_check_def Let_def split: prod.splits)
qed

theorem redis_fails_open_witness:
  "\<exists>d. fst (redis_check (counting_redis\<lparr>redis_incr := \<lambda>s k. (None, s)\<rparr>) (\<lambda>_. 0) ''k'' 7 500000000) = Ret d
     \<and> rd_allowed d \<and> rd_remaining d = 7 \<and> unat (rd_reset_secs d) = 1"
  using redis_fails_open [of "counting_redis\<lparr>redis_incr := \<lambda>s k. (None, s)\<rparr>" "\<lambda>_. 0" "''k''" 500000000 7]
  by (simp add: nanos_per_sec_def)

text \<open>The in-memory counter is a wrapping \<^verbatim>\<open>u32\<close>: after 2^32 - 1 requests in one window the next
  one is allowed again, with the full limit reported as remaining, however small the limit is.\<close>

theorem in_memory_counter_wraps:
  assumes "\<not> poisoned (lim_windows l)" and "guarded (lim_windows l) key = Some (start, - 1)"
    and "duration_since now start < window"
  shows "\<exists>d. fst (in_memory_check l key limit window now) = Ret d \<and> rd_allowed d \<and> rd_remaining d = limit"
  using assms
  by (simp add: in_memory_check_eq mem_usable_def in_memory_check_body_def window_entry_def
      saturating_sub_u32_def Let_def)

theorem in_memory_counter_wraps_witness:
  "\<exists>d. fst (in_memory_check \<lparr>lim_windows = mutex_new [''k'' \<mapsto> (0, - 1)]\<rparr> ''k'' 0 10 5) = Ret d
     \<and> rd_allowed d \<and> rd_remaining d = 0"
  using in_memory_counter_wraps [of "\<lparr>lim_windows = mutex_new [''k'' \<mapsto> (0, - 1)]\<rparr>" "''k''" 0 5 10 0]
  by (simp add: duration_since_def)

text \<open>A configured window of zero seconds switches the in-memory limiter off: every request
  opens a new window, so with a positive limit no request is ever refused.\<close>

theorem in_memory_zero_window_never_refuses:
  assumes "\<not> poisoned (lim_windows l)" and "0 < limit"
  shows "\<exists>d. fst (in_memory_check l key limit (from_secs 0) now) = Ret d \<and> rd_allowed d"
  using assms
  by (auto simp: in_memory_check_eq mem_usable_def in_memory_check_body_def window_entry_def
      from_secs_def word_le_nat_alt word_less_nat_alt Let_def)

theorem in_memory_zero_window_never_refuses_witness:
  "\<exists>d. fst (in_memory_check \<lparr>lim_windows = mutex_new [''k'' \<mapsto> (5, 100)]\<rparr> ''k'' 1 (from_secs 0) 5) = Ret d
     \<and> rd_allowed d"
  using in_memory_zero_window_never_refuses [of "\<lparr>lim_windows = mutex_new [''k'' \<mapsto> (5, 100)]\<rparr>" 1 "''k''" 5]
  by simp

end
