(* ===== verification/Telemetry.thy ===== *)
theory Telemetry
  imports Gateway_Prelude
begin

text \<open>
  The Prometheus collectors of \<^verbatim>\<open>crates/telemetry/src/lib.rs\<close> as values: a counter is the
  number of increments per label set, a gauge its last value, a histogram the list of what was
  observed. The exposition format and the bucket boundaries belong to the \<^verbatim>\<open>prometheus\<close>
  crate (the encoder is an argument of \<open>metrics_render\<close>); of the registry the model keeps the registered names, because
  registering a name twice makes \<^verbatim>\<open>Metrics::new\<close> panic.
\<close>

record metrics =
  mt_registry :: "string list"
  mt_requests :: "string \<times> string \<times> string \<Rightarrow> nat"
  mt_upstream_latency :: "string \<Rightarrow> duration list"
  mt_gateway_latency :: "string \<Rightarrow> duration list"
  mt_active_connections :: int
  mt_rate_limit_rejections :: "string \<Rightarrow> nat"
  mt_auth_rejections :: "string \<Rightarrow> nat"
  mt_upstream_errors :: "string \<Rightarrow> nat"
  mt_cache_hits :: "string \<Rightarrow> nat"
  mt_cache_misses :: "string \<Rightarrow> nat"
  mt_circuit_state :: "string \<times> string \<Rightarrow> int option"

definition inc :: "('l \<Rightarrow> nat) \<Rightarrow> 'l \<Rightarrow> 'l \<Rightarrow> nat" where
  "inc c l = c(l := Suc (c l))"

definition observe :: "('l \<Rightarrow> duration list) \<Rightarrow> 'l \<Rightarrow> duration \<Rightarrow> 'l \<Rightarrow> duration list" where
  "observe h l v = h(l := h l @ [v])"

text \<open>\<^verbatim>\<open>registry.register(..).unwrap()\<close>.\<close>

fun register_all :: "string list \<Rightarrow> string list \<Rightarrow> string list res" where
  "register_all [] registry = Ret registry"
| "register_all (name # names) registry =
     (if name \<in> set registry then Panic else register_all names (registry @ [name]))"

definition metrics_new :: "metrics res" where
  "metrics_new =
     (case register_all
        [''gw_requests_total'', ''gw_rate_limit_rejections_total'', ''gw_auth_rejections_total'',
         ''gw_upstream_errors_total'', ''gw_cache_hits_total'', ''gw_cache_misses_total'',
         ''gw_upstream_latency_seconds'', ''gw_gateway_latency_seconds'', ''gw_active_connections'',
         ''gw_circuit_breaker_state''] [] of
        Panic \<Rightarrow> Panic
      | Ret registry \<Rightarrow> Ret
          \<lparr>mt_registry = registry, mt_requests = (\<lambda>_. 0), mt_upstream_latency = (\<lambda>_. []),
           mt_gateway_latency = (\<lambda>_. []), mt_active_connections = 0,
           mt_rate_limit_rejections = (\<lambda>_. 0), mt_auth_rejections = (\<lambda>_. 0),
           mt_upstream_errors = (\<lambda>_. 0), mt_cache_hits = (\<lambda>_. 0), mt_cache_misses = (\<lambda>_. 0),
           mt_circuit_state = (\<lambda>_. None)\<rparr>)"

definition metrics_render :: "(metrics \<Rightarrow> 'bytes option) \<Rightarrow> ('bytes \<Rightarrow> string option) \<Rightarrow> metrics \<Rightarrow> string" where
  "metrics_render encode from_utf8 m =
     (case encode m of
        None \<Rightarrow> []
      | Some buf \<Rightarrow> (case from_utf8 buf of Some s \<Rightarrow> s | None \<Rightarrow> []))"

text \<open>
  \<^verbatim>\<open>init_tracing\<close>: the subscriber is set up by the first call only, with the filter of the
  environment or the default one. The cell holds what was installed; \<open>new\<close> makes a filter of a text.
\<close>

record 'f tracing_setup =
  ts_service :: string
  ts_json :: bool
  ts_filter :: 'f

definition init_tracing ::
  "'f option \<Rightarrow> (string \<Rightarrow> 'f) \<Rightarrow> 'f tracing_setup option \<Rightarrow> string \<Rightarrow> bool \<Rightarrow> 'f tracing_setup option" where
  "init_tracing default_env new cell service json =
     (case cell of
        Some t \<Rightarrow> Some t
      | None \<Rightarrow> Some \<lparr>ts_service = service, ts_json = json,
          ts_filter = (case default_env of Some f \<Rightarrow> f | None \<Rightarrow> new ''info,hyper=warn,reqwest=warn'')\<rparr>)"

lemma init_tracing_once:
  "init_tracing env' new' (init_tracing env new cell service json) service' json' = init_tracing env new cell service json"
  by (simp add: init_tracing_def split: option.split)

lemma metrics_new_total: "\<exists>m. metrics_new = Ret m \<and> length (mt_registry m) = 10"
  by (simp add: metrics_new_def)

lemma inc_other: "l' \<noteq> l \<Longrightarrow> inc c l l' = c l'"
  by (simp add: inc_def)

lemma inc_same: "inc c l l = Suc (c l)"
  by (simp add: inc_def)

end
