(* ===== verification/Gateway_State.thy ===== *)
theory Gateway_State
  imports Router Balancer Response_Cache Rate_Limit Telemetry
begin

text \<open>
  The shared runtime state, \<^verbatim>\<open>crates/gateway/src/state.rs\<close>: one runtime per route, the rate
  limiter and the metrics. What \<^verbatim>\<open>RedisLimiter::connect\<close> gives is the argument \<open>connect\<close>
  (the connection, or nothing when the server is unreachable); whether the HTTP client can be
  built is the argument \<open>client_ok\<close>.
\<close>

record route_runtime =
  rt_config :: route_config
  rt_balancer :: balancer
  rt_cache :: "response_cache option"

definition runtime_from_config :: "route_config \<Rightarrow> route_runtime" where
  "runtime_from_config route =
     \<lparr>rt_config = route,
      rt_balancer = from_route route,
      rt_cache = map_option (\<lambda>c. cache_new (from_secs (cc_ttl_secs c)) (cc_max_entries c)) (rc_cache route)\<rparr>"

record 's gateway_state =
  gs_config :: gateway_config
  gs_routes :: "string \<rightharpoonup> route_runtime"
  gs_limiter :: "'s limiter"
  gs_metrics :: metrics

definition insert_routes :: "route_config list \<Rightarrow> (string \<rightharpoonup> route_runtime) \<Rightarrow> (string \<rightharpoonup> route_runtime)" where
  "insert_routes rs m = fold (\<lambda>r m. m(rc_name r \<mapsto> runtime_from_config r)) rs m"

definition choose_limiter :: "(string \<Rightarrow> 's option) \<Rightarrow> string option \<Rightarrow> 's limiter" where
  "choose_limiter connect redis_url =
     (case redis_url of
        Some url \<Rightarrow> (case connect url of Some l \<Rightarrow> Redis l | None \<Rightarrow> InMemory in_memory_new)
      | None \<Rightarrow> InMemory in_memory_new)"

definition gateway_build ::
  "(string \<Rightarrow> 's option) \<Rightarrow> bool \<Rightarrow> gateway_config \<Rightarrow> metrics \<Rightarrow> 's gateway_state option" where
  "gateway_build connect client_ok config m =
     (if client_ok then Some
        \<lparr>gs_config = config, gs_routes = insert_routes (gc_routes config) (\<lambda>_. None),
         gs_limiter = choose_limiter connect (sc_redis_url (gc_server config)), gs_metrics = m\<rparr>
      else None)"

definition state_route :: "'s gateway_state \<Rightarrow> string \<Rightarrow> route_runtime option" where
  "state_route g name = gs_routes g name"

section \<open>Lemmas\<close>

lemma insert_routes_other: "name \<notin> rc_name ` set rs \<Longrightarrow> insert_routes rs m name = m name"
  by (induction rs arbitrary: m) (auto simp: insert_routes_def)

lemma insert_routes_in:
  "distinct (map rc_name rs) \<Longrightarrow> r \<in> set rs \<Longrightarrow> insert_routes rs m (rc_name r) = Some (runtime_from_config r)"
proof (induction rs arbitrary: m)
  case (Cons x rs)
  have step: "insert_routes (x # rs) m = insert_routes rs (m(rc_name x \<mapsto> runtime_from_config x))"
    by (simp add: insert_routes_def)
  show ?case
  proof (cases "r = x")
    case True
    with Cons.prems show ?thesis by (simp add: step insert_routes_other)
  next
    case False
    with Cons show ?thesis by (simp add: step)
  qed
qed simp

lemma insert_routes_Some:
  "insert_routes rs m name = Some rt \<Longrightarrow> m name = Some rt \<or> (\<exists>r \<in> set rs. rc_name r = name \<and> rt = runtime_from_config r)"
  by (induction rs arbitrary: m) (fastforce simp: insert_routes_def split: if_splits)+

definition runtime_ok :: "route_runtime \<Rightarrow> bool" where
  "runtime_ok rt \<longleftrightarrow> bal_ok (rt_balancer rt) \<and> (\<forall>c. rt_cache rt = Some c \<longrightarrow> cache_ok c)"

lemma cache_ok_new: "cache_ok (cache_new ttl cap)"
  using cache_new_inv [of ttl cap] by (simp add: cache_ok_def cache_new_def)

lemma runtime_ok_from_config: "rc_upstreams r \<noteq> [] \<Longrightarrow> runtime_ok (runtime_from_config r)"
  by (auto simp: runtime_ok_def runtime_from_config_def bal_ok_from_route cache_ok_new)

section \<open>Properties\<close>

text \<open>The state built from a validated configuration serves every route that can match: the
  runtime found under the name of a matched route was built from that very route, its balancer is
  well formed and its cache, if the route has one, is usable. So the handler's branch for a
  missing runtime is never taken.\<close>

theorem built_state_serves_matched_route:
  assumes "validate config = Inr ()" and "gateway_build connect client_ok config m = Some g"
    and "match_route (gs_config g) host path = Some r"
  shows "\<exists>rt. state_route g (rc_name r) = Some rt \<and> rt_config rt = r \<and> runtime_ok rt
     \<and> rt_balancer rt = from_route r \<and> (rt_cache rt = None \<longleftrightarrow> rc_cache r = None)"
proof -
  have g: "gs_config g = config" "gs_routes g = insert_routes (gc_routes config) (\<lambda>_. None)"
    using assms(2) by (auto simp: gateway_build_def split: if_splits)
  have v: "valid_config config" using assms(1) by (simp add: validate_Inr_iff)
  have r: "r \<in> set (gc_routes config)"
    using match_route_SomeD [OF assms(3)] g(1) by simp
  with v have "gs_routes g (rc_name r) = Some (runtime_from_config r)"
    by (simp add: g(2) insert_routes_in valid_config_def)
  moreover have "rc_upstreams r \<noteq> []" using v r by (auto simp: valid_config_def valid_route_def)
  ultimately show ?thesis
    using runtime_ok_from_config [of r] by (simp add: state_route_def runtime_from_config_def)
qed

definition zero_metrics :: metrics where
  "zero_metrics = (case metrics_new of Ret m \<Rightarrow> m)"

definition sample_state :: "unit gateway_state" where
  "sample_state = \<lparr>gs_config = sample_config, gs_routes = insert_routes (gc_routes sample_config) (\<lambda>_. None),
     gs_limiter = InMemory in_memory_new, gs_metrics = zero_metrics\<rparr>"

lemma sample_config_valid: "validate sample_config = Inr ()"
  by code_simp

lemma sample_state_built: "gateway_build (\<lambda>_. None) True sample_config zero_metrics = Some sample_state"
  by (simp add: gateway_build_def sample_state_def choose_limiter_def sample_config_def server_config_default_def)

theorem built_state_serves_matched_route_witness:
  "\<exists>rt. state_route sample_state ''users'' = Some rt
     \<and> rt_config rt = sample_route ''users'' None ''/api/users'' \<and> runtime_ok rt"
proof -
  have "match_route sample_config None ''/api/users/42'' = Some (sample_route ''users'' None ''/api/users'')"
    by code_simp
  then have "match_route (gs_config sample_state) None ''/api/users/42''
      = Some (sample_route ''users'' None ''/api/users'')"
    by (simp add: sample_state_def)
  from built_state_serves_matched_route [OF sample_config_valid sample_state_built this]
  show ?thesis by (auto simp: sample_route_def route_with_defaults_def)
qed

end
