(* ===== verification/Http_Headers.thy ===== *)
theory Http_Headers
  imports Gateway_Prelude
begin

text \<open>
  The interface of the \<^verbatim>\<open>http\<close> crate that the gateway uses. The crate is not part of the
  repository, so its operations are a parameter: a record of functions over an abstract type of
  header maps, which every definition that touches headers takes as an argument. A
  \<^verbatim>\<open>HeaderName\<close> is represented by its \<^verbatim>\<open>as_str()\<close> text and a \<^verbatim>\<open>HeaderValue\<close> by its
  bytes.

  The locale \<open>http_headers\<close> states the documented laws of these operations. It is a
  contract the theorems about headers assume; the multimap \<open>list_http\<close> below shows that it
  can be met and is what the witnesses compute with.
\<close>

record 'hm http_api =
  hm_new :: 'hm
  hm_get :: "'hm \<Rightarrow> string \<Rightarrow> string option"
  hm_insert :: "'hm \<Rightarrow> string \<Rightarrow> string \<Rightarrow> 'hm"
  hm_append :: "'hm \<Rightarrow> string \<Rightarrow> string \<Rightarrow> 'hm"
  hm_remove :: "'hm \<Rightarrow> string \<Rightarrow> 'hm"
  hm_iter :: "'hm \<Rightarrow> (string \<times> string) list"
  header_name :: "string \<Rightarrow> string option"
  header_value :: "string \<Rightarrow> string option"
  value_to_str :: "string \<Rightarrow> string option"

text \<open>\<^verbatim>\<open>headers.get(n).and_then(|v| v.to_str().ok())\<close>.\<close>

definition header_str :: "'hm http_api \<Rightarrow> 'hm \<Rightarrow> string \<Rightarrow> string option" where
  "header_str H h n = Option.bind (hm_get H h n) (value_to_str H)"

text \<open>The values of one name, in the order in which the map yields them.\<close>

definition values_of :: "'hm http_api \<Rightarrow> 'hm \<Rightarrow> string \<Rightarrow> string list" where
  "values_of H h n = map snd (filter (\<lambda>(m, v). m = n) (hm_iter H h))"

definition is_tchar :: "char \<Rightarrow> bool" where
  "is_tchar c \<longleftrightarrow> (let k = (of_char c :: nat) in
     48 \<le> k \<and> k \<le> 57 \<or> 65 \<le> k \<and> k \<le> 90 \<or> 97 \<le> k \<and> k \<le> 122
     \<or> c \<in> set ''!#$%&*+-.^_`|~'' \<or> k = 39)"

definition is_token :: "string \<Rightarrow> bool" where
  "is_token s \<longleftrightarrow> s \<noteq> [] \<and> length s < 65536 \<and> list_all is_tchar s"

definition visible_ascii :: "string \<Rightarrow> bool" where
  "visible_ascii s \<longleftrightarrow> list_all (\<lambda>c. 32 \<le> (of_char c :: nat) \<and> (of_char c :: nat) < 127) s"

lemma visible_show_nat [simp]: "visible_ascii (show_nat n)"
proof (induction n rule: show_nat.induct)
  case (1 n)
  have digit: "of_char (char_of (48 + d) :: char) = 48 + d" if "d < 10" for d :: nat
    using that by simp
  show ?case
    using 1 digit [of n] digit [of "n mod 10"]
    by (subst show_nat.simps) (auto simp: visible_ascii_def)
qed

section \<open>The contract\<close>

locale http_headers =
  fixes H :: "'hm http_api"
  assumes values_new: "values_of H (hm_new H) n = []"
    and values_insert: "values_of H (hm_insert H h n v) m = (if m = n then [v] else values_of H h m)"
    and values_append: "values_of H (hm_append H h n v) m
          = (if m = n then values_of H h n @ [v] else values_of H h m)"
    and values_remove: "values_of H (hm_remove H h n) m = (if m = n then [] else values_of H h m)"
    and get_first: "hm_get H h n = (case values_of H h n of [] \<Rightarrow> None | v # _ \<Rightarrow> Some v)"
    and name_valid: "is_token s \<Longrightarrow> header_name H s = Some (to_ascii_lowercase s)"
    and name_lower: "header_name H s = Some n \<Longrightarrow> n = to_ascii_lowercase s"
    and value_valid: "visible_ascii s \<Longrightarrow> header_value H s = Some s"
    and value_same: "header_value H s = Some v \<Longrightarrow> v = s"
    and to_str_visible: "visible_ascii v \<Longrightarrow> value_to_str H v = Some v"
    and to_str_same: "value_to_str H v = Some s \<Longrightarrow> s = v"
    and to_str_valid: "value_to_str H v = Some s \<Longrightarrow> header_value H s = Some s"
begin

lemma get_insert: "hm_get H (hm_insert H h n v) m = (if m = n then Some v else hm_get H h m)"
  by (simp add: get_first values_insert)

lemma get_new: "hm_get H (hm_new H) n = None"
  by (simp add: get_first values_new)

lemma get_remove: "hm_get H (hm_remove H h n) m = (if m = n then None else hm_get H h m)"
  by (simp add: get_first values_remove)

lemma header_str_insert:
  "header_str H (hm_insert H h n v) m = (if m = n then value_to_str H v else header_str H h m)"
  by (simp add: header_str_def get_insert)

lemma get_None_iff: "hm_get H h n = None \<longleftrightarrow> values_of H h n = []"
  by (simp add: get_first split: list.splits)

end

section \<open>A multimap that meets the contract\<close>

type_synonym header_list = "(string \<times> string) list"

definition list_http :: "header_list http_api" where
  "list_http =
     \<lparr>hm_new = [],
      hm_get = map_of,
      hm_insert = (\<lambda>h n v. filter (\<lambda>(m, _). m \<noteq> n) h @ [(n, v)]),
      hm_append = (\<lambda>h n v. h @ [(n, v)]),
      hm_remove = (\<lambda>h n. filter (\<lambda>(m, _). m \<noteq> n) h),
      hm_iter = (\<lambda>h. h),
      header_name = (\<lambda>s. if is_token s then Some (to_ascii_lowercase s) else None),
      header_value = (\<lambda>s. if visible_ascii s then Some s else None),
      value_to_str = (\<lambda>s. if visible_ascii s then Some s else None)\<rparr>"

lemma list_http_sel [simp]:
  "hm_new list_http = []"
  "hm_get list_http = map_of"
  "hm_insert list_http = (\<lambda>h n v. filter (\<lambda>(m, _). m \<noteq> n) h @ [(n, v)])"
  "hm_append list_http = (\<lambda>h n v. h @ [(n, v)])"
  "hm_remove list_http = (\<lambda>h n. filter (\<lambda>(m, _). m \<noteq> n) h)"
  "hm_iter list_http = (\<lambda>h. h)"
  "header_name list_http = (\<lambda>s. if is_token s then Some (to_ascii_lowercase s) else None)"
  "header_value list_http = (\<lambda>s. if visible_ascii s then Some s else None)"
  "value_to_str list_http = (\<lambda>s. if visible_ascii s then Some s else None)"
  by (simp_all add: list_http_def)

lemmas http_eval = is_token_def is_tchar_def visible_ascii_def to_ascii_lowercase_def char_lower_def
  char_of_def bit_Suc_0_iff

lemma map_of_first:
  "map_of h n = (case map snd (filter (\<lambda>(m, v). m = n) h) of [] \<Rightarrow> None | v # _ \<Rightarrow> Some v)"
  by (induction h) auto

lemma filter_other_name:
  "map snd (filter (\<lambda>(m, v). m = k) (filter (\<lambda>(m, _). m \<noteq> n) h))
     = (if k = n then [] else map snd (filter (\<lambda>(m, v). m = k) h))"
  by (induction h) auto

interpretation list_headers: http_headers list_http
  by unfold_locales
    (auto simp: values_of_def map_of_first filter_other_name simp del: filter_filter split: if_splits)

end
