(* ===== verification/Transform.thy ===== *)
theory Transform
  imports Http_Headers Gateway_Config
begin

text \<open>
  Header handling, \<^verbatim>\<open>crates/gateway/src/transform.rs\<close>: hop-by-hop stripping, the
  forwarding headers and the configured add and remove transforms.
\<close>

section \<open>Definitions\<close>

definition HOP_BY_HOP :: "string list" where
  "HOP_BY_HOP =
     [''connection'', ''keep-alive'', ''proxy-authenticate'', ''proxy-authorization'', ''te'',
      ''trailer'', ''transfer-encoding'', ''upgrade'', ''host'', ''content-length'']"

definition is_hop_by_hop :: "string \<Rightarrow> bool" where
  "is_hop_by_hop name = list_ex (\<lambda>h. eq_ignore_ascii_case name h) HOP_BY_HOP"

text \<open>The copying loop shared by the request and the response side.\<close>

fun copy_end_to_end :: "'hm http_api \<Rightarrow> (string \<times> string) list \<Rightarrow> 'hm \<Rightarrow> 'hm" where
  "copy_end_to_end H [] out = out"
| "copy_end_to_end H ((name, value) # rest) out =
     copy_end_to_end H rest (if \<not> is_hop_by_hop name then hm_append H out name value else out)"

text \<open>\<^verbatim>\<open>set\<close>: a static name, and a value that is dropped when it is not a header value.\<close>

definition set_static :: "'hm http_api \<Rightarrow> string \<Rightarrow> string \<Rightarrow> 'hm \<Rightarrow> 'hm" where
  "set_static H name value headers =
     (case header_value H value of None \<Rightarrow> headers | Some v \<Rightarrow> hm_insert H headers name v)"

definition forwarded_request_headers ::
  "'hm http_api \<Rightarrow> 'hm \<Rightarrow> string \<Rightarrow> string \<Rightarrow> string \<Rightarrow> 'hm" where
  "forwarded_request_headers H incoming client_ip host scheme =
     (let out = copy_end_to_end H (hm_iter H incoming) (hm_new H);
          xff = (case header_str H incoming ''x-forwarded-for'' of
                   Some existing \<Rightarrow> existing @ '', '' @ client_ip
                 | None \<Rightarrow> client_ip);
          out = set_static H ''x-forwarded-for'' xff out;
          out = set_static H ''x-real-ip'' client_ip out;
          out = set_static H ''x-forwarded-host'' host out;
          out = set_static H ''x-forwarded-proto'' scheme out
      in out)"

definition filtered_response_headers :: "'hm http_api \<Rightarrow> 'hm \<Rightarrow> 'hm" where
  "filtered_response_headers H incoming = copy_end_to_end H (hm_iter H incoming) (hm_new H)"

definition remove_header :: "'hm http_api \<Rightarrow> string \<Rightarrow> 'hm \<Rightarrow> 'hm" where
  "remove_header H name headers =
     (case header_name H name of None \<Rightarrow> headers | Some h \<Rightarrow> hm_remove H headers h)"

definition set_header :: "'hm http_api \<Rightarrow> string \<Rightarrow> string \<Rightarrow> 'hm \<Rightarrow> 'hm" where
  "set_header H name value headers =
     (case (header_name H name, header_value H value) of
        (Some n, Some v) \<Rightarrow> hm_insert H headers n v
      | _ \<Rightarrow> headers)"

definition apply_transforms :: "'hm http_api \<Rightarrow> header_transforms \<Rightarrow> 'hm \<Rightarrow> 'hm" where
  "apply_transforms H t headers =
     fold (\<lambda>(name, value). set_header H name value) (ht_add t)
       (fold (remove_header H) (ht_remove t) headers)"

section \<open>Specification\<close>

definition forwarding_names :: "string list" where
  "forwarding_names = [''x-forwarded-for'', ''x-real-ip'', ''x-forwarded-host'', ''x-forwarded-proto'']"

text \<open>The value that the add list gives a name: the last entry for it that is well formed.\<close>

definition added_value :: "'hm http_api \<Rightarrow> (string \<times> string) list \<Rightarrow> string \<Rightarrow> string option" where
  "added_value H adds n =
     map_of (rev (List.map_filter (\<lambda>(k, v). case (header_name H k, header_value H v) of
        (Some k', Some v') \<Rightarrow> Some (k', v') | _ \<Rightarrow> None) adds)) n"

definition removed_name :: "'hm http_api \<Rightarrow> string list \<Rightarrow> string \<Rightarrow> bool" where
  "removed_name H rs n \<longleftrightarrow> Some n \<in> header_name H ` set rs"

section \<open>Lemmas\<close>

lemma is_hop_by_hop_lower: "is_hop_by_hop (to_ascii_lowercase n) = is_hop_by_hop n"
  by (simp add: is_hop_by_hop_def eq_ignore_ascii_case_def)

lemma forwarding_names_end_to_end: "list_all (\<lambda>n. \<not> is_hop_by_hop n) forwarding_names"
  by code_simp

context http_headers
begin

lemma values_set_static:
  "values_of H (set_static H n v h) m =
     (if m = n \<and> header_value H v \<noteq> None then [v] else values_of H h m)"
  by (auto simp: set_static_def values_insert dest: value_same split: option.splits)

lemma values_set_header:
  "values_of H (set_header H n v h) m =
     (if header_name H n = Some m \<and> header_value H v \<noteq> None then [v] else values_of H h m)"
  by (auto simp: set_header_def values_insert dest: value_same split: option.splits)

lemma values_remove_header:
  "values_of H (remove_header H n h) m = (if header_name H n = Some m then [] else values_of H h m)"
  by (auto simp: remove_header_def values_remove split: option.splits)

lemma values_copy_end_to_end:
  "values_of H (copy_end_to_end H xs out) n =
     values_of H out n @ (if is_hop_by_hop n then [] else map snd (filter (\<lambda>(m, v). m = n) xs))"
  by (induction xs arbitrary: out) (auto simp: values_append)

lemma values_filtered:
  "values_of H (filtered_response_headers H h) n = (if is_hop_by_hop n then [] else values_of H h n)"
  unfolding filtered_response_headers_def
  by (simp add: values_copy_end_to_end values_new values_of_def [of H h])

lemma values_remove_all:
  "values_of H (fold (remove_header H) rs h) n = (if removed_name H rs n then [] else values_of H h n)"
  by (induction rs arbitrary: h) (auto simp: values_remove_header removed_name_def)

lemma values_add_all:
  "values_of H (fold (\<lambda>(name, value). set_header H name value) adds h) n =
     (case added_value H adds n of Some v \<Rightarrow> [v] | None \<Rightarrow> values_of H h n)"
proof (induction adds arbitrary: h)
  case Nil
  then show ?case by (simp add: added_value_def)
next
  case (Cons a adds)
  obtain k v where a: "a = (k, v)" by (cases a)
  have "added_value H (a # adds) n =
      (case added_value H adds n of
         Some w \<Rightarrow> Some w
       | None \<Rightarrow> if header_name H k = Some n \<and> header_value H v \<noteq> None then Some v else None)"
    by (auto simp: a added_value_def map_add_def dest: value_same split: option.splits)
  with Cons.IH [of "set_header H k v h"] show ?case
    by (auto simp: a values_set_header split: option.splits)
qed

lemma values_apply_transforms:
  "values_of H (apply_transforms H t h) n =
     (case added_value H (ht_add t) n of
        Some v \<Rightarrow> [v]
      | None \<Rightarrow> if removed_name H (ht_remove t) n then [] else values_of H h n)"
  by (simp add: apply_transforms_def values_add_all values_remove_all split: option.split)

lemma values_forwarded_other:
  "n \<notin> set forwarding_names \<Longrightarrow>
   values_of H (forwarded_request_headers H h ip host scheme) n = (if is_hop_by_hop n then [] else values_of H h n)"
  by (auto simp: forwarded_request_headers_def forwarding_names_def Let_def values_set_static
      values_copy_end_to_end values_new values_of_def [of H h])

lemma values_forwarded_xff:
  assumes "header_value H xff \<noteq> None"
    and "xff = (case header_str H h ''x-forwarded-for'' of
                  Some existing \<Rightarrow> existing @ '', '' @ ip | None \<Rightarrow> ip)"
  shows "values_of H (forwarded_request_headers H h ip host scheme) ''x-forwarded-for'' = [xff]"
  using assms by (simp add: forwarded_request_headers_def Let_def values_set_static)

end

lemma hop_by_hop_not_forwarding: "is_hop_by_hop n \<Longrightarrow> n \<notin> set forwarding_names"
  using forwarding_names_end_to_end by (auto simp: list_all_iff)

section \<open>Properties\<close>

text \<open>Hop-by-hop headers do not cross the gateway: neither the headers sent upstream nor the
  headers of the response returned to the client hold a value for a hop-by-hop name, whatever
  the incoming headers are.\<close>

theorem hop_by_hop_stripped:
  assumes "http_headers H" and "is_hop_by_hop n"
  shows "values_of H (forwarded_request_headers H h ip host scheme) n = []
     \<and> values_of H (filtered_response_headers H h) n = []"
  using assms(2) http_headers.values_filtered [OF assms(1), of h n]
    http_headers.values_forwarded_other [OF assms(1) hop_by_hop_not_forwarding [OF assms(2)], of h ip host scheme]
  by simp

theorem hop_by_hop_stripped_witness:
  "values_of list_http (forwarded_request_headers list_http
      [(''connection'', ''keep-alive''), (''x-custom'', ''v'')] ''1.2.3.4'' ''example.com'' ''http'')
     ''connection'' = []"
proof -
  have "is_hop_by_hop ''connection''" by code_simp
  from hop_by_hop_stripped [OF list_headers.http_headers_axioms this] show ?thesis by blast
qed

text \<open>End-to-end headers cross the gateway unchanged: every name that is neither hop-by-hop nor
  one of the four forwarding headers has upstream exactly the values it came with, all of them
  and in the same order, and every response header that is not hop-by-hop has the values the
  upstream sent.\<close>

theorem end_to_end_preserved:
  assumes "http_headers H" and "\<not> is_hop_by_hop n" and "n \<notin> set forwarding_names"
  shows "values_of H (forwarded_request_headers H h ip host scheme) n = values_of H h n
     \<and> values_of H (filtered_response_headers H h) n = values_of H h n"
  using assms(2) http_headers.values_filtered [OF assms(1), of h n]
    http_headers.values_forwarded_other [OF assms(1,3), of h ip host scheme]
  by simp

theorem end_to_end_preserved_witness:
  "values_of list_http (filtered_response_headers list_http
      [(''set-cookie'', ''a''), (''te'', ''x''), (''set-cookie'', ''b'')]) ''set-cookie'' = [''a'', ''b'']"
proof -
  have "\<not> is_hop_by_hop ''set-cookie''" "''set-cookie'' \<notin> set forwarding_names" by code_simp+
  from end_to_end_preserved [OF list_headers.http_headers_axioms this,
      of "[(''set-cookie'', ''a''), (''te'', ''x''), (''set-cookie'', ''b'')]"]
  show ?thesis by (simp add: values_of_def)
qed

text \<open>The forwarding headers say what the gateway was told: when the texts are printable, the
  upstream sees exactly one X-Forwarded-For value, the incoming chain extended by the client
  address (or the address alone), and exactly the given address, host and scheme in
  X-Real-IP, X-Forwarded-Host and X-Forwarded-Proto.\<close>

theorem forwarding_headers_set:
  assumes "http_headers H" and "visible_ascii ip" and "visible_ascii host" and "visible_ascii scheme"
    and "\<And>existing. header_str H h ''x-forwarded-for'' = Some existing \<Longrightarrow> visible_ascii existing"
  shows "values_of H (forwarded_request_headers H h ip host scheme) ''x-forwarded-for''
       = [case header_str H h ''x-forwarded-for'' of Some existing \<Rightarrow> existing @ '', '' @ ip | None \<Rightarrow> ip]
     \<and> values_of H (forwarded_request_headers H h ip host scheme) ''x-real-ip'' = [ip]
     \<and> values_of H (forwarded_request_headers H h ip host scheme) ''x-forwarded-host'' = [host]
     \<and> values_of H (forwarded_request_headers H h ip host scheme) ''x-forwarded-proto'' = [scheme]"
proof -
  define xff where "xff = (case header_str H h ''x-forwarded-for'' of
      Some existing \<Rightarrow> existing @ '', '' @ ip | None \<Rightarrow> ip)"
  have "visible_ascii xff"
    using assms(2,5) by (auto simp: xff_def visible_ascii_def split: option.splits)
  then have "header_value H xff \<noteq> None" "header_value H ip \<noteq> None" "header_value H host \<noteq> None"
    "header_value H scheme \<noteq> None"
    using http_headers.value_valid [OF assms(1)] assms(2-4) by simp_all
  then show ?thesis
    unfolding xff_def [symmetric]
    by (simp add: forwarded_request_headers_def Let_def http_headers.values_set_static [OF assms(1)]
        xff_def [symmetric])
qed

theorem forwarding_headers_set_witness:
  "values_of list_http (forwarded_request_headers list_http [(''x-forwarded-for'', ''10.0.0.1'')]
      ''1.2.3.4'' ''h'' ''http'') ''x-forwarded-for'' = [''10.0.0.1, 1.2.3.4'']"
proof -
  have v: "visible_ascii ''1.2.3.4''" "visible_ascii ''h''" "visible_ascii ''http''"
    "visible_ascii ''10.0.0.1''" by code_simp+
  have s: "header_str list_http [(''x-forwarded-for'', ''10.0.0.1'')] ''x-forwarded-for'' = Some ''10.0.0.1''"
    using v(4) by (simp add: header_str_def)
  from forwarding_headers_set [OF list_headers.http_headers_axioms v(1-3),
      of "[(''x-forwarded-for'', ''10.0.0.1'')]"] s v(4)
  show ?thesis by simp
qed

text \<open>The configured transforms, exactly: after them a name has the one value that the last
  well-formed entry of the add list gives it; if there is none, it has no value when the remove
  list names it, and its old values otherwise.\<close>

theorem apply_transforms_spec:
  assumes "http_headers H"
  shows "values_of H (apply_transforms H t h) n =
     (case added_value H (ht_add t) n of
        Some v \<Rightarrow> [v]
      | None \<Rightarrow> if removed_name H (ht_remove t) n then [] else values_of H h n)"
  using assms by (rule http_headers.values_apply_transforms)

theorem apply_transforms_spec_witness:
  "values_of list_http (apply_transforms list_http \<lparr>ht_add = [(''X-Add'', ''yes'')], ht_remove = [''x-drop'']\<rparr>
      [(''x-drop'', ''1''), (''x-keep'', ''2'')]) ''x-drop'' = []
   \<and> values_of list_http (apply_transforms list_http \<lparr>ht_add = [(''X-Add'', ''yes'')], ht_remove = [''x-drop'']\<rparr>
      [(''x-drop'', ''1''), (''x-keep'', ''2'')]) ''x-add'' = [''yes'']"
proof -
  let ?t = "\<lparr>ht_add = [(''X-Add'', ''yes'')], ht_remove = [''x-drop'']\<rparr>"
  have "added_value list_http (ht_add ?t) ''x-drop'' = None"
    "added_value list_http (ht_add ?t) ''x-add'' = Some ''yes''"
    "removed_name list_http (ht_remove ?t) ''x-drop''"
    by (simp_all add: added_value_def removed_name_def http_eval)
  then show ?thesis
    unfolding apply_transforms_spec [OF list_headers.http_headers_axioms] by simp
qed

text \<open>Applying the transforms twice is the same as applying them once, for every name. The
  gateway relies on it: a response that is served from the cache was transformed when it
  was stored and is transformed again when it is returned.\<close>

theorem apply_transforms_idempotent:
  assumes "http_headers H"
  shows "values_of H (apply_transforms H t (apply_transforms H t h)) n = values_of H (apply_transforms H t h) n"
  by (simp add: http_headers.values_apply_transforms [OF assms] split: option.split)

theorem apply_transforms_idempotent_witness:
  "values_of list_http (apply_transforms list_http \<lparr>ht_add = [(''a'', ''1'')], ht_remove = []\<rparr>
      (apply_transforms list_http \<lparr>ht_add = [(''a'', ''1'')], ht_remove = []\<rparr> [(''a'', ''0'')])) ''a''
   = values_of list_http (apply_transforms list_http \<lparr>ht_add = [(''a'', ''1'')], ht_remove = []\<rparr> [(''a'', ''0'')]) ''a''"
  by (rule apply_transforms_idempotent [OF list_headers.http_headers_axioms])

end
