(* ===== verification/Auth.thy ===== *)
theory Auth
  imports Gateway_Config Http_Headers
begin

text \<open>
  Per-route authentication, \<^verbatim>\<open>crates/gateway/src/auth.rs\<close>. Header access goes through the
  \<open>http_api\<close> parameter; \<^verbatim>\<open>jsonwebtoken::decode\<close> is the parameter \<open>decode\<close>, a function
  of the token, the secret and the validation settings the source builds, that gives the claims
  of a token it accepts.
\<close>

section \<open>Definitions\<close>

text \<open>\<^verbatim>\<open>serde_json::Value\<close>; a number stands by its text.\<close>

datatype json_value =
    JNull | JBool bool | JNumber string | JString string
  | JArray "json_value list" | JObject "(string \<times> json_value) list"

datatype jwt_algorithm = HS256 | HS384 | HS512

record jwt_validation =
  jv_algorithm :: jwt_algorithm
  jv_validate_exp :: bool
  jv_validate_aud :: bool

type_synonym claims = "string \<rightharpoonup> json_value"
type_synonym jwt_decode = "string \<Rightarrow> string \<Rightarrow> jwt_validation \<Rightarrow> claims option"

fun ok_or :: "'a option \<Rightarrow> 'e \<Rightarrow> 'e + 'a" where
  "ok_or (Some a) e = Inr a"
| "ok_or None e = Inl e"

definition extract_api_key :: "'hm http_api \<Rightarrow> 'hm \<Rightarrow> string option" where
  "extract_api_key H headers =
     (let from_auth =
        (case header_str H headers ''authorization'' of
           None \<Rightarrow> None
         | Some auth \<Rightarrow>
             (let key = trim (case strip_prefix auth ''Bearer '' of Some r \<Rightarrow> r | None \<Rightarrow> auth)
              in if key \<noteq> [] then Some key else None))
      in case header_str H headers ''x-api-key'' of
           Some v \<Rightarrow> if v \<noteq> [] then Some v else from_auth
         | None \<Rightarrow> from_auth)"

definition bearer_token :: "'hm http_api \<Rightarrow> 'hm \<Rightarrow> string option" where
  "bearer_token H headers =
     Option.bind (header_str H headers ''authorization'') (\<lambda>auth.
     Option.bind (strip_prefix auth ''Bearer '') (\<lambda>t.
       let t = trim t in if t \<noteq> [] then Some t else None))"

fun value_as_string :: "json_value \<Rightarrow> string option" where
  "value_as_string (JString s) = Some s"
| "value_as_string (JNumber n) = Some n"
| "value_as_string (JBool b) = Some (if b then ''true'' else ''false'')"
| "value_as_string _ = None"

fun check_claims :: "claims \<Rightarrow> (string \<times> string) list \<Rightarrow> string + unit" where
  "check_claims cl [] = Inr ()"
| "check_claims cl ((k, want) # required) =
     (if Option.bind (cl k) value_as_string \<noteq> Some want then Inl ''required claim not satisfied''
      else check_claims cl required)"

definition jwt_settings :: jwt_validation where
  "jwt_settings = \<lparr>jv_algorithm = HS256, jv_validate_exp = True, jv_validate_aud = False\<rparr>"

definition validate_jwt ::
  "'hm http_api \<Rightarrow> jwt_decode \<Rightarrow> 'hm \<Rightarrow> string \<Rightarrow> (string \<times> string) list \<Rightarrow> string + unit" where
  "validate_jwt H decode headers secret required =
     and_then (ok_or (bearer_token H headers) ''missing bearer token'') (\<lambda>token.
     and_then (ok_or (decode token secret jwt_settings) ''invalid or expired token'') (\<lambda>cl.
       check_claims cl required))"

fun authorize :: "'hm http_api \<Rightarrow> jwt_decode \<Rightarrow> auth_policy \<Rightarrow> 'hm \<Rightarrow> string + unit" where
  "authorize H decode AuthNone headers = Inr ()"
| "authorize H decode (ApiKey keys) headers =
     and_then (ok_or (extract_api_key H headers) ''missing API key'') (\<lambda>presented.
       if list_ex (\<lambda>k. k = presented) keys then Inr () else Inl ''invalid API key'')"
| "authorize H decode (Jwt secret required) headers = validate_jwt H decode headers secret required"

section \<open>Lemmas\<close>

lemma ok_or_Inr [simp]: "ok_or x e = Inr a \<longleftrightarrow> x = Some a"
  by (cases x) auto

lemma check_claims_ok:
  "check_claims cl required = Inr () \<longleftrightarrow>
     (\<forall>(k, want) \<in> set required. \<exists>v. cl k = Some v \<and> value_as_string v = Some want)"
  by (induction cl required rule: check_claims.induct) (auto simp: bind_eq_Some_conv)

lemma trim_sublist: "sublist (trim s) s"
proof -
  obtain z where "dropWhile is_space s = trim s @ z"
    unfolding trim_def by (metis split_strip_while_append)
  then have "s = takeWhile is_space s @ trim s @ z"
    by (metis takeWhile_dropWhile_id)
  then show ?thesis by (metis sublist_appendI)
qed

lemma trim_id: "s \<noteq> [] \<Longrightarrow> \<not> is_space (hd s) \<Longrightarrow> \<not> is_space (last s) \<Longrightarrow> trim s = s"
  by (cases s) (auto simp: trim_def strip_while_idem_iff no_trailing_unfold split: if_splits)

lemma bearer_token_Some:
  "bearer_token H h = Some t \<longleftrightarrow>
     (\<exists>raw. header_str H h ''authorization'' = Some (''Bearer '' @ raw) \<and> t = trim raw \<and> t \<noteq> [])"
  by (auto simp: bearer_token_def bind_eq_Some_conv strip_prefix_Some Let_def)

lemma extract_api_key_source:
  assumes "extract_api_key H h = Some k"
  shows "k \<noteq> [] \<and> (header_str H h ''x-api-key'' = Some k
     \<or> (\<exists>auth. header_str H h ''authorization'' = Some auth \<and> sublist k auth))"
proof -
  have "sublist (trim r) auth" if "strip_prefix auth ''Bearer '' = Some r" for auth r
    using that trim_sublist [of r] sublist_append_leftI [of r "''Bearer ''"]
    by (auto simp: strip_prefix_Some intro: sublist_order.order_trans)
  with assms trim_sublist show ?thesis
    by (auto simp: extract_api_key_def Let_def split: option.splits if_splits)
qed

section \<open>Properties\<close>

text \<open>C38. An API-key route lets a request through only if it carries one of the configured keys, not
  empty: as the whole text of \<^verbatim>\<open>x-api-key\<close>, or inside the \<^verbatim>\<open>authorization\<close> header.\<close>

theorem api_key_required:
  assumes "authorize H decode (ApiKey keys) h = Inr ()"
  shows "\<exists>k \<in> set keys. k \<noteq> [] \<and> (header_str H h ''x-api-key'' = Some k
     \<or> (\<exists>auth. header_str H h ''authorization'' = Some auth \<and> sublist k auth))"
proof -
  from assms obtain k where k: "k \<in> set keys" "extract_api_key H h = Some k"
    by (auto simp: and_then_Inr_iff list_ex_iff split: if_splits)
  show ?thesis using extract_api_key_source [OF k(2)] by (intro bexI [OF _ k(1)])
qed

theorem api_key_required_witness:
  "\<exists>k \<in> {''s3cret''}. k \<noteq> [] \<and> (header_str list_http [(''authorization'', ''Bearer s3cret '')] ''x-api-key'' = Some k
     \<or> (\<exists>auth. header_str list_http [(''authorization'', ''Bearer s3cret '')] ''authorization'' = Some auth
          \<and> sublist k auth))"
proof -
  have "authorize list_http (\<lambda>_ _ _. None) (ApiKey [''s3cret'']) [(''authorization'', ''Bearer s3cret '')] = Inr ()"
    by (simp add: extract_api_key_def header_str_def visible_ascii_def strip_prefix_def trim_def is_space_def
        strip_while_def)
  from api_key_required [OF this] show ?thesis by simp
qed

text \<open>A configured key opens its route, whatever else the request carries, when it is the
  \<^verbatim>\<open>x-api-key\<close> header, and when it is the \<^verbatim>\<open>authorization\<close> header with or without the
  \<^verbatim>\<open>Bearer\<close> prefix and \<^verbatim>\<open>x-api-key\<close> is absent (for keys of visible characters that
  do not start or end with a blank).\<close>

theorem api_key_accepted:
  assumes "http_headers H" and "k \<in> set keys" and "k \<noteq> []" and "visible_ascii k"
    and "\<not> is_space (hd k)" and "\<not> is_space (last k)" and "\<not> starts_with k ''Bearer ''"
  shows "(hm_get H h ''x-api-key'' = Some k \<longrightarrow> authorize H decode (ApiKey keys) h = Inr ())
    \<and> (hm_get H h ''x-api-key'' = None \<and> hm_get H h ''authorization'' \<in> {Some (''Bearer '' @ k), Some k}
         \<longrightarrow> authorize H decode (ApiKey keys) h = Inr ())"
proof -
  have vis: "value_to_str H k = Some k" "value_to_str H (''Bearer '' @ k) = Some (''Bearer '' @ k)"
    using assms(1,4) by (auto intro!: http_headers.to_str_visible simp: visible_ascii_def)
  have "strip_prefix k ''Bearer '' = None" using assms(7) by (simp add: strip_prefix_None)
  moreover have "strip_prefix (''Bearer '' @ k) ''Bearer '' = Some k" by (simp add: strip_prefix_Some)
  moreover have "list_ex (\<lambda>x. x = k) keys" using assms(2) by (auto simp: list_ex_iff)
  ultimately show ?thesis
    using assms(3) vis trim_id [OF assms(3,5,6)]
    by (auto simp: extract_api_key_def header_str_def)
qed

theorem api_key_accepted_witness:
  "authorize list_http (\<lambda>_ _ _. None) (ApiKey [''k1'', ''k2'']) [(''x-api-key'', ''k2'')] = Inr ()
   \<and> authorize list_http (\<lambda>_ _ _. None) (ApiKey [''k1'', ''k2'']) [(''authorization'', ''Bearer k2'')] = Inr ()"
proof -
  have "visible_ascii ''k2''" "\<not> is_space (hd ''k2'')" "\<not> is_space (last ''k2'')"
    "\<not> starts_with ''k2'' ''Bearer ''"
    by (simp_all add: visible_ascii_def is_space_def starts_with_def)
  from api_key_accepted [OF list_headers.http_headers_axioms _ _ this, of "[''k1'', ''k2'']"]
  show ?thesis by simp
qed

text \<open>C39. A JWT route lets a request through exactly when its \<^verbatim>\<open>authorization\<close> header carries,
  after \<^verbatim>\<open>Bearer\<close>, a token the decoder accepts under the route's secret with HS256 and expiry
  checking on, and every required claim is present as a string, number or boolean with the wanted
  text.\<close>

theorem jwt_authorized_iff:
  "authorize H decode (Jwt secret required) h = Inr () \<longleftrightarrow>
     (\<exists>raw cl. header_str H h ''authorization'' = Some (''Bearer '' @ raw) \<and> trim raw \<noteq> []
        \<and> decode (trim raw) secret \<lparr>jv_algorithm = HS256, jv_validate_exp = True, jv_validate_aud = False\<rparr>
            = Some cl
        \<and> (\<forall>(k, want) \<in> set required. \<exists>v. cl k = Some v \<and> value_as_string v = Some want))"
  by (auto simp: validate_jwt_def and_then_Inr_iff bearer_token_Some check_claims_ok jwt_settings_def)

theorem jwt_authorized_iff_witness:
  "authorize list_http (\<lambda>t s v. if t = ''tok'' \<and> s = ''sec'' \<and> jv_validate_exp v
       then Some [''sub'' \<mapsto> JString ''u1'', ''adm'' \<mapsto> JBool True] else None)
     (Jwt ''sec'' [(''sub'', ''u1''), (''adm'', ''true'')]) [(''authorization'', ''Bearer tok'')] = Inr ()"
proof -
  have "header_str list_http [(''authorization'', ''Bearer tok'')] ''authorization'' = Some (''Bearer '' @ ''tok'')"
    "trim ''tok'' = ''tok''"
    by (simp_all add: header_str_def visible_ascii_def trim_def is_space_def)
  then show ?thesis
    unfolding jwt_authorized_iff by (intro exI conjI) (auto simp: split: if_splits)
qed

text \<open>A protected route denies a request without credentials: with neither header there is no
  policy but \<^verbatim>\<open>none\<close> under which it is authorised, and the reason is the missing credential.\<close>

theorem no_credentials_denied:
  assumes "hm_get H h ''x-api-key'' = None" and "hm_get H h ''authorization'' = None" and "policy \<noteq> AuthNone"
  shows "authorize H decode policy h \<in> {Inl ''missing API key'', Inl ''missing bearer token''}"
  using assms
  by (cases policy) (simp_all add: extract_api_key_def validate_jwt_def bearer_token_def header_str_def)

theorem no_credentials_denied_witness:
  "authorize list_http (\<lambda>_ _ _. Some (\<lambda>_. None)) (Jwt ''sec'' []) [(''host'', ''x'')]
     \<in> {Inl ''missing API key'', Inl ''missing bearer token''}"
  by (rule no_credentials_denied) simp_all

end
