(* ===== verification/Proxy.thy ===== *)
theory Proxy
  imports Gateway_State Transform Auth
begin

text \<open>
  The request handler, \<^verbatim>\<open>crates/gateway/src/proxy.rs\<close>. A request runs as one task; what it
  shares with other tasks is the record \<open>shared\<close>: metrics, limiter, and the balancer and the
  cache of the matched route. Everything the handler reads from outside the program is a field of
  the record \<open>env\<close>: the \<^verbatim>\<open>http\<close> crate, the JWT decoder, the Redis commands, the HTTP client
  (the result of the call of attempt \<open>n\<close>), the body reader, the UUID and the peer address, the
  iteration order of a \<^verbatim>\<open>HashMap\<close>, and the clock readings. At every \<^verbatim>\<open>.await\<close> other
  tasks may run: \<open>e_others\<close> is what they do to the shared state there; and there, and only
  there, the handler's future may be dropped (the client is gone): \<open>e_dropped\<close>. A task that
  panics and a task whose future is dropped both end without a response after the destructors of
  what they hold have run, so both are the value \<open>Panic\<close>, with the state left behind.

  The field \<open>sh_calls\<close> is not state of the program: it lists the upstream calls this request has
  made, each with the index of the upstream, so that theorems can speak about them.
\<close>

section \<open>Data\<close>

record ('hm, 'b) request =
  rq_method :: string
  rq_path :: string
  rq_query :: "string option"
  rq_path_and_query :: "string option"
  rq_headers :: 'hm
  rq_body :: 'b

text \<open>A body is in memory, or a stream of what reading the upstream body gives.\<close>

datatype resp_body = Bytes string | Streamed "string option"

record 'hm response =
  rs_status :: u16
  rs_headers :: 'hm
  rs_body :: resp_body

record 'hm upstream_request =
  ur_method :: string
  ur_url :: string
  ur_headers :: 'hm
  ur_body :: string
  ur_timeout :: duration

record 'hm upstream_response =
  us_status :: u16
  us_headers :: 'hm
  us_bytes :: "string option"

text \<open>The result of \<^verbatim>\<open>send()\<close>; an error says whether it is a connect error.\<close>

datatype 'hm send_result = SendOk "'hm upstream_response" | SendErr bool

datatype await_point = AtLimiter | AtBody | AtSend nat | AtRead

record ('hm, 's) shared =
  sh_metrics :: metrics
  sh_limiter :: "'s limiter"
  sh_balancer :: balancer
  sh_cache :: "response_cache option"
  sh_calls :: "(nat \<times> 'hm upstream_request) list"

record ('hm, 's, 'b) env =
  e_http :: "'hm http_api"
  e_decode :: jwt_decode
  e_redis :: "'s redis_api"
  e_to_bytes :: "'b \<Rightarrow> usize \<Rightarrow> string option"
  e_send :: "nat \<Rightarrow> 'hm upstream_request \<Rightarrow> 'hm send_result"
  e_uuid :: string
  e_peer_ip :: string
  e_error_json :: "string \<Rightarrow> string"
  e_text_headers :: 'hm
  e_order :: "cache_map \<Rightarrow> cache_map"
  e_rate_now :: instant
  e_cache_now :: instant
  e_evict_now :: instant
  e_put_now :: instant
  e_pick_now :: "nat \<Rightarrow> nat \<Rightarrow> instant"
  e_fail_now :: "nat \<Rightarrow> instant"
  e_latency :: "nat \<Rightarrow> duration"
  e_elapsed :: duration
  e_others :: "await_point \<Rightarrow> ('hm, 's) shared \<Rightarrow> ('hm, 's) shared"
  e_dropped :: "await_point \<Rightarrow> bool"

text \<open>What the handler has computed about a request once its route is known.\<close>

record 'hm req_ctx =
  cx_route :: string
  cx_config :: route_config
  cx_server :: server_config
  cx_method :: string
  cx_headers :: 'hm
  cx_host :: string
  cx_client_ip :: string
  cx_correlation :: string
  cx_cache_enabled :: bool
  cx_cache_key :: string

section \<open>Sequencing\<close>

definition bindr :: "'a res \<times> 't \<Rightarrow> ('a \<Rightarrow> 't \<Rightarrow> 'c res \<times> 't) \<Rightarrow> 'c res \<times> 't" where
  "bindr m f = (case m of (Panic, s) \<Rightarrow> (Panic, s) | (Ret a, s) \<Rightarrow> f a s)"

text \<open>A stage that may answer the request (an early \<^verbatim>\<open>return\<close>), and what follows if not.\<close>

definition unless_answered :: "'a option res \<times> 't \<Rightarrow> ('t \<Rightarrow> 'a res \<times> 't) \<Rightarrow> 'a res \<times> 't" where
  "unless_answered m f =
     (case m of (Panic, s) \<Rightarrow> (Panic, s) | (Ret (Some r), s) \<Rightarrow> (Ret r, s) | (Ret None, s) \<Rightarrow> f s)"

definition interfere :: "('hm, 's, 'b) env \<Rightarrow> await_point \<Rightarrow> ('hm, 's) shared \<Rightarrow> ('hm, 's) shared" where
  "interfere E a sh = (e_others E a sh)\<lparr>sh_calls := sh_calls sh\<rparr>"

text \<open>An \<^verbatim>\<open>.await\<close>: other tasks run; then the task goes on, unless it is dropped.\<close>

definition await_at :: "('hm, 's, 'b) env \<Rightarrow> await_point \<Rightarrow> ('hm, 's) shared \<Rightarrow> unit res \<times> ('hm, 's) shared" where
  "await_at E a sh = (if e_dropped E a then Panic else Ret (), interfere E a sh)"

definition metric :: "(metrics \<Rightarrow> metrics) \<Rightarrow> ('hm, 's) shared \<Rightarrow> ('hm, 's) shared" where
  "metric f sh = sh\<lparr>sh_metrics := f (sh_metrics sh)\<rparr>"

definition on_balancer ::
  "(balancer \<Rightarrow> 'a res \<times> balancer) \<Rightarrow> ('hm, 's) shared \<Rightarrow> 'a res \<times> ('hm, 's) shared" where
  "on_balancer f sh = (let (r, b) = f (sh_balancer sh) in (r, sh\<lparr>sh_balancer := b\<rparr>))"

section \<open>Helpers of the handler\<close>

definition CORRELATION_HEADER :: string where
  "CORRELATION_HEADER = ''x-request-id''"

definition client_ip :: "'hm http_api \<Rightarrow> 'hm \<Rightarrow> string \<Rightarrow> string" where
  "client_ip H headers peer_ip =
     (case header_str H headers ''x-forwarded-for'' of
        Some v \<Rightarrow> (let s = trim (split_next v (CHR '','')) in if s \<noteq> [] then s else peer_ip)
      | None \<Rightarrow> peer_ip)"

definition rate_key :: "'hm http_api \<Rightarrow> rate_scope \<Rightarrow> string \<Rightarrow> string \<Rightarrow> 'hm \<Rightarrow> string" where
  "rate_key H scope route ip headers =
     (case scope of
        ScopeIp \<Rightarrow> route @ '':ip:'' @ ip
      | ScopeRoute \<Rightarrow> route @ '':route''
      | ScopeApiKey \<Rightarrow>
          (let key = (case header_str H headers ''x-api-key'' of
                Some s \<Rightarrow> s
              | None \<Rightarrow> (case header_str H headers ''authorization'' of
                    Some s \<Rightarrow> trim (case strip_prefix s ''Bearer '' of Some t \<Rightarrow> t | None \<Rightarrow> s)
                  | None \<Rightarrow> ''anon''))
           in route @ '':key:'' @ key))"

definition is_idempotent :: "string \<Rightarrow> bool" where
  "is_idempotent m \<longleftrightarrow> m \<in> {''GET'', ''HEAD'', ''PUT'', ''DELETE'', ''OPTIONS'', ''TRACE''}"

definition cache_bypass :: "'hm http_api \<Rightarrow> 'hm \<Rightarrow> bool" where
  "cache_bypass H headers =
     (case header_str H headers ''cache-control'' of
        Some v \<Rightarrow> (let v = to_ascii_lowercase v in str_contains v ''no-cache'' \<or> str_contains v ''no-store'')
      | None \<Rightarrow> False)"

definition response_cacheable :: "'hm http_api \<Rightarrow> 'hm \<Rightarrow> bool" where
  "response_cacheable H headers =
     (case header_str H headers ''cache-control'' of
        Some v \<Rightarrow> (let v = to_ascii_lowercase v in
          \<not> (str_contains v ''no-store'' \<or> str_contains v ''private'' \<or> str_contains v ''no-cache''))
      | None \<Rightarrow> True)"

definition add_ratelimit_headers :: "'hm http_api \<Rightarrow> u32 \<Rightarrow> u32 \<Rightarrow> u64 \<Rightarrow> 'hm \<Rightarrow> 'hm" where
  "add_ratelimit_headers H limit remaining reset headers =
     (let headers = set_header H ''x-ratelimit-limit'' (show_nat (unat limit)) headers;
          headers = set_header H ''x-ratelimit-remaining'' (show_nat (unat remaining)) headers;
          headers = set_header H ''x-ratelimit-reset'' (show_nat (unat reset)) headers
      in set_header H ''retry-after'' (show_nat (unat reset)) headers)"

definition build_response :: "u16 \<Rightarrow> 'hm \<Rightarrow> resp_body \<Rightarrow> 'hm response" where
  "build_response status headers body = \<lparr>rs_status = status, rs_headers = headers, rs_body = body\<rparr>"

definition error_response :: "('hm, 's, 'b) env \<Rightarrow> u16 \<Rightarrow> string \<Rightarrow> string \<Rightarrow> 'hm response" where
  "error_response E status message correlation =
     (let headers = set_header (e_http E) ''content-type'' ''application/json'' (e_text_headers E)
      in \<lparr>rs_status = status,
          rs_headers = set_header (e_http E) CORRELATION_HEADER correlation headers,
          rs_body = Bytes (e_error_json E message)\<rparr>)"

definition status_text :: "u16 \<Rightarrow> string" where
  "status_text s = show_nat (unat s)"

text \<open>\<^verbatim>\<open>record\<close>: one request counted, its latency observed.\<close>

definition record_request ::
  "('hm, 's, 'b) env \<Rightarrow> string \<Rightarrow> string \<Rightarrow> u16 \<Rightarrow> ('hm, 's) shared \<Rightarrow> ('hm, 's) shared" where
  "record_request E route meth status =
     metric (\<lambda>m. m\<lparr>mt_requests := inc (mt_requests m) (route, meth, status_text status),
                   mt_gateway_latency := observe (mt_gateway_latency m) route (e_elapsed E)\<rparr>)"

text \<open>\<^verbatim>\<open>StatusCode::from_u16\<close> takes 100 to 999.\<close>

definition status_or_ok :: "u16 \<Rightarrow> u16" where
  "status_or_ok s = (if 100 \<le> s \<and> s < 1000 then s else 200)"

definition is_server_error :: "u16 \<Rightarrow> bool" where
  "is_server_error s \<longleftrightarrow> 500 \<le> s \<and> s < 600"

section \<open>Answering from the cache and from an upstream\<close>

fun insert_pairs :: "'hm http_api \<Rightarrow> (string \<times> string) list \<Rightarrow> 'hm \<Rightarrow> 'hm" where
  "insert_pairs H [] headers = headers"
| "insert_pairs H ((n, v) # rest) headers =
     insert_pairs H rest (case (header_name H n, header_value H v) of
        (Some name, Some val) \<Rightarrow> hm_insert H headers name val
      | _ \<Rightarrow> headers)"

definition cached_reply :: "('hm, 's, 'b) env \<Rightarrow> cached_response \<Rightarrow> route_config \<Rightarrow> string \<Rightarrow> 'hm response" where
  "cached_reply E hit config correlation =
     (let H = e_http E;
          headers = insert_pairs H (cr_headers hit) (hm_new H);
          headers = apply_transforms H (rc_response_headers config) headers;
          headers = set_header H ''x-cache'' ''HIT'' headers;
          headers = set_header H CORRELATION_HEADER correlation headers
      in build_response (status_or_ok (cr_status hit)) headers (Bytes (cr_body hit)))"

definition header_pairs :: "'hm http_api \<Rightarrow> 'hm \<Rightarrow> (string \<times> string) list" where
  "header_pairs H headers =
     List.map_filter (\<lambda>(n, v). map_option (\<lambda>s. (n, s)) (value_to_str H v)) (hm_iter H headers)"

definition store_in_cache ::
  "('hm, 's, 'b) env \<Rightarrow> string \<Rightarrow> u16 \<Rightarrow> (string \<times> string) list \<Rightarrow> string \<Rightarrow> ('hm, 's) shared
   \<Rightarrow> unit res \<times> ('hm, 's) shared" where
  "store_in_cache E key status pairs bytes sh =
     (case sh_cache sh of
        None \<Rightarrow> (Ret (), sh)
      | Some c \<Rightarrow>
          (let (r, c) = cache_put (e_order E) c key status pairs bytes (e_evict_now E) (e_put_now E)
           in (r, sh\<lparr>sh_cache := Some c\<rparr>)))"

definition finish_response ::
  "('hm, 's, 'b) env \<Rightarrow> 'hm req_ctx \<Rightarrow> 'hm upstream_response \<Rightarrow> ('hm, 's) shared
   \<Rightarrow> 'hm response res \<times> ('hm, 's) shared" where
  "finish_response E c resp sh =
     (let H = e_http E;
          status = us_status resp;
          out = filtered_response_headers H (us_headers resp);
          out = apply_transforms H (rc_response_headers (cx_config c)) out;
          out = set_header H CORRELATION_HEADER (cx_correlation c) out;
          store = (cx_cache_enabled c \<and> status = 200 \<and> sh_cache sh \<noteq> None
                   \<and> response_cacheable H (us_headers resp));
          sh = record_request E (cx_route c) (cx_method c) status sh
      in if store then
           bindr (await_at E AtRead sh) (\<lambda>_ sh.
            case us_bytes resp of
              None \<Rightarrow> (Ret (error_response E 502 ''upstream read failed'' (cx_correlation c)), sh)
            | Some bytes \<Rightarrow>
                bindr (store_in_cache E (cx_cache_key c) status (header_pairs H out) bytes sh) (\<lambda>_ sh.
                  (Ret (build_response status (set_header H ''x-cache'' ''MISS'' out) (Bytes bytes)), sh)))
         else
           (let out = (if cx_cache_enabled c then set_header H ''x-cache'' ''MISS'' out else out)
            in (Ret (build_response status out (Streamed (us_bytes resp))), sh)))"

section \<open>The stages before the upstream call\<close>

definition auth_stage ::
  "('hm, 's, 'b) env \<Rightarrow> 'hm req_ctx \<Rightarrow> ('hm, 's) shared \<Rightarrow> 'hm response option res \<times> ('hm, 's) shared" where
  "auth_stage E c sh =
     (case authorize (e_http E) (e_decode E) (rc_auth (cx_config c)) (cx_headers c) of
        Inr _ \<Rightarrow> (Ret None, sh)
      | Inl reason \<Rightarrow>
          (let sh = metric (\<lambda>m. m\<lparr>mt_auth_rejections := inc (mt_auth_rejections m) (cx_route c)\<rparr>) sh;
               sh = record_request E (cx_route c) (cx_method c) 401 sh
           in (Ret (Some (error_response E 401 reason (cx_correlation c))), sh)))"

definition rate_stage ::
  "('hm, 's, 'b) env \<Rightarrow> 'hm req_ctx \<Rightarrow> ('hm, 's) shared \<Rightarrow> 'hm response option res \<times> ('hm, 's) shared" where
  "rate_stage E c sh =
     (case rc_rate_limit (cx_config c) of
        None \<Rightarrow> (Ret None, sh)
      | Some rl \<Rightarrow>
          (let key = rate_key (e_http E) (rl_scope rl) (cx_route c) (cx_client_ip c) (cx_headers c)
           in bindr (await_at E AtLimiter sh) (\<lambda>_ sh.
              let (d, l) = limiter_check (e_redis E) (sh_limiter sh) key (rl_limit rl)
                          (from_secs (rl_window_secs rl)) (e_rate_now E)
              in bindr (d, sh\<lparr>sh_limiter := l\<rparr>) (\<lambda>decision sh.
                if \<not> rd_allowed decision then
                  (let sh = metric (\<lambda>m. m\<lparr>mt_rate_limit_rejections :=
                              inc (mt_rate_limit_rejections m) (cx_route c)\<rparr>) sh;
                       sh = record_request E (cx_route c) (cx_method c) 429 sh;
                       resp = error_response E 429 ''rate limit exceeded'' (cx_correlation c)
                   in (Ret (Some (resp\<lparr>rs_headers := add_ratelimit_headers (e_http E) (rd_limit decision) 0
                              (rd_reset_secs decision) (rs_headers resp)\<rparr>)), sh))
                else (Ret None, sh)))))"

definition cache_stage ::
  "('hm, 's, 'b) env \<Rightarrow> 'hm req_ctx \<Rightarrow> ('hm, 's) shared \<Rightarrow> 'hm response option res \<times> ('hm, 's) shared" where
  "cache_stage E c sh =
     (if \<not> cx_cache_enabled c then (Ret None, sh)
      else case sh_cache sh of
        None \<Rightarrow> (Ret None, sh)
      | Some cache \<Rightarrow>
          (let (r, cache) = cache_get cache (cx_cache_key c) (e_cache_now E)
           in bindr (r, sh\<lparr>sh_cache := Some cache\<rparr>) (\<lambda>hit sh.
                case hit of
                  Some hit \<Rightarrow>
                    (let sh = metric (\<lambda>m. m\<lparr>mt_cache_hits := inc (mt_cache_hits m) (cx_route c)\<rparr>) sh;
                         sh = record_request E (cx_route c) (cx_method c) (status_or_ok (cr_status hit)) sh
                     in (Ret (Some (cached_reply E hit (cx_config c) (cx_correlation c))), sh))
                | None \<Rightarrow>
                    (Ret None, metric (\<lambda>m. m\<lparr>mt_cache_misses := inc (mt_cache_misses m) (cx_route c)\<rparr>) sh))))"

section \<open>Upstream attempts\<close>

record 'hm forward =
  fw_headers :: 'hm
  fw_path_and_query :: string
  fw_body :: string
  fw_timeout :: duration
  fw_max_attempts :: nat

text \<open>What one attempt ends with: a response to return, or \<^verbatim>\<open>continue\<close>.\<close>

datatype 'r outcome = Answer 'r | Retry

definition note_failure ::
  "('hm, 's, 'b) env \<Rightarrow> 'hm req_ctx \<Rightarrow> nat \<Rightarrow> nat \<Rightarrow> ('hm, 's) shared \<Rightarrow> unit res \<times> ('hm, 's) shared" where
  "note_failure E c attempt idx sh =
     bindr (on_balancer (on_breaker idx (\<lambda>cb. record_failure_at cb (e_fail_now E attempt))) sh) (\<lambda>_ sh.
       (Ret (), metric (\<lambda>m. m\<lparr>mt_upstream_errors := inc (mt_upstream_errors m) (cx_route c)\<rparr>) sh))"

definition upstream_request ::
  "'hm req_ctx \<Rightarrow> 'hm forward \<Rightarrow> nat \<Rightarrow> ('hm, 's) shared \<Rightarrow> 'hm upstream_request" where
  "upstream_request c f idx sh =
     \<lparr>ur_method = cx_method c, ur_url = up_url (bal_upstreams (sh_balancer sh) ! idx) @ fw_path_and_query f,
      ur_headers = fw_headers f, ur_body = fw_body f, ur_timeout = fw_timeout f\<rparr>"

definition call_upstream ::
  "('hm, 's, 'b) env \<Rightarrow> 'hm req_ctx \<Rightarrow> 'hm forward \<Rightarrow> nat \<Rightarrow> nat \<Rightarrow> ('hm, 's) shared
   \<Rightarrow> 'hm send_result res \<times> ('hm, 's) shared" where
  "call_upstream E c f attempt idx sh =
     (let req = upstream_request c f idx sh;
          result = e_send E attempt req;
          sh = sh\<lparr>sh_calls := sh_calls sh @ [(idx, req)]\<rparr>
      in bindr (await_at E (AtSend attempt) sh) (\<lambda>_ sh.
         let sh = metric (\<lambda>m. m\<lparr>mt_upstream_latency :=
                 observe (mt_upstream_latency m) (cx_route c) (e_latency E attempt)\<rparr>) sh
         in bindr (on_balancer (on_breaker idx breaker_get_state) sh) (\<lambda>s sh.
           (Ret result, metric (\<lambda>m. m\<lparr>mt_circuit_state := (mt_circuit_state m)
              ((cx_route c, up_url (bal_upstreams (sh_balancer sh) ! idx)) \<mapsto> breaker_code s)\<rparr>) sh))))"

definition return_response ::
  "('hm, 's, 'b) env \<Rightarrow> 'hm req_ctx \<Rightarrow> 'hm upstream_response \<Rightarrow> ('hm, 's) shared
   \<Rightarrow> 'hm response outcome res \<times> ('hm, 's) shared" where
  "return_response E c resp sh = bindr (finish_response E c resp sh) (\<lambda>r sh. (Ret (Answer r), sh))"

definition attempt_once ::
  "('hm, 's, 'b) env \<Rightarrow> 'hm req_ctx \<Rightarrow> 'hm forward \<Rightarrow> nat \<Rightarrow> nat \<Rightarrow> ('hm, 's) shared
   \<Rightarrow> 'hm response outcome res \<times> ('hm, 's) shared" where
  "attempt_once E c f attempt idx sh =
     bindr (call_upstream E c f attempt idx sh) (\<lambda>result sh.
       (let more = attempt + 1 < fw_max_attempts f
        in case result of
          SendOk resp \<Rightarrow>
            if is_server_error (us_status resp) then
              bindr (note_failure E c attempt idx sh) (\<lambda>_ sh.
                if is_idempotent (cx_method c) \<and> more then (Ret Retry, sh)
                else return_response E c resp sh)
            else
              bindr (on_balancer (on_breaker idx record_success) sh) (\<lambda>_ sh.
                return_response E c resp sh)
        | SendErr is_connect \<Rightarrow>
            bindr (note_failure E c attempt idx sh) (\<lambda>_ sh.
              if (is_idempotent (cx_method c) \<or> is_connect) \<and> more then (Ret Retry, sh)
              else (Ret (Answer (error_response E 502 ''upstream unavailable'' (cx_correlation c))),
                    record_request E (cx_route c) (cx_method c) 502 sh))))"

text \<open>
  The loop, \<open>k\<close> attempts to go. The guard that \<^verbatim>\<open>pick\<close> gave is dropped at the end of the
  iteration, on \<^verbatim>\<open>continue\<close>, on \<^verbatim>\<open>return\<close> and on a panic.
\<close>

definition drop_guard :: "nat \<Rightarrow> ('hm, 's) shared \<Rightarrow> ('hm, 's) shared" where
  "drop_guard idx sh = sh\<lparr>sh_balancer := guard_drop idx (sh_balancer sh)\<rparr>"

fun attempts ::
  "('hm, 's, 'b) env \<Rightarrow> 'hm req_ctx \<Rightarrow> 'hm forward \<Rightarrow> nat \<Rightarrow> nat list \<Rightarrow> ('hm, 's) shared
   \<Rightarrow> 'hm response res \<times> ('hm, 's) shared" where
  "attempts E c f 0 excluded sh =
     (Ret (error_response E 502 ''all upstream attempts failed'' (cx_correlation c)),
      record_request E (cx_route c) (cx_method c) 502 sh)"
| "attempts E c f (Suc k) excluded sh =
     (let attempt = fw_max_attempts f - Suc k in
      bindr (on_balancer (pick excluded (e_pick_now E attempt)) sh) (\<lambda>sel sh.
        case sel of
          None \<Rightarrow>
            (Ret (error_response E 503 ''no healthy upstream'' (cx_correlation c)),
             record_request E (cx_route c) (cx_method c) 503 sh)
        | Some idx \<Rightarrow>
            (case attempt_once E c f attempt idx sh of
               (Panic, sh) \<Rightarrow> (Panic, drop_guard idx sh)
             | (Ret (Answer r), sh) \<Rightarrow> (Ret r, drop_guard idx sh)
             | (Ret Retry, sh) \<Rightarrow> attempts E c f k (excluded @ [idx]) (drop_guard idx sh))))"

section \<open>The handler\<close>

text \<open>The path, the headers, the time limit and the number of attempts of the upstream calls.\<close>

definition forward_of ::
  "('hm, 's, 'b) env \<Rightarrow> 'hm req_ctx \<Rightarrow> ('hm, 'b) request \<Rightarrow> string \<Rightarrow> 'hm forward" where
  "forward_of E c rq body_bytes =
     (let H = e_http E;
          fwd_path = forward_path (rq_path rq) (cx_config c);
          path_and_query = (case rq_query rq of Some q \<Rightarrow> fwd_path @ ''?'' @ q | None \<Rightarrow> fwd_path);
          timeout = from_millis (case rc_timeout_ms (cx_config c) of
             Some t \<Rightarrow> t | None \<Rightarrow> sc_default_timeout_ms (cx_server c));
          fwd_headers = forwarded_request_headers H (cx_headers c) (cx_client_ip c) (cx_host c) ''http'';
          fwd_headers = apply_transforms H (rc_request_headers (cx_config c)) fwd_headers;
          fwd_headers = set_header H CORRELATION_HEADER (cx_correlation c) fwd_headers;
          max_attempts = unat (max (saturating_add_u32 (rc_retries (cx_config c)) 1) 1)
      in \<lparr>fw_headers = fwd_headers, fw_path_and_query = path_and_query, fw_body = body_bytes,
          fw_timeout = timeout, fw_max_attempts = max_attempts\<rparr>)"

definition forward_stage ::
  "('hm, 's, 'b) env \<Rightarrow> 'hm req_ctx \<Rightarrow> ('hm, 'b) request \<Rightarrow> ('hm, 's) shared
   \<Rightarrow> 'hm response res \<times> ('hm, 's) shared" where
  "forward_stage E c rq sh =
     bindr (await_at E AtBody sh) (\<lambda>_ sh.
      case e_to_bytes E (rq_body rq) (sc_max_body_bytes (cx_server c)) of
        None \<Rightarrow>
          (Ret (error_response E 413 ''request body too large'' (cx_correlation c)),
           record_request E (cx_route c) (cx_method c) 413 sh)
      | Some body_bytes \<Rightarrow>
          (let f = forward_of E c rq body_bytes in attempts E c f (fw_max_attempts f) [] sh))"

definition serve_route ::
  "('hm, 's, 'b) env \<Rightarrow> 'hm req_ctx \<Rightarrow> ('hm, 'b) request \<Rightarrow> ('hm, 's) shared
   \<Rightarrow> 'hm response res \<times> ('hm, 's) shared" where
  "serve_route E c rq sh =
     unless_answered (auth_stage E c sh) (\<lambda>sh.
     unless_answered (rate_stage E c sh) (\<lambda>sh.
     unless_answered (cache_stage E c sh) (\<lambda>sh.
       forward_stage E c rq sh)))"

definition correlation_of :: "('hm, 's, 'b) env \<Rightarrow> ('hm, 'b) request \<Rightarrow> string" where
  "correlation_of E rq =
     (case header_str (e_http E) (rq_headers rq) CORRELATION_HEADER of Some s \<Rightarrow> s | None \<Rightarrow> e_uuid E)"

definition request_context ::
  "('hm, 's, 'b) env \<Rightarrow> gateway_config \<Rightarrow> route_runtime \<Rightarrow> string \<Rightarrow> ('hm, 'b) request \<Rightarrow> 'hm req_ctx" where
  "request_context E config rt name rq =
     (let H = e_http E; headers = rq_headers rq;
          host = (case header_str H headers ''host'' of Some s \<Rightarrow> s | None \<Rightarrow> [])
      in \<lparr>cx_route = name, cx_config = rt_config rt, cx_server = gc_server config,
          cx_method = rq_method rq, cx_headers = headers, cx_host = host,
          cx_client_ip = client_ip H headers (e_peer_ip E),
          cx_correlation = correlation_of E rq,
          cx_cache_enabled = (rt_cache rt \<noteq> None \<and> rq_method rq = ''GET'' \<and> \<not> cache_bypass H headers),
          cx_cache_key = cache_key (rq_method rq) host
             (case rq_path_and_query rq of Some p \<Rightarrow> p | None \<Rightarrow> ''/'')\<rparr>)"

definition shared_of :: "'s gateway_state \<Rightarrow> route_runtime \<Rightarrow> ('hm, 's) shared" where
  "shared_of g rt =
     \<lparr>sh_metrics = gs_metrics g, sh_limiter = gs_limiter g, sh_balancer = rt_balancer rt,
      sh_cache = rt_cache rt, sh_calls = []\<rparr>"

definition write_back :: "'s gateway_state \<Rightarrow> string \<Rightarrow> route_runtime \<Rightarrow> ('hm, 's) shared \<Rightarrow> 's gateway_state" where
  "write_back g name rt sh =
     g\<lparr>gs_metrics := sh_metrics sh, gs_limiter := sh_limiter sh,
       gs_routes := (gs_routes g)(name \<mapsto> rt\<lparr>rt_balancer := sh_balancer sh, rt_cache := sh_cache sh\<rparr>)\<rparr>"

definition route_and_proxy ::
  "('hm, 's, 'b) env \<Rightarrow> 's gateway_state \<Rightarrow> ('hm, 'b) request \<Rightarrow> 'hm response res \<times> 's gateway_state" where
  "route_and_proxy E g rq =
     (let host = (case header_str (e_http E) (rq_headers rq) ''host'' of Some s \<Rightarrow> s | None \<Rightarrow> []);
          correlation = correlation_of E rq
      in case match_route (gs_config g) (Some host) (rq_path rq) of
           None \<Rightarrow>
             (Ret (error_response E 404 ''no matching route'' correlation),
              g\<lparr>gs_metrics := (gs_metrics g)\<lparr>mt_requests :=
                 inc (mt_requests (gs_metrics g)) (''none'', rq_method rq, ''404'')\<rparr>\<rparr>)
         | Some route_cfg \<Rightarrow>
             (case state_route g (rc_name route_cfg) of
                None \<Rightarrow> (Ret (error_response E 500 ''route runtime missing'' correlation), g)
              | Some rt \<Rightarrow>
                  (let name = rc_name route_cfg;
                       (r, sh) = serve_route E (request_context E (gs_config g) rt name rq) rq (shared_of g rt)
                   in (r, write_back g name rt sh))))"

definition handle ::
  "('hm, 's, 'b) env \<Rightarrow> 's gateway_state \<Rightarrow> ('hm, 'b) request \<Rightarrow> 'hm response res \<times> 's gateway_state" where
  "handle E g rq =
     (let g = g\<lparr>gs_metrics := (gs_metrics g)\<lparr>mt_active_connections := mt_active_connections (gs_metrics g) + 1\<rparr>\<rparr>
      in bindr (route_and_proxy E g rq) (\<lambda>response g.
           (Ret response, g\<lparr>gs_metrics := (gs_metrics g)\<lparr>mt_active_connections :=
              mt_active_connections (gs_metrics g) - 1\<rparr>\<rparr>)))"

section \<open>Lemmas\<close>

subsection \<open>Sequencing\<close>

lemma bindr_simps [simp]: "bindr (Ret a, s) f = f a s" "bindr (Panic, s) f = (Panic, s)"
  by (simp_all add: bindr_def)

lemma unless_answered_simps [simp]:
  "unless_answered (Ret (Some r), s) f = (Ret r, s)" "unless_answered (Ret None, s) f = f s"
  "unless_answered (Panic, s) f = (Panic, s)"
  by (simp_all add: unless_answered_def)

lemma bindr_cases [case_names Panic Ret]:
  assumes "\<And>s. m = (Panic, s) \<Longrightarrow> P (Panic, s)" and "\<And>a s. m = (Ret a, s) \<Longrightarrow> P (f a s)"
  shows "P (bindr m f)"
  using assms by (cases m; cases "fst m") (auto simp: bindr_def)

lemma bindr_Ret: "fst (bindr m g) = Ret x \<longleftrightarrow> (\<exists>a s. m = (Ret a, s) \<and> fst (g a s) = Ret x)"
  by (cases m; cases "fst m") (auto simp: bindr_def)

text \<open>
  A view \<open>v\<close> of the shared state that a stage leaves alone, also through sequencing.
\<close>

lemma keeps_bindr:
  assumes "v (snd m) = x" and "\<And>a s. v s = x \<Longrightarrow> v (snd (f a s)) = x"
  shows "v (snd (bindr m f)) = x"
  using assms by (cases m; cases "fst m") (auto simp: bindr_def)

lemma keeps_unless_answered:
  assumes "v (snd m) = x" and "\<And>s. v s = x \<Longrightarrow> v (snd (f s)) = x"
  shows "v (snd (unless_answered m f)) = x"
  using assms by (cases m; cases "fst m") (auto simp: unless_answered_def split: option.splits)

subsection \<open>Frames\<close>

text \<open>
  A view that depends neither on the metrics nor on the limiter nor on the cache: what a stage
  other than an upstream attempt keeps.
\<close>

lemma metric_fields [simp]:
  "sh_limiter (metric g sh) = sh_limiter sh" "sh_balancer (metric g sh) = sh_balancer sh"
  "sh_cache (metric g sh) = sh_cache sh" "sh_calls (metric g sh) = sh_calls sh"
  by (simp_all add: metric_def)

lemma record_request_fields [simp]:
  "sh_limiter (record_request E r m s sh) = sh_limiter sh"
  "sh_balancer (record_request E r m s sh) = sh_balancer sh"
  "sh_cache (record_request E r m s sh) = sh_cache sh" "sh_calls (record_request E r m s sh) = sh_calls sh"
  by (simp_all add: record_request_def)

lemma bindr_await [simp]:
  "bindr (await_at E a sh) f = (if e_dropped E a then (Panic, interfere E a sh) else f () (interfere E a sh))"
  by (simp add: await_at_def)

lemma interfere_calls [simp]: "sh_calls (interfere E a sh) = sh_calls sh"
  by (simp add: interfere_def)

lemma on_balancer_fields [simp]:
  "sh_limiter (snd (on_balancer f sh)) = sh_limiter sh" "sh_cache (snd (on_balancer f sh)) = sh_cache sh"
  "sh_calls (snd (on_balancer f sh)) = sh_calls sh" "sh_metrics (snd (on_balancer f sh)) = sh_metrics sh"
  "sh_balancer (snd (on_balancer f sh)) = snd (f (sh_balancer sh))"
  "fst (on_balancer f sh) = fst (f (sh_balancer sh))"
  by (simp_all add: on_balancer_def case_prod_beta)

lemma drop_guard_fields [simp]:
  "sh_limiter (drop_guard i sh) = sh_limiter sh" "sh_cache (drop_guard i sh) = sh_cache sh"
  "sh_calls (drop_guard i sh) = sh_calls sh" "sh_metrics (drop_guard i sh) = sh_metrics sh"
  "sh_balancer (drop_guard i sh) = guard_drop i (sh_balancer sh)"
  by (simp_all add: drop_guard_def)

lemma store_in_cache_fields [simp]:
  "sh_limiter (snd (store_in_cache E k s p b sh)) = sh_limiter sh"
  "sh_balancer (snd (store_in_cache E k s p b sh)) = sh_balancer sh"
  "sh_calls (snd (store_in_cache E k s p b sh)) = sh_calls sh"
  "sh_metrics (snd (store_in_cache E k s p b sh)) = sh_metrics sh"
  by (simp_all add: store_in_cache_def case_prod_beta split: option.splits)

text \<open>The calls made so far.\<close>

lemmas calls_bindr = keeps_bindr [where v = sh_calls]

lemma calls_finish_response [simp]: "sh_calls (snd (finish_response E c resp sh)) = sh_calls sh"
  by (auto simp: finish_response_def Let_def intro!: calls_bindr split: option.splits)

lemma calls_return_response [simp]: "sh_calls (snd (return_response E c resp sh)) = sh_calls sh"
  unfolding return_response_def by (rule calls_bindr) auto

lemma calls_note_failure [simp]: "sh_calls (snd (note_failure E c n i sh)) = sh_calls sh"
  unfolding note_failure_def by (rule calls_bindr) auto

lemma calls_call_upstream:
  "sh_calls (snd (call_upstream E c f n i sh)) = sh_calls sh @ [(i, upstream_request c f i sh)]"
  unfolding call_upstream_def Let_def by (auto intro!: calls_bindr)

lemma call_upstream_result:
  "fst (call_upstream E c f n i sh) = Ret r \<Longrightarrow> r = e_send E n (upstream_request c f i sh)"
  unfolding call_upstream_def Let_def by (auto simp: bindr_Ret split: if_splits)

lemma calls_attempt_once:
  "sh_calls (snd (attempt_once E c f n i sh)) = sh_calls sh @ [(i, upstream_request c f i sh)]"
  unfolding attempt_once_def Let_def
  by (rule calls_bindr) (auto simp: calls_call_upstream intro!: calls_bindr split: send_result.splits)

lemma calls_stages [simp]:
  "sh_calls (snd (auth_stage E c sh)) = sh_calls sh"
  "sh_calls (snd (rate_stage E c sh)) = sh_calls sh"
  "sh_calls (snd (cache_stage E c sh)) = sh_calls sh"
  by (auto simp: auth_stage_def rate_stage_def cache_stage_def Let_def case_prod_beta
      intro!: calls_bindr split: sum.splits option.splits)

subsection \<open>The upstream calls of a request\<close>

text \<open>The results of a call after which the handler may try another upstream.\<close>

definition retry_ok :: "string \<Rightarrow> 'hm send_result \<Rightarrow> bool" where
  "retry_ok meth r = (case r of
      SendOk resp \<Rightarrow> is_idempotent meth \<and> is_server_error (us_status resp)
    | SendErr is_connect \<Rightarrow> is_idempotent meth \<or> is_connect)"

definition forwards :: "'hm req_ctx \<Rightarrow> 'hm forward \<Rightarrow> 'hm upstream_request \<Rightarrow> bool" where
  "forwards c f rq \<longleftrightarrow> (\<exists>base. rq = \<lparr>ur_method = cx_method c, ur_url = base @ fw_path_and_query f,
      ur_headers = fw_headers f, ur_body = fw_body f, ur_timeout = fw_timeout f\<rparr>)"

lemma forwards_upstream_request [simp]: "forwards c f (upstream_request c f i sh)"
  by (auto simp: forwards_def upstream_request_def)

lemma attempt_once_Retry:
  assumes "fst (attempt_once E c f n i sh) = Ret Retry"
  shows "retry_ok (cx_method c) (e_send E n (upstream_request c f i sh)) \<and> n + 1 < fw_max_attempts f"
proof -
  obtain r s where "call_upstream E c f n i sh = (Ret r, s)"
    using assms by (auto simp: attempt_once_def bindr_Ret)
  moreover from this have "r = e_send E n (upstream_request c f i sh)"
    using call_upstream_result [of E c f n i sh r] by simp
  ultimately show ?thesis using assms
    by (auto simp: attempt_once_def return_response_def Let_def bindr_Ret retry_ok_def
        split: send_result.splits if_splits)
qed

text \<open>
  What the loop adds to the list of calls, when \<open>k\<close> attempts are left: the invariant of the
  retry loop.
\<close>

definition call_trace ::
  "('hm, 's, 'b) env \<Rightarrow> 'hm req_ctx \<Rightarrow> 'hm forward \<Rightarrow> nat \<Rightarrow> nat list \<Rightarrow> (nat \<times> 'hm upstream_request) list \<Rightarrow> bool" where
  "call_trace E c f k ex new \<longleftrightarrow>
     length new \<le> k \<and> distinct (map fst new) \<and> set (map fst new) \<inter> set ex = {}
     \<and> list_all (\<lambda>(_, rq). forwards c f rq) new
     \<and> (\<forall>j. Suc j < length new \<longrightarrow> retry_ok (cx_method c) (e_send E (fw_max_attempts f - k + j) (snd (new ! j))))"

lemma call_trace_Nil [simp]: "call_trace E c f k ex []"
  by (simp add: call_trace_def)

lemma call_trace_single: "i \<notin> set ex \<Longrightarrow> forwards c f rq \<Longrightarrow> call_trace E c f (Suc k) ex [(i, rq)]"
  by (simp add: call_trace_def)

lemma call_trace_Cons:
  assumes "i \<notin> set ex" and "forwards c f rq" and "Suc k \<le> fw_max_attempts f"
    and "retry_ok (cx_method c) (e_send E (fw_max_attempts f - Suc k) rq)"
    and "call_trace E c f k (ex @ [i]) new"
  shows "call_trace E c f (Suc k) ex ((i, rq) # new)"
proof -
  have "retry_ok (cx_method c) (e_send E (fw_max_attempts f - Suc k + j) (snd (((i, rq) # new) ! j)))"
    if "Suc j < length ((i, rq) # new)" for j
  proof (cases j)
    case 0
    with assms(4) show ?thesis by simp
  next
    case (Suc l)
    with that assms(3,5) have "retry_ok (cx_method c) (e_send E (fw_max_attempts f - k + l) (snd (new ! l)))"
      by (simp add: call_trace_def)
    moreover have eq: "fw_max_attempts f - Suc k + j = fw_max_attempts f - k + l"
      using Suc assms(3) by simp
    ultimately show ?thesis unfolding eq by (simp add: Suc)
  qed
  with assms(1,2,5) show ?thesis by (auto simp: call_trace_def)
qed

lemma attempts_calls:
  assumes "k \<le> fw_max_attempts f"
  shows "\<exists>new. sh_calls (snd (attempts E c f k ex sh)) = sh_calls sh @ new \<and> call_trace E c f k ex new"
  using assms
proof (induction k arbitrary: ex sh)
  case 0
  then show ?case by simp
next
  case (Suc k)
  let ?n = "fw_max_attempts f - Suc k"
  obtain p b where p: "pick ex (e_pick_now E ?n) (sh_balancer sh) = (p, b)" by (rule prod.exhaust)
  let ?sh = "sh\<lparr>sh_balancer := b\<rparr>"
  have ob: "on_balancer (pick ex (e_pick_now E ?n)) sh = (p, ?sh)" by (simp add: on_balancer_def p)
  show ?case
  proof (cases "\<exists>i. p = Ret (Some i)")
    case False
    with ob show ?thesis by (cases p) (auto split: option.splits)
  next
    case True
    then obtain i where i: "p = Ret (Some i)" by blast
    with pick_any [OF p] have ni: "i \<notin> set ex" by auto
    let ?rq = "upstream_request c f i ?sh"
    obtain r s where a: "attempt_once E c f ?n i ?sh = (r, s)" by (rule prod.exhaust)
    have calls: "sh_calls s = sh_calls sh @ [(i, ?rq)]"
      using calls_attempt_once [of E c f ?n i ?sh] a by simp
    show ?thesis
    proof (cases "r = Ret Retry")
      case False
      with ob i a have "sh_calls (snd (attempts E c f (Suc k) ex sh)) = sh_calls sh @ [(i, ?rq)]"
        by (cases r) (auto simp: Let_def calls split: outcome.splits)
      with ni show ?thesis by (blast intro: call_trace_single forwards_upstream_request)
    next
      case True
      with attempt_once_Retry [of E c f ?n i ?sh] a
      have ok: "retry_ok (cx_method c) (e_send E ?n ?rq)" by simp
      obtain new where "sh_calls (snd (attempts E c f k (ex @ [i]) (drop_guard i s)))
          = sh_calls (drop_guard i s) @ new" "call_trace E c f k (ex @ [i]) new"
        using Suc.IH [of "ex @ [i]" "drop_guard i s"] Suc.prems by auto
      moreover from this ni ok Suc.prems have "call_trace E c f (Suc k) ex ((i, ?rq) # new)"
        by (blast intro: call_trace_Cons forwards_upstream_request)
      ultimately show ?thesis using ob i a True calls by (auto simp: Let_def)
    qed
  qed
qed

subsection \<open>Active counts\<close>

abbreviation act :: "('hm, 's) shared \<Rightarrow> i64 list" where
  "act sh \<equiv> actives (sh_balancer sh)"

lemmas act_bindr = keeps_bindr [where v = act]
lemmas act_unless = keeps_unless_answered [where v = act]

text \<open>
  Other tasks keep a view: for the active counts, they drop as many guards as they take while this
  request waits.
\<close>

definition others_keep :: "(('hm, 's) shared \<Rightarrow> 'x) \<Rightarrow> ('hm, 's, 'b) env \<Rightarrow> bool" where
  "others_keep v E \<longleftrightarrow> (\<forall>a sh. v (e_others E a sh) = v sh)"

lemma act_interfere: "others_keep act E \<Longrightarrow> act (interfere E a sh) = act sh"
  by (simp add: others_keep_def interfere_def)

lemma act_finish_response:
  "others_keep act E \<Longrightarrow> act (snd (finish_response E c resp sh)) = act sh"
  by (auto simp: finish_response_def Let_def act_interfere intro!: act_bindr split: option.splits)

lemma act_return_response:
  "others_keep act E \<Longrightarrow> act (snd (return_response E c resp sh)) = act sh"
  unfolding return_response_def by (rule act_bindr) (auto simp: act_finish_response)

lemma act_note_failure [simp]: "act (snd (note_failure E c n i sh)) = act sh"
  unfolding note_failure_def by (rule act_bindr) auto

lemma act_call_upstream:
  "others_keep act E \<Longrightarrow> act (snd (call_upstream E c f n i sh)) = act sh"
  unfolding call_upstream_def Let_def by (auto simp: act_interfere intro!: act_bindr)

lemma act_attempt_once:
  "others_keep act E \<Longrightarrow> act (snd (attempt_once E c f n i sh)) = act sh"
  unfolding attempt_once_def Let_def
  by (rule act_bindr)
    (auto simp: act_call_upstream act_return_response intro!: act_bindr split: send_result.splits)

lemma act_stages:
  assumes "others_keep act E"
  shows "act (snd (auth_stage E c sh)) = act sh" "act (snd (rate_stage E c sh)) = act sh"
    "act (snd (cache_stage E c sh)) = act sh"
  using assms
  by (auto simp: auth_stage_def rate_stage_def cache_stage_def Let_def case_prod_beta act_interfere
      intro!: act_bindr split: sum.splits option.splits)

lemma act_attempts:
  assumes "others_keep act E"
  shows "act (snd (attempts E c f k ex sh)) = act sh"
proof (induction k arbitrary: ex sh)
  case 0
  then show ?case by simp
next
  case (Suc k)
  let ?n = "fw_max_attempts f - Suc k"
  obtain p b where p: "pick ex (e_pick_now E ?n) (sh_balancer sh) = (p, b)" by (rule prod.exhaust)
  let ?sh = "sh\<lparr>sh_balancer := b\<rparr>"
  have ob: "on_balancer (pick ex (e_pick_now E ?n)) sh = (p, ?sh)" by (simp add: on_balancer_def p)
  show ?case
  proof (cases "\<exists>i. p = Ret (Some i)")
    case False
    with pick_any [OF p] have "actives b = act sh" by auto
    with False ob show ?thesis by (cases p) (auto split: option.splits)
  next
    case True
    then obtain i where i: "p = Ret (Some i)" by blast
    with pick_any [OF p] have b: "actives b = (act sh)[i := act sh ! i + 1]" "i < length (act sh)" by auto
    obtain r s where a: "attempt_once E c f ?n i ?sh = (r, s)" by (rule prod.exhaust)
    have "act s = actives b"
      using act_attempt_once [OF assms, of c f ?n i ?sh] a by simp
    with b have "act (drop_guard i s) = act sh" by (simp add: actives_guards)
    with Suc.IH [of "ex @ [i]" "drop_guard i s"] ob i a show ?thesis
      by (auto simp: Let_def split: res.splits outcome.splits)
  qed
qed

lemma act_serve_route:
  assumes "others_keep act E"
  shows "act (snd (serve_route E c rq sh)) = act sh"
  unfolding serve_route_def forward_stage_def Let_def using assms
  by (auto simp: act_stages act_interfere act_attempts intro!: act_unless split: option.splits)

subsection \<open>What is answered, and what is recorded about it\<close>

text \<open>
  \<open>answers v P m\<close>: whatever response \<open>m\<close> returns, \<open>P\<close> holds of it and of the view \<open>v\<close> of the
  state \<open>m\<close> leaves.
\<close>

definition answers :: "('t \<Rightarrow> 'x) \<Rightarrow> ('r \<Rightarrow> 'x \<Rightarrow> bool) \<Rightarrow> 'r res \<times> 't \<Rightarrow> bool" where
  "answers v P m \<longleftrightarrow> (\<forall>r. fst m = Ret r \<longrightarrow> P r (v (snd m)))"

lemma answers_simps [simp]: "answers v P (Ret r, s) \<longleftrightarrow> P r (v s)" "answers v P (Panic, s)"
  by (simp_all add: answers_def)

lemma answers_bindr:
  assumes "v (snd m) = x" and "\<And>a s. fst m = Ret a \<Longrightarrow> v s = x \<Longrightarrow> answers v P (g a s)"
  shows "answers v P (bindr m g)"
  using assms by (cases m; cases "fst m") auto

lemma answers_unless:
  assumes "answers v (\<lambda>out y. case out of Some r \<Rightarrow> P r y | None \<Rightarrow> y = x) m"
    and "\<And>s. v s = x \<Longrightarrow> answers v P (g s)"
  shows "answers v P (unless_answered m g)"
  using assms by (cases m; cases "fst m") (auto simp: unless_answered_def split: option.splits)

text \<open>
  Views of the shared state. The stages from the cache lookup on leave a view alone that sees
  neither the balancer nor the cache nor their metrics; a view may see what is recorded once per
  request (the requests counter, the gateway latency), the gauge of open connections, and the
  limiter.
\<close>

locale call_view =
  fixes E :: "('hm, 's, 'b) env" and v :: "('hm, 's) shared \<Rightarrow> 'x"
  assumes v_balancer: "v (sh\<lparr>sh_balancer := bal\<rparr>) = v sh"
    and v_cache: "v (sh\<lparr>sh_cache := ca\<rparr>) = v sh"
    and v_calls: "v (sh\<lparr>sh_calls := cs\<rparr>) = v sh"
    and v_upstream_latency: "v (metric (\<lambda>m. m\<lparr>mt_upstream_latency := g1 m\<rparr>) sh) = v sh"
    and v_upstream_errors: "v (metric (\<lambda>m. m\<lparr>mt_upstream_errors := g2 m\<rparr>) sh) = v sh"
    and v_circuit_state: "v (metric (\<lambda>m. m\<lparr>mt_circuit_state := g3 m\<rparr>) sh) = v sh"
    and v_cache_hits: "v (metric (\<lambda>m. m\<lparr>mt_cache_hits := g2 m\<rparr>) sh) = v sh"
    and v_cache_misses: "v (metric (\<lambda>m. m\<lparr>mt_cache_misses := g2 m\<rparr>) sh) = v sh"
    and v_others: "v (interfere E a sh) = v sh"
begin

lemmas view_simps = v_balancer v_cache v_calls v_upstream_latency v_upstream_errors v_circuit_state
  v_cache_hits v_cache_misses v_others

lemma v_on_balancer: "v (snd (on_balancer g sh)) = v sh"
  by (simp add: on_balancer_def case_prod_beta v_balancer)

lemma v_drop_guard: "v (drop_guard i sh) = v sh"
  by (simp add: drop_guard_def v_balancer)

lemma v_store: "v (snd (store_in_cache E k s p b sh)) = v sh"
  by (simp add: store_in_cache_def case_prod_beta v_cache split: option.splits)

lemma v_note_failure: "v (snd (note_failure E c n i sh)) = v sh"
  unfolding note_failure_def by (rule keeps_bindr [where v = v]) (simp_all add: v_on_balancer v_upstream_errors)

lemma v_call_upstream: "v (snd (call_upstream E c f n i sh)) = v sh"
  unfolding call_upstream_def Let_def
  by (auto simp: v_on_balancer view_simps intro!: keeps_bindr [where v = v])

text \<open>The two ways an upstream response is turned into an answer.\<close>

lemma finish_response_answers:
  assumes "us_status resp = 200 \<Longrightarrow> P (error_response E 502 ''upstream read failed'' (cx_correlation c))
             (v (record_request E (cx_route c) (cx_method c) 200 sh))"
    and "\<And>out body. out \<in> (let o1 = set_header (e_http E) CORRELATION_HEADER (cx_correlation c)
             (apply_transforms (e_http E) (rc_response_headers (cx_config c))
               (filtered_response_headers (e_http E) (us_headers resp)))
             in {o1, set_header (e_http E) ''x-cache'' ''MISS'' o1}) \<Longrightarrow>
           P (build_response (us_status resp) out body)
             (v (record_request E (cx_route c) (cx_method c) (us_status resp) sh))"
  shows "answers v P (finish_response E c resp sh)"
  using assms unfolding finish_response_def Let_def
  by (auto simp: v_others v_store split: option.splits
      intro!: answers_bindr [where x = "v (record_request E (cx_route c) (cx_method c) 200 sh)"])

lemma attempt_once_answers:
  assumes err: "\<And>s msg sh. v sh = x \<Longrightarrow> P (error_response E s msg (cx_correlation c))
                  (v (record_request E (cx_route c) (cx_method c) s sh))"
    and fin: "\<And>resp sh. v sh = x \<Longrightarrow> answers v P (finish_response E c resp sh)"
    and x: "v sh = x"
  shows "answers v (\<lambda>out y. case out of Answer r \<Rightarrow> P r y | Retry \<Rightarrow> y = x) (attempt_once E c f n i sh)"
    (is "answers v ?Q _")
proof -
  have fin': "answers v ?Q (return_response E c resp s)" if "v s = x" for resp s
    unfolding return_response_def using fin [OF that, of resp]
    by (cases "finish_response E c resp s"; cases "fst (finish_response E c resp s)") auto
  have failed: "answers v ?Q (bindr (note_failure E c n i s) g)"
    if "v s = x" and "\<And>a s. v s = x \<Longrightarrow> answers v ?Q (g a s)" for s g
    using that by (intro answers_bindr [where x = x]) (simp_all add: v_note_failure)
  have passed: "answers v ?Q (bindr (on_balancer (on_breaker i record_success) s) g)"
    if "v s = x" and "\<And>a s. v s = x \<Longrightarrow> answers v ?Q (g a s)" for s g
    using that by (intro answers_bindr [where x = x]) (simp_all add: v_on_balancer)
  have decide: "answers v ?Q (case r of
        SendOk resp \<Rightarrow>
          if is_server_error (us_status resp) then
            bindr (note_failure E c n i s) (\<lambda>_ sh.
              if is_idempotent (cx_method c) \<and> n + 1 < fw_max_attempts f then (Ret Retry, sh)
              else return_response E c resp sh)
          else bindr (on_balancer (on_breaker i record_success) s) (\<lambda>_ sh. return_response E c resp sh)
      | SendErr is_connect \<Rightarrow>
          bindr (note_failure E c n i s) (\<lambda>_ sh.
            if (is_idempotent (cx_method c) \<or> is_connect) \<and> n + 1 < fw_max_attempts f then (Ret Retry, sh)
            else (Ret (Answer (error_response E 502 ''upstream unavailable'' (cx_correlation c))),
                  record_request E (cx_route c) (cx_method c) 502 sh)))" if s: "v s = x" for r s
    by (cases r) (simp_all add: s failed passed fin' err)
  show ?thesis
    unfolding attempt_once_def Let_def
    by (rule answers_bindr [where x = x]) (simp_all add: v_call_upstream x decide)
qed

lemma attempts_answers:
  assumes err: "\<And>s msg sh. v sh = x \<Longrightarrow> P (error_response E s msg (cx_correlation c))
                  (v (record_request E (cx_route c) (cx_method c) s sh))"
    and fin: "\<And>resp sh. v sh = x \<Longrightarrow> answers v P (finish_response E c resp sh)"
    and x: "v sh = x"
  shows "answers v P (attempts E c f k ex sh)"
  using x
proof (induction k arbitrary: ex sh)
  case 0
  then show ?case by (simp add: err)
next
  case (Suc k)
  let ?n = "fw_max_attempts f - Suc k"
  have step: "answers v P (case attempt_once E c f ?n i s of
      (Panic, sh) \<Rightarrow> (Panic, drop_guard i sh) | (Ret (Answer r), sh) \<Rightarrow> (Ret r, drop_guard i sh)
    | (Ret Retry, sh) \<Rightarrow> attempts E c f k (ex @ [i]) (drop_guard i sh))" if "v s = x" for i s
    using attempt_once_answers [where P = P and f = f and n = ?n and i = i, OF err fin that] Suc.IH
    by (auto simp: v_drop_guard split: prod.splits res.splits outcome.splits)
  show ?case
    unfolding attempts.simps Let_def using Suc.prems
    by (intro answers_bindr [where x = x]) (simp_all add: v_on_balancer err step split: option.splits)
qed

end

text \<open>
  A view that does not see the limiter and the rejections either. A property of answers that every
  branch of the pipeline establishes holds of every answer.
\<close>

locale request_view = call_view E v
  for E :: "('hm, 's, 'b) env" and v :: "('hm, 's) shared \<Rightarrow> 'x" +
  assumes v_limiter: "v (sh\<lparr>sh_limiter := l\<rparr>) = v sh"
    and v_auth_rejections: "v (metric (\<lambda>m. m\<lparr>mt_auth_rejections := g2 m\<rparr>) sh) = v sh"
    and v_rate_limit_rejections: "v (metric (\<lambda>m. m\<lparr>mt_rate_limit_rejections := g2 m\<rparr>) sh) = v sh"
begin

lemmas request_simps = view_simps v_limiter v_auth_rejections v_rate_limit_rejections

lemma serve_route_answers:
  assumes err: "\<And>s msg sh. v sh = x \<Longrightarrow> P (error_response E s msg (cx_correlation c))
                  (v (record_request E (cx_route c) (cx_method c) s sh))"
    and fin: "\<And>resp sh. v sh = x \<Longrightarrow> answers v P (finish_response E c resp sh)"
    and rate: "\<And>lim rem res sh. v sh = x \<Longrightarrow>
       P ((error_response E 429 ''rate limit exceeded'' (cx_correlation c))\<lparr>rs_headers :=
            add_ratelimit_headers (e_http E) lim rem res
              (rs_headers (error_response E 429 ''rate limit exceeded'' (cx_correlation c)))\<rparr>)
         (v (record_request E (cx_route c) (cx_method c) 429 sh))"
    and hit: "\<And>h sh. v sh = x \<Longrightarrow> P (cached_reply E h (cx_config c) (cx_correlation c))
         (v (record_request E (cx_route c) (cx_method c) (status_or_ok (cr_status h)) sh))"
    and x: "v sh = x"
  shows "answers v P (serve_route E c rq sh)"
proof -
  let ?Q = "\<lambda>out y. case out of Some r \<Rightarrow> P r y | None \<Rightarrow> y = x"
  have 1: "answers v ?Q (auth_stage E c s)" if "v s = x" for s
    using that by (simp add: auth_stage_def Let_def err request_simps split: sum.splits)
  have 2: "answers v ?Q (rate_stage E c s)" if "v s = x" for s
    using that unfolding rate_stage_def Let_def
    by (auto simp: case_prod_beta rate request_simps split: option.splits intro!: answers_bindr [where x = x])
  have 3: "answers v ?Q (cache_stage E c s)" if "v s = x" for s
    using that unfolding cache_stage_def Let_def
    by (auto simp: case_prod_beta hit request_simps split: option.splits intro!: answers_bindr [where x = x])
  have 4: "answers v P (forward_stage E c rq s)" if "v s = x" for s
    using that by (simp add: forward_stage_def Let_def err v_others attempts_answers [OF err fin] split: option.splits)
  show ?thesis
    unfolding serve_route_def using 1 2 3 4 x by (intro answers_unless [where x = x]) simp_all
qed

end

text \<open>Views that do not even see what is recorded per request are left alone.\<close>

locale silent_call_view = call_view E v
  for E :: "('hm, 's, 'b) env" and v :: "('hm, 's) shared \<Rightarrow> 'x" +
  assumes v_record: "v (record_request E r m s sh) = v sh"
begin

lemma finish_response_keeps: "v (snd (finish_response E c resp sh)) = v sh"
  unfolding finish_response_def Let_def
  by (auto simp: v_record v_others v_store intro!: keeps_bindr [where v = v] split: option.splits)

lemma attempt_once_keeps: "v (snd (attempt_once E c f n i sh)) = v sh"
proof -
  have ret: "v (snd (return_response E c resp s)) = v s" for resp s
    unfolding return_response_def by (rule keeps_bindr [where v = v]) (simp_all add: finish_response_keeps)
  show ?thesis
    unfolding attempt_once_def Let_def
    by (rule keeps_bindr [where v = v])
      (auto simp: v_call_upstream v_on_balancer v_note_failure v_record ret
        intro!: keeps_bindr [where v = v] split: send_result.splits)
qed

lemma attempts_keeps: "v (snd (attempts E c f k ex sh)) = v sh"
proof (induction k arbitrary: ex sh)
  case (Suc k)
  have step: "v (snd (case attempt_once E c f n i s of
      (Panic, sh) \<Rightarrow> (Panic, drop_guard i sh) | (Ret (Answer r), sh) \<Rightarrow> (Ret r, drop_guard i sh)
    | (Ret Retry, sh) \<Rightarrow> attempts E c f k (ex @ [i]) (drop_guard i sh))) = v s" for n i s
    using attempt_once_keeps [of c f n i s] Suc.IH
    by (auto simp: v_drop_guard split: prod.splits res.splits outcome.splits)
  show ?case
    unfolding attempts.simps Let_def
    by (rule keeps_bindr [where v = v]) (simp_all add: v_on_balancer v_record step split: option.splits)
qed (simp add: v_record)

lemma forward_stage_keeps: "v (snd (forward_stage E c rq sh)) = v sh"
  by (simp add: forward_stage_def Let_def v_record v_others attempts_keeps split: option.split)

lemma cache_stage_keeps: "v (snd (cache_stage E c sh)) = v sh"
  by (auto simp: cache_stage_def Let_def v_record view_simps case_prod_beta
      intro!: keeps_bindr [where v = v] split: option.splits)

end

locale silent_view = request_view E v + silent_call_view E v
  for E :: "('hm, 's, 'b) env" and v :: "('hm, 's) shared \<Rightarrow> 'x"
begin

lemma serve_route_keeps: "v (snd (serve_route E c rq sh)) = v sh"
  unfolding serve_route_def
  by (auto simp: auth_stage_def rate_stage_def Let_def v_record request_simps forward_stage_keeps cache_stage_keeps
      case_prod_beta intro!: keeps_unless_answered [where v = v] keeps_bindr [where v = v]
      split: option.splits sum.splits)

end

text \<open>The view that sees nothing, for properties of the answer alone.\<close>

interpretation blind: silent_view E "\<lambda>_. ()" for E
  by unfold_locales simp_all

text \<open>The requests counter, and the gauge of open connections.\<close>

abbreviation reqs :: "('hm, 's) shared \<Rightarrow> string \<times> string \<times> string \<Rightarrow> nat" where
  "reqs sh \<equiv> mt_requests (sh_metrics sh)"

lemma reqs_view: "others_keep reqs E \<Longrightarrow> request_view E reqs"
  by unfold_locales (simp_all add: metric_def interfere_def others_keep_def)

abbreviation opened :: "('hm, 's) shared \<Rightarrow> int" where
  "opened sh \<equiv> mt_active_connections (sh_metrics sh)"

lemma opened_view: "others_keep opened E \<Longrightarrow> silent_view E opened"
  by unfold_locales (simp_all add: metric_def interfere_def others_keep_def record_request_def)

lemma reqs_record: "reqs (record_request E r m s sh) = inc (reqs sh) (r, m, status_text s)"
  by (simp add: record_request_def metric_def)

subsection \<open>The correlation header\<close>

context http_headers
begin

lemma known_names:
  "header_name H CORRELATION_HEADER = Some ''x-request-id''"
  "header_name H ''x-cache'' = Some ''x-cache''"
  "header_name H ''x-ratelimit-limit'' = Some ''x-ratelimit-limit''"
  "header_name H ''x-ratelimit-remaining'' = Some ''x-ratelimit-remaining''"
  "header_name H ''x-ratelimit-reset'' = Some ''x-ratelimit-reset''"
  "header_name H ''retry-after'' = Some ''retry-after''"
  by (subst name_valid; simp add: http_eval CORRELATION_HEADER_def)+

lemma correlation_set:
  "header_value H corr = Some corr \<Longrightarrow> values_of H (set_header H CORRELATION_HEADER corr h) ''x-request-id'' = [corr]"
  by (simp add: values_set_header known_names)

lemma correlation_kept:
  "values_of H (add_ratelimit_headers H lim rem res h) ''x-request-id'' = values_of H h ''x-request-id''"
  "values_of H (set_header H ''x-cache'' t h) ''x-request-id'' = values_of H h ''x-request-id''"
  by (simp_all add: add_ratelimit_headers_def Let_def values_set_header known_names)

lemma ratelimit_values:
  "values_of H (add_ratelimit_headers H lim rem res h) ''x-ratelimit-limit'' = [show_nat (unat lim)]"
  "values_of H (add_ratelimit_headers H lim rem res h) ''x-ratelimit-remaining'' = [show_nat (unat rem)]"
  "values_of H (add_ratelimit_headers H lim rem res h) ''x-ratelimit-reset'' = [show_nat (unat res)]"
  "values_of H (add_ratelimit_headers H lim rem res h) ''retry-after'' = [show_nat (unat res)]"
  by (simp_all add: add_ratelimit_headers_def Let_def values_set_header known_names value_valid)

lemma serve_route_correlation:
  assumes H: "e_http E = H" and corr: "header_value H (cx_correlation c) = Some (cx_correlation c)"
  shows "answers (\<lambda>_. ()) (\<lambda>r _. values_of H (rs_headers r) ''x-request-id'' = [cx_correlation c])
     (serve_route E c rq sh)"
  by (rule blind.serve_route_answers)
    (auto intro!: blind.finish_response_answers
      simp: error_response_def build_response_def cached_reply_def H Let_def correlation_set [OF corr] correlation_kept)

lemma correlation_valid:
  assumes uuid: "header_value H (e_uuid E) = Some (e_uuid E)" and H: "e_http E = H"
  shows "header_value H (correlation_of E rq) = Some (correlation_of E rq)"
proof -
  have "header_value H t = Some t" if "header_str H h n = Some t" for h n t
    using that by (auto simp: header_str_def bind_eq_Some_conv dest: to_str_valid)
  with uuid show ?thesis by (simp add: correlation_of_def H split: option.split)
qed

lemma route_and_proxy_correlation:
  assumes H: "e_http E = H" and uuid: "header_value H (e_uuid E) = Some (e_uuid E)"
    and r: "fst (route_and_proxy E g rq) = Ret r"
  shows "values_of H (rs_headers r) ''x-request-id'' = [correlation_of E rq]"
proof -
  note corr = correlation_valid [OF uuid H, of rq]
  have cx: "cx_correlation (request_context E conf rt n rq) = correlation_of E rq" for conf rt n
    by (simp add: request_context_def Let_def)
  have "values_of H (rs_headers r) ''x-request-id'' = [correlation_of E rq]"
    if "fst (serve_route E (request_context E conf rt n rq) rq s) = Ret r" for conf rt n s
    using serve_route_correlation [OF H, of "request_context E conf rt n rq" rq s] corr that
    by (simp add: answers_def cx)
  with r show ?thesis
    by (auto simp: route_and_proxy_def Let_def error_response_def H correlation_set [OF corr] case_prod_beta
        split: option.splits)
qed

end

subsection \<open>The whole pipeline\<close>

lemma max_attempts_le: "unat (max (saturating_add_u32 r 1) 1) \<le> unat r + 1"
proof (cases "unat r + 1 < 2 ^ 32")
  case True
  then show ?thesis
    by (simp add: saturating_add_u32_def max_def unat_Suc_u32)
next
  case False
  then have "unat (w :: u32) \<le> unat r + 1" for w using unat_u32_less [of w] by simp
  then show ?thesis .
qed

lemma calls_unless_answered:
  assumes "sh_calls (snd m) = x" and "T x" and "\<And>s. sh_calls s = x \<Longrightarrow> T (sh_calls (snd (g s)))"
  shows "T (sh_calls (snd (unless_answered m g)))"
  using assms by (cases m; cases "fst m") (auto simp: unless_answered_def split: option.splits)

lemma max_attempts_forward: "fw_max_attempts (forward_of E c rq b) \<le> unat (rc_retries (cx_config c)) + 1"
  using max_attempts_le by (simp add: forward_of_def Let_def)

lemma serve_route_calls:
  assumes "sh_calls sh = []"
  shows "sh_calls (snd (serve_route E c rq sh)) = []
     \<or> (\<exists>b. e_to_bytes E (rq_body rq) (sc_max_body_bytes (cx_server c)) = Some b
          \<and> call_trace E c (forward_of E c rq b) (fw_max_attempts (forward_of E c rq b)) []
              (sh_calls (snd (serve_route E c rq sh))))"
    (is "?T (sh_calls (snd (serve_route E c rq sh)))")
proof -
  have fwd: "?T (sh_calls (snd (forward_stage E c rq s)))" if s: "sh_calls s = []" for s
  proof (cases "e_to_bytes E (rq_body rq) (sc_max_body_bytes (cx_server c))")
    case None
    with s show ?thesis by (simp add: forward_stage_def Let_def)
  next
    case (Some b)
    let ?f = "forward_of E c rq b"
    from Some s attempts_calls [of "fw_max_attempts ?f" ?f E c "[]" "interfere E AtBody s"] show ?thesis
      by (auto simp: forward_stage_def Let_def)
  qed
  show ?thesis
    unfolding serve_route_def
    by (intro calls_unless_answered [where x = "[]" and T = ?T]) (simp_all add: assms fwd)
qed

lemma opened_fields:
  "gs_metrics (write_back g n rt sh) = sh_metrics sh" "sh_metrics (shared_of g rt) = gs_metrics g"
  by (simp_all add: write_back_def shared_of_def)

lemma opened_route_and_proxy:
  fixes E :: "('hm, 's, 'b) env"
  assumes "others_keep opened E"
  shows "mt_active_connections (gs_metrics (snd (route_and_proxy E g rq))) = mt_active_connections (gs_metrics g)"
proof -
  have "opened (snd (serve_route E c rq sh)) = opened sh" for c and sh :: "('hm, 's) shared"
    using silent_view.serve_route_keeps [OF opened_view [OF assms]] .
  then show ?thesis
    by (simp add: route_and_proxy_def Let_def case_prod_beta opened_fields split: option.splits)
qed

section \<open>Properties\<close>

text \<open>C15. A request that fails authentication goes no further: it is answered 401, no upstream is
  called, no rate budget is used, no cache or balancer is touched; only the rejection and the
  request are counted. This holds whatever the rest of the gateway would have done.\<close>

theorem unauthorized_request_stops:
  assumes "authorize (e_http E) (e_decode E) (rc_auth (cx_config c)) (cx_headers c) = Inl reason"
  shows "\<exists>r sh'. serve_route E c rq sh = (Ret r, sh') \<and> rs_status r = 401
     \<and> sh_calls sh' = sh_calls sh \<and> sh_limiter sh' = sh_limiter sh
     \<and> sh_balancer sh' = sh_balancer sh \<and> sh_cache sh' = sh_cache sh
     \<and> mt_auth_rejections (sh_metrics sh') (cx_route c) = mt_auth_rejections (sh_metrics sh) (cx_route c) + 1"
  using assms
  by (simp add: serve_route_def auth_stage_def Let_def error_response_def record_request_def metric_def inc_def)

text \<open>C16. A request over its limit goes no further: it is answered 429 with the limit, zero remaining
  and the reset of the limiter's decision in its headers, and neither an upstream is called nor
  the balancer or the cache touched.\<close>

theorem rate_limited_request_stops:
  assumes "http_headers (e_http E)"
    and "authorize (e_http E) (e_decode E) (rc_auth (cx_config c)) (cx_headers c) = Inr ()"
    and "rc_rate_limit (cx_config c) = Some rl" and "\<not> e_dropped E AtLimiter"
    and "fst (limiter_check (e_redis E) (sh_limiter (interfere E AtLimiter sh))
           (rate_key (e_http E) (rl_scope rl) (cx_route c) (cx_client_ip c) (cx_headers c))
           (rl_limit rl) (from_secs (rl_window_secs rl)) (e_rate_now E)) = Ret d"
    and "\<not> rd_allowed d"
  shows "\<exists>r sh'. serve_route E c rq sh = (Ret r, sh') \<and> rs_status r = 429
     \<and> values_of (e_http E) (rs_headers r) ''x-ratelimit-limit'' = [show_nat (unat (rd_limit d))]
     \<and> values_of (e_http E) (rs_headers r) ''x-ratelimit-remaining'' = [show_nat 0]
     \<and> values_of (e_http E) (rs_headers r) ''retry-after'' = [show_nat (unat (rd_reset_secs d))]
     \<and> sh_calls sh' = sh_calls sh \<and> sh_balancer sh' = sh_balancer (interfere E AtLimiter sh)
     \<and> sh_cache sh' = sh_cache (interfere E AtLimiter sh)"
proof -
  obtain l where "limiter_check (e_redis E) (sh_limiter (interfere E AtLimiter sh))
      (rate_key (e_http E) (rl_scope rl) (cx_route c) (cx_client_ip c) (cx_headers c))
      (rl_limit rl) (from_secs (rl_window_secs rl)) (e_rate_now E) = (Ret d, l)"
    using assms(5) by (metis prod.collapse)
  then show ?thesis
    using assms(2,3,4,6) http_headers.ratelimit_values [OF assms(1)]
    by (simp add: serve_route_def auth_stage_def rate_stage_def Let_def error_response_def)
qed

text \<open>C10. Retries go to distinct upstreams and are bounded: one request makes at most
  \<^verbatim>\<open>retries + 1\<close> upstream calls, no two of them to the same upstream, and all with the same
  method, path and query, headers and body.\<close>

theorem retries_bounded_and_distinct:
  assumes "sh_calls sh = []"
  shows "length (sh_calls (snd (serve_route E c rq sh))) \<le> unat (rc_retries (cx_config c)) + 1
     \<and> distinct (map fst (sh_calls (snd (serve_route E c rq sh))))
     \<and> list_all (\<lambda>(_, u). \<exists>b base. e_to_bytes E (rq_body rq) (sc_max_body_bytes (cx_server c)) = Some b
          \<and> u = \<lparr>ur_method = cx_method c, ur_url = base @ fw_path_and_query (forward_of E c rq b),
                 ur_headers = fw_headers (forward_of E c rq b), ur_body = b,
                 ur_timeout = fw_timeout (forward_of E c rq b)\<rparr>)
        (sh_calls (snd (serve_route E c rq sh)))"
proof -
  have body: "fw_body (forward_of E c rq b) = b" for b by (simp add: forward_of_def Let_def)
  show ?thesis
    using serve_route_calls [OF assms, of E c rq] max_attempts_forward [of E c rq]
    by (auto simp: call_trace_def forwards_def body list_all_iff intro: order_trans)
qed

text \<open>C11. A request whose method is not idempotent is never replayed: after a call that is not the
  last one, the connection to that upstream had failed; in particular no upstream that answered
  (even with an error) is followed by another call.\<close>

theorem non_idempotent_not_replayed:
  assumes "\<not> is_idempotent (cx_method c)" and "sh_calls sh = []"
    and "calls = sh_calls (snd (serve_route E c rq sh))" and "Suc j < length calls"
  shows "e_send E j (snd (calls ! j)) = SendErr True"
proof -
  have "retry_ok (cx_method c) (e_send E j (snd (calls ! j)))"
    using serve_route_calls [OF assms(2), of E c rq] assms(3,4) by (auto simp: call_trace_def)
  with assms(1) show ?thesis
    by (auto simp: retry_ok_def split: send_result.splits)
qed

text \<open>Every active-request guard is released: whether the request is answered, retried or ends in a
  panic or is dropped half way, the active count of every upstream is afterwards what it was before (as long as the other
  tasks release what they take).\<close>

theorem active_counts_restored:
  assumes "others_keep (\<lambda>sh. actives (sh_balancer sh)) E"
  shows "actives (sh_balancer (snd (serve_route E c rq sh))) = actives (sh_balancer sh)"
  by (rule act_serve_route [OF assms])

text \<open>C17. Every response of the gateway, errors and cache hits included, carries exactly one
  \<^verbatim>\<open>x-request-id\<close>: the one the client sent, or else the generated one.\<close>

theorem correlation_id_on_every_response:
  assumes "http_headers (e_http E)" and "header_value (e_http E) (e_uuid E) = Some (e_uuid E)"
    and "fst (handle E g rq) = Ret r"
  shows "values_of (e_http E) (rs_headers r) ''x-request-id''
     = [case header_str (e_http E) (rq_headers rq) ''x-request-id'' of Some s \<Rightarrow> s | None \<Rightarrow> e_uuid E]"
proof -
  let ?g = "g\<lparr>gs_metrics := (gs_metrics g)\<lparr>mt_active_connections := mt_active_connections (gs_metrics g) + 1\<rparr>\<rparr>"
  have "fst (route_and_proxy E ?g rq) = Ret r"
    using assms(3) by (auto simp: handle_def Let_def bindr_Ret)
  from http_headers.route_and_proxy_correlation [OF assms(1) refl assms(2) this] show ?thesis
    by (simp add: correlation_of_def CORRELATION_HEADER_def)
qed

text \<open>The gauge of in-flight requests is balanced on every normal return, and only there: a request
  that panics, or whose future is dropped because the client has gone, leaves it one too high for
  ever.\<close>

theorem active_connections_balance:
  assumes "others_keep (\<lambda>sh. mt_active_connections (sh_metrics sh)) E"
  shows "mt_active_connections (gs_metrics (snd (handle E g rq)))
     = mt_active_connections (gs_metrics g) + (if is_Panic (fst (handle E g rq)) then 1 else 0)"
proof -
  let ?g = "g\<lparr>gs_metrics := (gs_metrics g)\<lparr>mt_active_connections := mt_active_connections (gs_metrics g) + 1\<rparr>\<rparr>"
  have "mt_active_connections (gs_metrics (snd (route_and_proxy E ?g rq))) = mt_active_connections (gs_metrics g) + 1"
    using opened_route_and_proxy [OF assms, of ?g rq] by simp
  then show ?thesis
    by (cases "route_and_proxy E ?g rq"; cases "fst (route_and_proxy E ?g rq)") (auto simp: handle_def Let_def)
qed

text \<open>C18. Every request that is answered for a route is counted exactly once, under the route, its
  method and a status; that status is the one the client receives, except when the upstream body
  of a response to be cached cannot be read: then 200 is counted and the client gets a 502.\<close>

theorem request_counted_once:
  assumes "others_keep (\<lambda>sh. mt_requests (sh_metrics sh)) E"
    and "fst (serve_route E c rq sh) = Ret r"
  shows "\<exists>s. mt_requests (sh_metrics (snd (serve_route E c rq sh)))
       = (mt_requests (sh_metrics sh))((cx_route c, cx_method c, status_text s) :=
            mt_requests (sh_metrics sh) (cx_route c, cx_method c, status_text s) + 1)
     \<and> (s = rs_status r \<or> s = 200 \<and> r = error_response E 502 ''upstream read failed'' (cx_correlation c))"
proof -
  let ?counted = "\<lambda>r y. \<exists>s. y = inc (reqs sh) (cx_route c, cx_method c, status_text s)
     \<and> (s = rs_status r \<or> s = 200 \<and> r = error_response E 502 ''upstream read failed'' (cx_correlation c))"
  note view = reqs_view [OF assms(1)]
  have "answers reqs ?counted (serve_route E c rq sh)"
    by (rule request_view.serve_route_answers [OF view])
      (auto simp: reqs_record error_response_def build_response_def cached_reply_def Let_def
        intro!: call_view.finish_response_answers [OF request_view.axioms(1) [OF view]])
  with assms(2) show ?thesis by (simp add: answers_def inc_def)
qed

section \<open>Examples\<close>

definition sample_env :: "(header_list, string \<Rightarrow> nat, string) env" where
  "sample_env =
     \<lparr>e_http = list_http, e_decode = (\<lambda>_ _ _. None), e_redis = counting_redis,
      e_to_bytes = (\<lambda>b n. if of_nat (length b) \<le> n then Some b else None),
      e_send = (\<lambda>_ _. SendErr True), e_uuid = ''u-1'', e_peer_ip = ''10.0.0.1'',
      e_error_json = (\<lambda>m. m), e_text_headers = [], e_order = (\<lambda>m. m),
      e_rate_now = 0, e_cache_now = 0, e_evict_now = 0, e_put_now = 0,
      e_pick_now = (\<lambda>_ _. 0), e_fail_now = (\<lambda>_. 0), e_latency = (\<lambda>_. 0), e_elapsed = 0,
      e_others = (\<lambda>_ sh. sh), e_dropped = (\<lambda>_. False)\<rparr>"

definition sample_request :: "string \<Rightarrow> (header_list, string) request" where
  "sample_request meth =
     \<lparr>rq_method = meth, rq_path = ''/p'', rq_query = None, rq_path_and_query = Some ''/p'',
      rq_headers = [(''host'', ''h'')], rq_body = ''body''\<rparr>"

definition sample_target :: route_config where
  "sample_target = (route_with_defaults ''r'' [\<lparr>uc_url = ''http://a'', uc_weight = 1\<rparr>,
      \<lparr>uc_url = ''http://b'', uc_weight = 1\<rparr>])\<lparr>rc_strategy := LeastConnections, rc_retries := 1\<rparr>"

definition sample_runtime :: route_runtime where
  "sample_runtime = runtime_from_config sample_target"

definition sample_ctx :: "string \<Rightarrow> header_list req_ctx" where
  "sample_ctx meth = request_context sample_env sample_config sample_runtime ''r'' (sample_request meth)"

definition bal0 :: balancer where "bal0 = from_route sample_target"

definition sample_shared :: "(header_list, string \<Rightarrow> nat) shared" where
  "sample_shared = \<lparr>sh_metrics = zero_metrics, sh_limiter = InMemory in_memory_new,
     sh_balancer = bal0, sh_cache = None, sh_calls = []\<rparr>"

lemmas sample_defs = sample_env_def sample_request_def sample_target_def sample_runtime_def sample_ctx_def
  sample_shared_def request_context_def route_with_defaults_def runtime_from_config_def sample_config_def
  server_config_default_def default_max_body_def auth_policy_default_def circuit_breaker_config_default_def
  default_cb_threshold_def default_cb_open_secs_def

lemmas stage_defs = serve_route_def auth_stage_def rate_stage_def cache_stage_def forward_stage_def
  forward_of_def interfere_def

text \<open>The states of the balancer when both upstreams refuse the connection.\<close>

definition bal1 :: balancer where "bal1 = guard_new 0 bal0"
definition bal2 :: balancer where "bal2 = snd (on_breaker 0 (\<lambda>cb. record_failure_at cb 0) bal1)"
definition bal3 :: balancer where "bal3 = guard_drop 0 bal2"

lemmas bal_eval = bal0_def bal1_def bal2_def bal3_def sample_defs from_route_def upstream_from_def
  pick_def pick_least_conn_def probe_at_def eligible_def take_guard_def least_update_def upd_upstream_def
  guard_new_def guard_drop_def on_breaker_def breaker_eval

lemma bal_steps:
  "pick [] (\<lambda>_. 0) bal0 = (Ret (Some 0), bal1)"
  "on_breaker 0 breaker_get_state bal1 = (Ret Closed, bal1)"
  "on_breaker 0 (\<lambda>cb. record_failure_at cb 0) bal1 = (Ret (), bal2)"
  "fst (pick [0] (\<lambda>_. 0) bal3) = Ret (Some 1)"
  by (simp_all add: bal_eval)

lemma attempts_first_call:
  assumes "fst (pick ex (e_pick_now E (fw_max_attempts f - 1)) (sh_balancer sh)) = Ret (Some i)"
  shows "\<exists>rq. sh_calls (snd (attempts E c f (Suc 0) ex sh)) = sh_calls sh @ [(i, rq)]"
proof -
  obtain b where p: "pick ex (e_pick_now E (fw_max_attempts f - 1)) (sh_balancer sh) = (Ret (Some i), b)"
    using assms by (metis prod.collapse)
  obtain r s where a: "attempt_once E c f (fw_max_attempts f - 1) i (sh\<lparr>sh_balancer := b\<rparr>) = (r, s)"
    by (rule prod.exhaust)
  have "sh_calls s = sh_calls sh @ [(i, upstream_request c f i (sh\<lparr>sh_balancer := b\<rparr>))]"
    using calls_attempt_once [of E c f "fw_max_attempts f - 1" i "sh\<lparr>sh_balancer := b\<rparr>"] a by simp
  with p a show ?thesis
    by (auto simp: on_balancer_def Let_def split: res.splits outcome.splits)
qed

lemma sample_env_sel [simp]:
  "e_send sample_env = (\<lambda>_ _. SendErr True)" "e_fail_now sample_env = (\<lambda>_. 0)"
  "e_pick_now sample_env = (\<lambda>_ _. 0)" "e_others sample_env = (\<lambda>_ sh. sh)" "e_dropped sample_env = (\<lambda>_. False)"
  "e_http sample_env = list_http"
  by (simp_all add: sample_env_def)

lemma sample_calls:
  "\<exists>rq0 rq1. sh_calls (snd (serve_route sample_env (sample_ctx ''POST'') (sample_request ''POST'') sample_shared))
     = [(0, rq0), (1, rq1)]"
proof -
  let ?c = "sample_ctx ''POST''" and ?rq = "sample_request ''POST''"
  let ?f = "forward_of sample_env ?c ?rq ''body''"
  have f: "fw_max_attempts ?f = Suc (Suc 0)"
    by (simp add: forward_of_def sample_defs saturating_add_u32_def Let_def)
  have "serve_route sample_env ?c ?rq sample_shared = attempts sample_env ?c ?f (fw_max_attempts ?f) [] sample_shared"
    by (simp add: serve_route_def auth_stage_def rate_stage_def cache_stage_def forward_stage_def interfere_def
        sample_defs Let_def)
  moreover obtain s where s: "attempt_once sample_env ?c ?f 0 0 (sample_shared\<lparr>sh_balancer := bal1\<rparr>) = (Ret Retry, s)"
      "sh_balancer s = bal2"
    by (simp add: attempt_once_def call_upstream_def note_failure_def on_balancer_def interfere_def metric_def
        f bal_steps Let_def)
  moreover have "\<exists>rq. sh_calls s = [(0, rq)]"
    using calls_attempt_once [of sample_env ?c ?f 0 0 "sample_shared\<lparr>sh_balancer := bal1\<rparr>"] s(1)
    by (simp add: sample_shared_def)
  moreover have "sh_balancer sample_shared = bal0" by (simp add: sample_shared_def)
  moreover have "\<exists>rq. sh_calls (snd (attempts sample_env ?c ?f (Suc 0) [0] (drop_guard 0 s)))
      = sh_calls (drop_guard 0 s) @ [(1, rq)]"
    using s(2) bal_steps(4) by (intro attempts_first_call) (simp add: bal3_def)
  ultimately show ?thesis
    by (auto simp: f on_balancer_def bal_steps Let_def)
qed

lemma sample_ctx_sel [simp]:
  "cx_headers (sample_ctx m) = [(''host'', ''h'')]" "cx_route (sample_ctx m) = ''r''" "cx_method (sample_ctx m) = m"
  by (simp_all add: sample_ctx_def request_context_def sample_request_def Let_def)

theorem unauthorized_request_stops_witness:
  "\<exists>r sh'. serve_route sample_env ((sample_ctx ''GET'')\<lparr>cx_config := sample_target\<lparr>rc_auth := ApiKey [''k'']\<rparr>\<rparr>)
       (sample_request ''GET'') sample_shared = (Ret r, sh') \<and> rs_status r = 401
     \<and> sh_calls sh' = [] \<and> sh_balancer sh' = bal0"
proof -
  let ?c = "(sample_ctx ''GET'')\<lparr>cx_config := sample_target\<lparr>rc_auth := ApiKey [''k'']\<rparr>\<rparr>"
  have "authorize (e_http sample_env) (e_decode sample_env) (rc_auth (cx_config ?c)) (cx_headers ?c)
      = Inl ''missing API key''"
    by (simp add: extract_api_key_def header_str_def)
  from unauthorized_request_stops [OF this, of "sample_request ''GET''" sample_shared] show ?thesis
    by (auto simp: sample_shared_def)
qed

theorem rate_limited_request_stops_witness:
  "\<exists>r sh'. serve_route sample_env ((sample_ctx ''GET'')\<lparr>cx_config := sample_target\<lparr>rc_rate_limit :=
         Some \<lparr>rl_scope = ScopeRoute, rl_limit = 0, rl_window_secs = 1\<rparr>\<rparr>\<rparr>)
       (sample_request ''GET'') sample_shared = (Ret r, sh') \<and> rs_status r = 429 \<and> sh_calls sh' = []
     \<and> values_of list_http (rs_headers r) ''retry-after'' = [show_nat 1]"
proof -
  let ?rl = "\<lparr>rl_scope = ScopeRoute, rl_limit = 0, rl_window_secs = 1\<rparr>"
  let ?c = "(sample_ctx ''GET'')\<lparr>cx_config := sample_target\<lparr>rc_rate_limit := Some ?rl\<rparr>\<rparr>"
  let ?d = "\<lparr>rd_allowed = False, rd_limit = 0, rd_remaining = 0, rd_reset_secs = 1\<rparr>"
  have h: "http_headers (e_http sample_env)" using list_headers.http_headers_axioms by simp
  have a: "authorize (e_http sample_env) (e_decode sample_env) (rc_auth (cx_config ?c)) (cx_headers ?c) = Inr ()"
    by (simp add: sample_target_def route_with_defaults_def auth_policy_default_def)
  have l: "rc_rate_limit (cx_config ?c) = Some ?rl" by simp
  have d: "fst (limiter_check (e_redis sample_env) (sh_limiter (interfere sample_env AtLimiter sample_shared))
      (rate_key (e_http sample_env) (rl_scope ?rl) (cx_route ?c) (cx_client_ip ?c) (cx_headers ?c))
      (rl_limit ?rl) (from_secs (rl_window_secs ?rl)) (e_rate_now sample_env)) = Ret ?d"
    by (simp add: interfere_def sample_shared_def limiter_check_cases in_memory_new_def in_memory_check_eq
        mem_usable_def in_memory_check_body_def window_entry_def duration_since_def as_secs_def nanos_per_sec_def
        from_secs_def)
  have "\<not> rd_allowed ?d" by simp
  from rate_limited_request_stops [OF h a l _ d this, of "sample_request ''GET''"] show ?thesis
    by (auto simp: sample_shared_def)
qed

theorem retries_bounded_and_distinct_witness:
  "\<exists>a b. map fst (sh_calls (snd (serve_route sample_env (sample_ctx ''POST'') (sample_request ''POST'')
       sample_shared))) = [a, b] \<and> a \<noteq> b"
  using sample_calls retries_bounded_and_distinct [of sample_shared sample_env "sample_ctx ''POST''" "sample_request ''POST''"]
  by (auto simp: sample_shared_def)

theorem non_idempotent_not_replayed_witness:
  "\<exists>rq0 rq1. sh_calls (snd (serve_route sample_env (sample_ctx ''POST'') (sample_request ''POST'') sample_shared))
     = [(0, rq0), (1, rq1)] \<and> e_send sample_env 0 rq0 = SendErr True"
proof -
  obtain rq0 rq1 where calls: "sh_calls (snd (serve_route sample_env (sample_ctx ''POST'') (sample_request ''POST'')
      sample_shared)) = [(0, rq0), (1, rq1)]"
    using sample_calls by blast
  moreover have "\<not> is_idempotent (cx_method (sample_ctx ''POST''))" "sh_calls sample_shared = []"
    by (simp_all add: is_idempotent_def sample_ctx_def request_context_def sample_request_def sample_shared_def Let_def)
  ultimately show ?thesis
    using non_idempotent_not_replayed [of "sample_ctx ''POST''" sample_shared _ sample_env "sample_request ''POST''" 0]
    by simp
qed

theorem active_counts_restored_witness:
  "actives (sh_balancer (snd (serve_route sample_env (sample_ctx ''POST'') (sample_request ''POST'') sample_shared)))
     = actives bal0"
  using active_counts_restored [of sample_env "sample_ctx ''POST''" "sample_request ''POST''" sample_shared]
  by (simp add: others_keep_def sample_shared_def)

definition routed_state :: "(string \<Rightarrow> nat) gateway_state" where
  "routed_state = \<lparr>gs_config = sample_config\<lparr>gc_routes := []\<rparr>, gs_routes = (\<lambda>_. None),
     gs_limiter = InMemory in_memory_new, gs_metrics = zero_metrics\<rparr>"

lemma routed_state_404:
  "fst (handle sample_env routed_state (sample_request ''GET''))
     = Ret (error_response sample_env 404 ''no matching route'' ''u-1'')"
  by (simp add: handle_def route_and_proxy_def routed_state_def match_route_def correlation_of_def
      sample_request_def header_str_def CORRELATION_HEADER_def Let_def sample_env_def)

theorem correlation_id_on_every_response_witness:
  "values_of list_http (rs_headers (error_response sample_env 404 ''no matching route'' ''u-1'')) ''x-request-id''
     = [''u-1'']"
proof -
  have "http_headers (e_http sample_env)" using list_headers.http_headers_axioms by simp
  moreover have "header_value (e_http sample_env) (e_uuid sample_env) = Some (e_uuid sample_env)"
    by (simp add: sample_env_def visible_ascii_def)
  ultimately show ?thesis
    using correlation_id_on_every_response [OF _ _ routed_state_404]
    by (simp add: sample_request_def header_str_def sample_env_def)
qed

theorem active_connections_balance_witness:
  "mt_active_connections (gs_metrics (snd (handle sample_env routed_state (sample_request ''GET''))))
     = mt_active_connections zero_metrics"
  using active_connections_balance [of sample_env routed_state "sample_request ''GET''"]
  by (simp add: others_keep_def routed_state_404) (simp add: routed_state_def)

theorem request_counted_once_witness:
  "\<exists>r s. fst (serve_route sample_env ((sample_ctx ''GET'')\<lparr>cx_config := sample_target\<lparr>rc_auth := ApiKey [''k'']\<rparr>\<rparr>)
       (sample_request ''GET'') sample_shared) = Ret r
     \<and> mt_requests (sh_metrics (snd (serve_route sample_env
         ((sample_ctx ''GET'')\<lparr>cx_config := sample_target\<lparr>rc_auth := ApiKey [''k'']\<rparr>\<rparr>)
         (sample_request ''GET'') sample_shared))) (''r'', ''GET'', status_text s)
       = mt_requests zero_metrics (''r'', ''GET'', status_text s) + 1"
proof -
  let ?c = "(sample_ctx ''GET'')\<lparr>cx_config := sample_target\<lparr>rc_auth := ApiKey [''k'']\<rparr>\<rparr>"
  have "fst (serve_route sample_env ?c (sample_request ''GET'') sample_shared)
      = Ret (error_response sample_env 401 ''missing API key'' (cx_correlation ?c))"
    by (simp add: serve_route_def auth_stage_def Let_def extract_api_key_def header_str_def)
  then show ?thesis
    using request_counted_once [of sample_env ?c "sample_request ''GET''" sample_shared]
    by (auto simp: others_keep_def sample_shared_def)
qed

end
