(* ===== verification/Pipeline.thy ===== *)
theory Pipeline
  imports Proxy
begin

text \<open>
  Properties of the whole request pipeline of \<^verbatim>\<open>crates/gateway/src/proxy.rs\<close>: it keeps the
  shared state usable and answers every request, a healthy upstream's answer reaches the client,
  what may be stored in the cache, which headers reach an upstream,
  and that routes do not share rate-limit buckets.
\<close>

section \<open>Usable shared state\<close>

fun limiter_ok :: "'s limiter \<Rightarrow> bool" where
  "limiter_ok (InMemory l) \<longleftrightarrow> \<not> poisoned (lim_windows l)"
| "limiter_ok (Redis s) \<longleftrightarrow> True"

definition shared_ok :: "('hm, 's) shared \<Rightarrow> bool" where
  "shared_ok sh \<longleftrightarrow> bal_ok (sh_balancer sh) \<and> (\<forall>c. sh_cache sh = Some c \<longrightarrow> cache_ok c) \<and> limiter_ok (sh_limiter sh)"

text \<open>What no operation changes: the addresses and cooldowns of the upstreams, the cache's time to live.\<close>

definition static_view :: "('hm, 's) shared \<Rightarrow> (string \<times> duration) list \<times> duration option" where
  "static_view sh = (map (\<lambda>u. (up_url u, cb_open_for (up_breaker u))) (bal_upstreams (sh_balancer sh)),
     map_option ca_ttl (sh_cache sh))"

text \<open>
  The environment is sound: the client waits for its answer, other tasks keep the state usable and its static part, a
  \<^verbatim>\<open>HashMap\<close> iterates over its entries, and the clock is so far from its end that the
  cooldowns and the time to live fit.
\<close>

definition env_ok :: "('hm, 's, 'b) env \<Rightarrow> (string \<times> duration) list \<times> duration option \<Rightarrow> bool" where
  "env_ok E x \<longleftrightarrow>
     (\<forall>a. \<not> e_dropped E a)
     \<and> (\<forall>a sh. shared_ok sh \<longrightarrow> shared_ok (e_others E a sh) \<and> static_view (e_others E a sh) = static_view sh)
     \<and> map_order (e_order E)
     \<and> (\<forall>n. \<forall>d \<in> snd ` set (fst x). e_fail_now E n + d < instant_limit)
     \<and> (\<forall>ttl. snd x = Some ttl \<longrightarrow> e_put_now E + ttl < instant_limit)"

definition returns :: "(string \<times> duration) list \<times> duration option \<Rightarrow> 'a res \<times> ('hm, 's) shared \<Rightarrow> bool" where
  "returns x m \<longleftrightarrow> (\<exists>a s. m = (Ret a, s) \<and> shared_ok s \<and> static_view s = x)"

lemma returns_Ret [simp]: "returns x (Ret a, s) \<longleftrightarrow> shared_ok s \<and> static_view s = x"
  by (simp add: returns_def)

lemma returns_bindr:
  assumes "returns x m" and "\<And>a s. m = (Ret a, s) \<Longrightarrow> shared_ok s \<Longrightarrow> static_view s = x \<Longrightarrow> returns x (f a s)"
  shows "returns x (bindr m f)"
  using assms by (auto simp: returns_def)

lemma returns_unless:
  assumes "returns x m" and "\<And>s. shared_ok s \<Longrightarrow> static_view s = x \<Longrightarrow> returns x (f s)"
  shows "returns x (unless_answered m f)"
proof -
  obtain a s where "m = (Ret a, s)" "shared_ok s" "static_view s = x" using assms(1) by (auto simp: returns_def)
  with assms(2) show ?thesis by (cases a) auto
qed

lemma shared_ok_metric [simp]: "shared_ok (metric g sh) = shared_ok sh" "static_view (metric g sh) = static_view sh"
  by (simp_all add: shared_ok_def static_view_def)

lemma shared_ok_record [simp]:
  "shared_ok (record_request E r m s sh) = shared_ok sh" "static_view (record_request E r m s sh) = static_view sh"
  by (simp_all add: record_request_def)

lemma shared_ok_calls [simp]:
  "shared_ok (sh\<lparr>sh_calls := l\<rparr>) = shared_ok sh" "static_view (sh\<lparr>sh_calls := l\<rparr>) = static_view sh"
  by (simp_all add: shared_ok_def static_view_def)

lemma env_ok_dropped [simp]: "env_ok E x \<Longrightarrow> \<not> e_dropped E a"
  by (simp add: env_ok_def)

lemma interfere_ok:
  "env_ok E x \<Longrightarrow> shared_ok sh \<Longrightarrow> shared_ok (interfere E a sh) \<and> static_view (interfere E a sh) = static_view sh"
  by (simp add: interfere_def env_ok_def)

lemma static_length: "length (bal_upstreams (sh_balancer sh)) = length (fst (static_view sh))"
  by (simp add: static_view_def)

subsection \<open>The balancer\<close>

definition addresses :: "balancer \<Rightarrow> (string \<times> duration) list" where
  "addresses b = map (\<lambda>u. (up_url u, cb_open_for (up_breaker u))) (bal_upstreams b)"

lemma static_view_eq: "static_view sh = (addresses (sh_balancer sh), map_option ca_ttl (sh_cache sh))"
  by (simp add: static_view_def addresses_def)

lemma addresses_frame: "bal_frame b b' \<Longrightarrow> addresses b' = addresses b"
  unfolding addresses_def bal_frame_def probed_def list_all2_conv_all_nth
  by (intro nth_equalityI) auto

lemma addresses_upd:
  assumes "i < length (bal_upstreams b) \<Longrightarrow> up_url (f (bal_upstreams b ! i)) = up_url (bal_upstreams b ! i)
      \<and> cb_open_for (up_breaker (f (bal_upstreams b ! i))) = cb_open_for (up_breaker (bal_upstreams b ! i))"
  shows "addresses (upd_upstream i f b) = addresses b"
proof (cases "i < length (bal_upstreams b)")
  case True
  with assms show ?thesis
    unfolding addresses_def upd_upstream_def by (intro nth_equalityI) (auto simp: nth_list_update)
qed (simp add: addresses_def upd_upstream_def list_update_beyond)

lemma addresses_guards [simp]: "addresses (guard_new i b) = addresses b" "addresses (guard_drop i b) = addresses b"
  by (simp_all add: guard_new_def guard_drop_def addresses_upd)

lemma addresses_pick:
  assumes "bal_ok b" and "pick ex clk b = (r, b')"
  shows "addresses b' = addresses b"
proof -
  obtain io where r: "r = Ret io" using pick_total [OF assms(1), of ex clk] assms(2) by auto
  show ?thesis
  proof (cases io)
    case None
    with pick_none [OF assms(1)] assms(2) r show ?thesis by (blast intro: addresses_frame)
  next
    case (Some i)
    with assms r show ?thesis by (auto elim!: pick_some simp: addresses_frame)
  qed
qed

lemma pick_returns: "shared_ok sh \<Longrightarrow> returns (static_view sh) (on_balancer (pick ex clk) sh)"
proof -
  assume ok: "shared_ok sh"
  obtain r b where p: "pick ex clk (sh_balancer sh) = (r, b)" by (rule prod.exhaust)
  with ok pick_total [of "sh_balancer sh" ex clk] pick_ok [of "sh_balancer sh" ex clk r b]
    addresses_pick [of "sh_balancer sh" ex clk r b]
  show ?thesis by (auto simp: shared_ok_def on_balancer_def static_view_eq)
qed

lemma on_breaker_returns:
  assumes "shared_ok sh" and "i < length (bal_upstreams (sh_balancer sh))"
    and "\<exists>a. fst (m (up_breaker (bal_upstreams (sh_balancer sh) ! i))) = Ret a"
    and "breaker_ok (snd (m (up_breaker (bal_upstreams (sh_balancer sh) ! i))))"
    and "cb_open_for (snd (m (up_breaker (bal_upstreams (sh_balancer sh) ! i))))
       = cb_open_for (up_breaker (bal_upstreams (sh_balancer sh) ! i))"
  shows "returns (static_view sh) (on_balancer (on_breaker i m) sh)"
  using assms
  by (auto simp: on_balancer_def on_breaker_def case_prod_beta shared_ok_def static_view_eq addresses_upd bal_ok_upd)

lemma drop_guard_ok:
  "shared_ok sh \<Longrightarrow> i < length (bal_upstreams (sh_balancer sh)) \<Longrightarrow>
   shared_ok (drop_guard i sh) \<and> static_view (drop_guard i sh) = static_view sh"
  by (simp add: drop_guard_def shared_ok_def static_view_eq)

lemma in_range: "static_view s = x \<Longrightarrow> i < length (fst x) \<Longrightarrow> i < length (bal_upstreams (sh_balancer s))"
  by (auto simp: static_view_def)

lemma shared_ok_breaker:
  "shared_ok s \<Longrightarrow> i < length (bal_upstreams (sh_balancer s)) \<Longrightarrow> breaker_ok (up_breaker (bal_upstreams (sh_balancer s) ! i))"
  by (simp add: shared_ok_def bal_ok_breaker)

lemma failure_fits:
  assumes "env_ok E x" and "static_view s = x" and "i < length (bal_upstreams (sh_balancer s))"
  shows "clock_fits (up_breaker (bal_upstreams (sh_balancer s) ! i)) (e_fail_now E n)"
proof -
  have "cb_open_for (up_breaker (bal_upstreams (sh_balancer s) ! i)) \<in> snd ` set (fst x)"
    using assms(2,3) by (force simp: static_view_def)
  moreover have "\<forall>d \<in> snd ` set (fst x). e_fail_now E n + d < instant_limit"
    using assms(1) by (simp add: env_ok_def)
  ultimately show ?thesis unfolding clock_fits_def by blast
qed

subsection \<open>The stages\<close>

lemma store_returns:
  assumes "env_ok E x" and "shared_ok s" and "static_view s = x"
  shows "returns x (store_in_cache E k st' p b s)"
proof (cases "sh_cache s")
  case None
  with assms show ?thesis by (simp add: store_in_cache_def)
next
  case (Some ca)
  let ?put = "cache_put (e_order E) ca k st' p b (e_evict_now E) (e_put_now E)"
  have ok: "cache_ok ca" and fits: "e_put_now E + ca_ttl ca < instant_limit" and mo: "map_order (e_order E)"
    using assms Some by (auto simp: shared_ok_def env_ok_def static_view_def)
  have "fst ?put = Ret ()" "cache_ok (snd ?put)"
    using map_order.put_usable [OF mo ok fits] by auto
  with assms Some show ?thesis
    by (auto simp: store_in_cache_def case_prod_beta shared_ok_def static_view_def)
qed

lemma finish_response_returns:
  assumes "env_ok E x" and "shared_ok s" and "static_view s = x"
  shows "returns x (finish_response E c resp s)"
  using assms interfere_ok [OF assms(1), of "record_request E (cx_route c) (cx_method c) 200 s" AtRead]
    env_ok_dropped [OF assms(1)]
  by (auto simp: finish_response_def Let_def split: option.splits intro!: returns_bindr store_returns)

lemma state_returns:
  assumes "shared_ok t" and "static_view t = x" and "i < length (fst x)"
  shows "returns x (on_balancer (on_breaker i breaker_get_state) t)"
proof -
  have i: "i < length (bal_upstreams (sh_balancer t))" using in_range [OF assms(2,3)] .
  have "breaker_ok (up_breaker (bal_upstreams (sh_balancer t) ! i))"
    using shared_ok_breaker [OF assms(1) i] .
  then show ?thesis
    using on_breaker_returns [OF assms(1) i, of breaker_get_state] assms(2)
    by (auto simp: breaker_get_state_def breaker_ok_def on_inner_def lock_simps)
qed

lemma call_upstream_returns:
  assumes "env_ok E x" and "shared_ok s" and "static_view s = x" and "i < length (fst x)"
  shows "returns x (call_upstream E c f n i s)"
proof -
  have "shared_ok (interfere E (AtSend n) (s\<lparr>sh_calls := l\<rparr>))
      \<and> static_view (interfere E (AtSend n) (s\<lparr>sh_calls := l\<rparr>)) = x" for l
    using interfere_ok [OF assms(1), of "s\<lparr>sh_calls := l\<rparr>" "AtSend n"] assms(2,3) by simp
  then show ?thesis
    unfolding call_upstream_def Let_def using env_ok_dropped [OF assms(1)] assms(4)
    by (auto intro!: returns_bindr state_returns)
qed

lemma note_failure_returns:
  assumes "env_ok E x" and "shared_ok s" and "static_view s = x" and "i < length (fst x)"
  shows "returns x (note_failure E c n i s)"
proof -
  have i: "i < length (bal_upstreams (sh_balancer s))" using in_range [OF assms(3,4)] .
  have "returns x (on_balancer (on_breaker i (\<lambda>cb. record_failure_at cb (e_fail_now E n))) s)"
    using on_breaker_returns [OF assms(2) i, of "\<lambda>cb. record_failure_at cb (e_fail_now E n)"] assms(3)
      record_failure_ok [OF shared_ok_breaker [OF assms(2) i] failure_fits [OF assms(1,3) i]]
    by simp
  then show ?thesis
    unfolding note_failure_def by (rule returns_bindr) simp
qed

lemma success_returns:
  assumes "shared_ok s" and "static_view s = x" and "i < length (fst x)"
  shows "returns x (on_balancer (on_breaker i record_success) s)"
proof -
  have i: "i < length (bal_upstreams (sh_balancer s))" using in_range [OF assms(2,3)] .
  have b: "breaker_ok (up_breaker (bal_upstreams (sh_balancer s) ! i))"
    using shared_ok_breaker [OF assms(1) i] .
  then show ?thesis
    using on_breaker_returns [OF assms(1) i, of record_success] assms(2)
    by (simp add: record_success_ok) (simp add: breaker_ok_def)
qed

lemma attempt_once_returns:
  fixes E :: "('hm, 's, 'b) env"
  assumes "env_ok E x" and "shared_ok s" and "static_view s = x" and "i < length (fst x)"
  shows "returns x (attempt_once E c f n i s)"
proof -
  have ret: "returns x (return_response E c resp t)" if "shared_ok t" "static_view t = x" for resp t
    unfolding return_response_def
    using finish_response_returns [OF assms(1) that] by (rule returns_bindr) simp
  show ?thesis
    unfolding attempt_once_def Let_def
  proof (rule returns_bindr [OF call_upstream_returns [OF assms]])
    fix r and t :: "('hm, 's) shared"
    assume t: "shared_ok t" "static_view t = x"
    have failed: "returns x (bindr (note_failure E c n i t) g)"
      if "\<And>a s. shared_ok s \<Longrightarrow> static_view s = x \<Longrightarrow> returns x (g a s)" for g :: "unit \<Rightarrow> _"
      by (rule returns_bindr [OF note_failure_returns [OF assms(1) t assms(4)]]) (rule that)
    have passed: "returns x (bindr (on_balancer (on_breaker i record_success) t) g)"
      if "\<And>a s. shared_ok s \<Longrightarrow> static_view s = x \<Longrightarrow> returns x (g a s)" for g :: "unit \<Rightarrow> _"
      by (rule returns_bindr [OF success_returns [OF t assms(4)]]) (rule that)
    show "returns x (case r of
        SendOk resp \<Rightarrow>
          if is_server_error (us_status resp) then
            bindr (note_failure E c n i t) (\<lambda>_ sh.
              if is_idempotent (cx_method c) \<and> n + 1 < fw_max_attempts f then (Ret Retry, sh)
              else return_response E c resp sh)
          else bindr (on_balancer (on_breaker i record_success) t) (\<lambda>_ sh. return_response E c resp sh)
      | SendErr is_connect \<Rightarrow>
          bindr (note_failure E c n i t) (\<lambda>_ sh.
            if (is_idempotent (cx_method c) \<or> is_connect) \<and> n + 1 < fw_max_attempts f then (Ret Retry, sh)
            else (Ret (Answer (error_response E 502 ''upstream unavailable'' (cx_correlation c))),
                  record_request E (cx_route c) (cx_method c) 502 sh)))"
      by (cases r) (simp_all add: ret failed passed)
  qed
qed

lemma attempts_returns:
  fixes E :: "('hm, 's, 'b) env"
  assumes "env_ok E x" and "shared_ok s" and "static_view s = x"
  shows "returns x (attempts E c f k ex s)"
  using assms(2,3)
proof (induction k arbitrary: ex s)
  case 0
  then show ?case by simp
next
  case (Suc k)
  let ?n = "fw_max_attempts f - Suc k"
  have "returns x (on_balancer (pick ex (e_pick_now E ?n)) s)"
    using pick_returns [OF Suc.prems(1), of ex "e_pick_now E ?n"] Suc.prems(2) by simp
  then show ?case
    unfolding attempts.simps Let_def
  proof (rule returns_bindr)
    fix sel and t :: "('hm, 's) shared"
    assume p: "on_balancer (pick ex (e_pick_now E ?n)) s = (Ret sel, t)" and t: "shared_ok t" "static_view t = x"
    show "returns x (case sel of
        None \<Rightarrow> (Ret (error_response E 503 ''no healthy upstream'' (cx_correlation c)),
                 record_request E (cx_route c) (cx_method c) 503 t)
      | Some idx \<Rightarrow> (case attempt_once E c f ?n idx t of
           (Panic, sh) \<Rightarrow> (Panic, drop_guard idx sh)
         | (Ret (Answer r), sh) \<Rightarrow> (Ret r, drop_guard idx sh)
         | (Ret Retry, sh) \<Rightarrow> attempts E c f k (ex @ [idx]) (drop_guard idx sh)))"
    proof (cases sel)
      case None
      with t show ?thesis by simp
    next
      case (Some i)
      have i: "i < length (fst x)"
      proof -
        from p Some obtain b where "pick ex (e_pick_now E ?n) (sh_balancer s) = (Ret (Some i), b)"
          by (auto simp: on_balancer_def split: prod.splits)
        from pick_any [OF this] have "i < length (bal_upstreams (sh_balancer s))" by auto
        with Suc.prems(2) show ?thesis by (simp add: static_length)
      qed
      obtain out u where a: "attempt_once E c f ?n i t = (Ret out, u)" "shared_ok u" "static_view u = x"
        using attempt_once_returns [OF assms(1) t i, of c f ?n] by (auto simp: returns_def)
      from drop_guard_ok [OF a(2) in_range [OF a(3) i]] a(3)
      have "shared_ok (drop_guard i u)" "static_view (drop_guard i u) = x" by auto
      with Some a(1) Suc.IH show ?thesis by (cases out) auto
    qed
  qed
qed

lemma limiter_returns:
  "limiter_ok l \<Longrightarrow> \<exists>d l'. limiter_check R l key lim w now = (Ret d, l') \<and> limiter_ok l'"
proof (cases l)
  case (InMemory m)
  assume "limiter_ok l"
  with InMemory show ?thesis
    by (auto simp: in_memory_check_eq mem_usable_def in_memory_check_body_def case_prod_beta Let_def)
next
  case (Redis s)
  then show ?thesis
    using fst_redis_check [of R s key lim w] by (auto simp: case_prod_beta)
qed

lemma rate_stage_returns:
  assumes "env_ok E x" and "shared_ok s" and "static_view s = x"
  shows "returns x (rate_stage E c s)"
proof (cases "rc_rate_limit (cx_config c)")
  case None
  with assms show ?thesis by (simp add: rate_stage_def)
next
  case (Some rl)
  let ?s = "interfere E AtLimiter s"
  have s: "shared_ok ?s" "static_view ?s = x" using interfere_ok [OF assms(1,2)] assms(3) by auto
  then have "limiter_ok (sh_limiter ?s)" by (simp add: shared_ok_def)
  then obtain d l where l: "limiter_check (e_redis E) (sh_limiter ?s)
      (rate_key (e_http E) (rl_scope rl) (cx_route c) (cx_client_ip c) (cx_headers c))
      (rl_limit rl) (from_secs (rl_window_secs rl)) (e_rate_now E) = (Ret d, l)" "limiter_ok l"
    using limiter_returns by blast
  from s l(2) have "shared_ok (?s\<lparr>sh_limiter := l\<rparr>)" "static_view (?s\<lparr>sh_limiter := l\<rparr>) = x"
    by (simp_all add: shared_ok_def static_view_def)
  with Some l(1) env_ok_dropped [OF assms(1)] show ?thesis by (simp add: rate_stage_def Let_def)
qed

lemma cache_stage_returns:
  assumes "shared_ok s" and "static_view s = x"
  shows "returns x (cache_stage E c s)"
proof (cases "sh_cache s")
  case None
  with assms show ?thesis by (simp add: cache_stage_def)
next
  case (Some ca)
  let ?get = "cache_get ca (cx_cache_key c) (e_cache_now E)"
  have ok: "cache_ok ca" using assms(1) Some by (simp add: shared_ok_def)
  have "shared_ok (s\<lparr>sh_cache := Some (snd ?get)\<rparr>)" "static_view (s\<lparr>sh_cache := Some (snd ?get)\<rparr>) = x"
    using assms Some get_ok [OF ok] by (auto simp: shared_ok_def static_view_def)
  with assms Some get_fst [OF ok, of "cx_cache_key c" "e_cache_now E"] show ?thesis
    by (simp add: cache_stage_def case_prod_beta Let_def split: option.split)
qed

lemma auth_stage_returns: "shared_ok s \<Longrightarrow> static_view s = x \<Longrightarrow> returns x (auth_stage E c s)"
  by (simp add: auth_stage_def Let_def split: sum.split)

lemma forward_stage_returns:
  assumes "env_ok E x" and "shared_ok s" and "static_view s = x"
  shows "returns x (forward_stage E c rq s)"
proof -
  have "shared_ok (interfere E AtBody s)" "static_view (interfere E AtBody s) = x"
    using interfere_ok [OF assms(1,2)] assms(3) by auto
  then show ?thesis
    using attempts_returns [OF assms(1)] env_ok_dropped [OF assms(1)]
    by (simp add: forward_stage_def Let_def split: option.split)
qed

lemma serve_route_returns:
  assumes "env_ok E x" and "shared_ok s" and "static_view s = x"
  shows "returns x (serve_route E c rq s)"
  unfolding serve_route_def using assms
  by (intro returns_unless auth_stage_returns rate_stage_returns cache_stage_returns forward_stage_returns)

section \<open>A sequence of requests\<close>

text \<open>
  Requests to the gateway one after the other, each with its own environment (which includes what
  other tasks do while it waits).
\<close>

fun handle_all ::
  "'s gateway_state \<Rightarrow> (('hm, 's, 'b) env \<times> ('hm, 'b) request) list \<Rightarrow> 'hm response res list \<times> 's gateway_state" where
  "handle_all g [] = ([], g)"
| "handle_all g ((E, rq) # rest) =
     (let (r, g) = handle E g rq; (rs, g) = handle_all g rest in (r # rs, g))"

definition gateway_ok :: "'s gateway_state \<Rightarrow> bool" where
  "gateway_ok g \<longleftrightarrow> limiter_ok (gs_limiter g)
     \<and> (\<forall>r \<in> set (gc_routes (gs_config g)). \<exists>rt. gs_routes g (rc_name r) = Some rt \<and> runtime_ok rt)"

definition runtime_static :: "route_runtime \<Rightarrow> (string \<times> duration) list \<times> duration option" where
  "runtime_static rt = (addresses (rt_balancer rt), map_option ca_ttl (rt_cache rt))"

definition gateway_static :: "'s gateway_state \<Rightarrow> string \<rightharpoonup> (string \<times> duration) list \<times> duration option" where
  "gateway_static g = (\<lambda>n. map_option runtime_static (gs_routes g n))"

text \<open>The environment is sound for every route of the gateway.\<close>

definition env_fits :: "('hm, 's, 'b) env \<Rightarrow> 's gateway_state \<Rightarrow> bool" where
  "env_fits E g \<longleftrightarrow> (\<forall>n x. gateway_static g n = Some x \<longrightarrow> env_ok E x)"

lemma shared_of_ok:
  "shared_ok (shared_of g rt) \<longleftrightarrow> runtime_ok rt \<and> limiter_ok (gs_limiter g)"
  "static_view (shared_of g rt) = runtime_static rt"
  by (auto simp: shared_ok_def shared_of_def runtime_ok_def static_view_eq runtime_static_def)

lemma write_back_ok:
  assumes "gateway_ok g" and "shared_ok sh" and "gs_routes g n = Some rt" and "static_view sh = runtime_static rt"
  shows "gateway_ok (write_back g n rt sh)" "gateway_static (write_back g n rt sh) = gateway_static g"
  using assms
  by (auto simp: gateway_ok_def write_back_def shared_ok_def runtime_ok_def gateway_static_def static_view_eq
      runtime_static_def)

lemma route_and_proxy_ok:
  assumes "gateway_ok g" and "env_fits E g"
  shows "\<exists>r g'. route_and_proxy E g rq = (Ret r, g') \<and> gateway_ok g'
     \<and> gateway_static g' = gateway_static g \<and> gs_config g' = gs_config g"
proof -
  let ?host = "case header_str (e_http E) (rq_headers rq) ''host'' of Some s \<Rightarrow> s | None \<Rightarrow> []"
  show ?thesis
  proof (cases "match_route (gs_config g) (Some ?host) (rq_path rq)")
    case None
    with assms(1) show ?thesis
      by (auto simp: route_and_proxy_def Let_def gateway_ok_def gateway_static_def)
  next
    case (Some r)
    then have "r \<in> set (gc_routes (gs_config g))" using match_route_SomeD by blast
    then obtain rt where rt: "gs_routes g (rc_name r) = Some rt" "runtime_ok rt"
      using assms(1) by (auto simp: gateway_ok_def)
    let ?c = "request_context E (gs_config g) rt (rc_name r) rq"
    have "gateway_static g (rc_name r) = Some (runtime_static rt)" using rt(1) by (simp add: gateway_static_def)
    with assms(2) have "env_ok E (runtime_static rt)" unfolding env_fits_def by blast
    then have "returns (runtime_static rt) (serve_route E ?c rq (shared_of g rt))"
      using assms(1) rt(2) by (intro serve_route_returns) (auto simp: shared_of_ok gateway_ok_def)
    then obtain a sh where s: "serve_route E ?c rq (shared_of g rt) = (Ret a, sh)" "shared_ok sh"
      "static_view sh = runtime_static rt"
      by (auto simp: returns_def)
    with Some rt(1) write_back_ok [OF assms(1) s(2) rt(1) s(3)] show ?thesis
      by (simp add: route_and_proxy_def Let_def state_route_def) (simp add: write_back_def)
  qed
qed

lemma gateway_ok_metrics [simp]:
  "gateway_ok (g\<lparr>gs_metrics := m\<rparr>) = gateway_ok g" "gateway_static (g\<lparr>gs_metrics := m\<rparr>) = gateway_static g"
  by (simp_all add: gateway_ok_def gateway_static_def)

lemma handle_ok:
  assumes "gateway_ok g" and "env_fits E g"
  shows "\<exists>r g'. handle E g rq = (Ret r, g') \<and> gateway_ok g' \<and> gateway_static g' = gateway_static g"
proof -
  let ?g = "g\<lparr>gs_metrics := (gs_metrics g)\<lparr>mt_active_connections := mt_active_connections (gs_metrics g) + 1\<rparr>\<rparr>"
  have "gateway_ok ?g" "env_fits E ?g" using assms by (simp_all add: env_fits_def)
  from route_and_proxy_ok [OF this, of rq] show ?thesis by (auto simp: handle_def Let_def)
qed

lemma handle_all_ok:
  assumes "gateway_ok g" and "\<forall>(E, rq) \<in> set jobs. env_fits E g"
  shows "list_all (\<lambda>r. \<exists>a. r = Ret a) (fst (handle_all g jobs)) \<and> gateway_ok (snd (handle_all g jobs))"
  using assms
proof (induction g jobs rule: handle_all.induct)
  case (2 g E rq rest)
  then obtain r g' where h: "handle E g rq = (Ret r, g')" "gateway_ok g'" "gateway_static g' = gateway_static g"
    using handle_ok [of g E rq] by auto
  have "\<forall>x \<in> set rest. env_fits (fst x) g'"
    using 2(3) h(3) by (auto simp: env_fits_def)
  with 2(1) [OF h(1) [symmetric]] h show ?case
    by (auto simp: case_prod_beta Let_def)
qed simp

lemma built_gateway_ok:
  assumes "validate config = Inr ()" and "gateway_build connect client_ok config m = Some g"
  shows "gateway_ok g"
proof -
  have g: "gs_config g = config" "gs_routes g = insert_routes (gc_routes config) (\<lambda>_. None)"
    "gs_limiter g = choose_limiter connect (sc_redis_url (gc_server config))"
    using assms(2) by (auto simp: gateway_build_def split: if_splits)
  have v: "valid_config config" using assms(1) by (simp add: validate_Inr_iff)
  have "limiter_ok (gs_limiter g)"
    by (simp add: g(3) choose_limiter_def in_memory_new_def split: option.split)
  with v show ?thesis
    using runtime_ok_from_config
    by (auto simp: gateway_ok_def g(1,2) insert_routes_in valid_config_def valid_route_def)
qed

section \<open>Properties\<close>

text \<open>The pipeline always answers and never breaks the gateway: from a usable shared state (no
  poisoned lock, well-formed balancer and cache) every request gets a response after finitely many
  steps, without a panic, and leaves the shared state usable, its upstreams and its time to live
  unchanged, for every result of the upstream calls and everything other tasks may do that keeps
  the state usable, as long as the client waits and the clock is not about to overflow.\<close>

theorem pipeline_always_answers:
  assumes "env_ok E (static_view sh)" and "shared_ok sh"
  shows "\<exists>r sh'. serve_route E c rq sh = (Ret r, sh') \<and> shared_ok sh' \<and> static_view sh' = static_view sh"
  using serve_route_returns [OF assms refl] by (auto simp: returns_def)

lemma sample_shared_ok: "shared_ok sample_shared"
  by (simp add: sample_shared_def shared_ok_def bal0_def bal_ok_from_route in_memory_new_def sample_target_def
      route_with_defaults_def)

lemma sample_env_ok: "env_ok sample_env (static_view sample_shared)"
proof -
  have "snd ` set (fst (static_view sample_shared)) \<subseteq> {10000000000}"
    by (auto simp: static_view_def sample_shared_def bal0_def from_route_def upstream_from_def breaker_new_def
        sample_target_def route_with_defaults_def circuit_breaker_config_default_def default_cb_open_secs_def
        from_secs_def nanos_per_sec_def max_def word_le_nat_alt Let_def)
  moreover have "snd (static_view sample_shared) = None" by (simp add: static_view_def sample_shared_def)
  ultimately show ?thesis
    using insertion_order.map_order_axioms by (auto simp: env_ok_def sample_env_def instant_limit_num)
qed

theorem pipeline_always_answers_witness:
  "\<exists>r sh'. serve_route sample_env (sample_ctx ''POST'') (sample_request ''POST'') sample_shared = (Ret r, sh')
     \<and> shared_ok sh'"
  using pipeline_always_answers [OF sample_env_ok sample_shared_ok] by blast

definition one_route :: gateway_config where
  "one_route = \<lparr>gc_server = server_config_default, gc_routes = [sample_target]\<rparr>"

lemma one_route_valid: "validate one_route = Inr ()"
  by code_simp

lemma one_route_fits:
  assumes "gateway_build connect client_ok one_route m = Some (g :: (string \<Rightarrow> nat) gateway_state)"
  shows "env_fits sample_env g"
proof -
  have "gs_routes g = [''r'' \<mapsto> runtime_from_config sample_target]"
    using assms by (auto simp: gateway_build_def one_route_def insert_routes_def sample_target_def
        route_with_defaults_def split: if_splits)
  moreover have "runtime_static (runtime_from_config sample_target) = static_view sample_shared"
    by (simp add: runtime_static_def runtime_from_config_def static_view_eq sample_shared_def bal0_def
        sample_target_def route_with_defaults_def)
  ultimately show ?thesis
    using sample_env_ok by (auto simp: env_fits_def gateway_static_def split: if_splits)
qed

section \<open>A healthy upstream\<close>

lemma forward_first_attempt:
  assumes "env_ok E (static_view sh)" and "shared_ok sh"
    and "e_to_bytes E (rq_body rq) (sc_max_body_bytes (cx_server c)) = Some b"
    and "i < length (bal_upstreams (sh_balancer (interfere E AtBody sh)))"
    and "\<And>k. admits (bal_upstreams (sh_balancer (interfere E AtBody sh)) ! i) (e_pick_now E 0 k)"
  shows "\<exists>j s k. forward_stage E c rq sh =
      (case attempt_once E c (forward_of E c rq b) 0 j s of
         (Panic, sh) \<Rightarrow> (Panic, drop_guard j sh)
       | (Ret (Answer r), sh) \<Rightarrow> (Ret r, drop_guard j sh)
       | (Ret Retry, sh) \<Rightarrow> attempts E c (forward_of E c rq b) k ([] @ [j]) (drop_guard j sh))
    \<and> shared_ok s \<and> static_view s = static_view sh \<and> j < length (fst (static_view sh))
    \<and> sh_calls s = sh_calls sh"
proof -
  let ?s = "interfere E AtBody sh" and ?f = "forward_of E c rq b"
  have s: "shared_ok ?s" "static_view ?s = static_view sh" using interfere_ok [OF assms(1,2)] by auto
  have "fw_max_attempts ?f \<noteq> 0"
    by (auto simp: forward_of_def Let_def max_def unat_eq_0 word_le_nat_alt)
  then obtain k where k: "fw_max_attempts ?f = Suc k" using not0_implies_Suc by blast
  obtain p t where p: "on_balancer (pick [] (e_pick_now E 0)) ?s = (Ret p, t)" "shared_ok t"
    "static_view t = static_view sh"
    using pick_returns [OF s(1), of "[]" "e_pick_now E 0"] s(2) by (auto simp: returns_def)
  then obtain b' where pk: "pick [] (e_pick_now E 0) (sh_balancer ?s) = (Ret p, b')" and t: "t = ?s\<lparr>sh_balancer := b'\<rparr>"
    by (auto simp: on_balancer_def split: prod.splits)
  have "p \<noteq> None"
    using pick_none [of "sh_balancer ?s" "[]" "e_pick_now E 0" b'] pk s(1) assms(4,5) by (auto simp: shared_ok_def)
  then obtain j where j: "p = Some j" by blast
  with pick_any [OF pk] have "j < length (bal_upstreams (sh_balancer ?s))" by auto
  then have "j < length (fst (static_view sh))" using s(2) by (metis static_length)
  moreover have "sh_calls t = sh_calls sh" by (simp add: t)
  ultimately show ?thesis
    using p j assms(3) k env_ok_dropped [OF assms(1)] by (intro exI [of _ j] exI [of _ t] exI [of _ k]) (simp add: forward_stage_def Let_def)
qed

lemma finish_status:
  assumes "finish_response E c resp s = (Ret r, t)" and "us_bytes resp \<noteq> None"
  shows "rs_status r = us_status resp"
proof -
  from assms(2) obtain b where "us_bytes resp = Some b" by blast
  with assms(1) show ?thesis
    by (auto simp: finish_response_def Let_def build_response_def bindr_def
        split: if_splits prod.splits res.splits)
qed

lemma attempt_answer_status:
  assumes "attempt_once E c f n j s = (Ret (Answer r), t)" and "\<forall>u. e_send E n u = SendOk resp"
    and "\<not> is_server_error (us_status resp)" and "us_bytes resp \<noteq> None"
  shows "rs_status r = us_status resp"
proof -
  obtain a u where u: "call_upstream E c f n j s = (Ret a, u)"
    using assms(1) by (auto simp: attempt_once_def bindr_def split: prod.splits res.splits)
  then have "a = SendOk resp" using call_upstream_result [of E c f n j s a] assms(2) by simp
  with assms(1,3) u finish_status [OF _ assms(4)] show ?thesis
    by (auto simp: attempt_once_def return_response_def bindr_def split: prod.splits res.splits)
qed

text \<open>C8. The gateway delivers: once a request has passed authentication, limits and cache, if some
  upstream of the route is healthy and not blocked at the instants of the pick, and the call
  answers with a status below 500 (and with a body that can be read), then the client gets that
  status, after exactly one upstream call.\<close>

theorem healthy_answer_delivered:
  assumes "env_ok E (static_view sh)" and "shared_ok sh" and "sh_calls sh = []"
    and "e_to_bytes E (rq_body rq) (sc_max_body_bytes (cx_server c)) = Some b"
    and "i < length (bal_upstreams (sh_balancer (interfere E AtBody sh)))"
    and "\<forall>k. admits (bal_upstreams (sh_balancer (interfere E AtBody sh)) ! i) (e_pick_now E 0 k)"
    and "\<forall>u. e_send E 0 u = SendOk resp" and "us_status resp < 500" and "us_bytes resp \<noteq> None"
  shows "\<exists>r sh'. forward_stage E c rq sh = (Ret r, sh') \<and> rs_status r = us_status resp \<and> length (sh_calls sh') = 1"
proof -
  let ?f = "forward_of E c rq b"
  obtain j s k where fs: "forward_stage E c rq sh =
      (case attempt_once E c ?f 0 j s of
         (Panic, sh) \<Rightarrow> (Panic, drop_guard j sh)
       | (Ret (Answer r), sh) \<Rightarrow> (Ret r, drop_guard j sh)
       | (Ret Retry, sh) \<Rightarrow> attempts E c ?f k ([] @ [j]) (drop_guard j sh))"
    and s: "shared_ok s" "static_view s = static_view sh" "j < length (fst (static_view sh))" "sh_calls s = sh_calls sh"
    using forward_first_attempt [OF assms(1,2,4,5)] assms(6) by blast
  obtain out t where a: "attempt_once E c ?f 0 j s = (Ret out, t)"
    using attempt_once_returns [OF assms(1) s(1-3), of c ?f 0] by (auto simp: returns_def)
  have not_err: "\<not> is_server_error (us_status resp)" using assms(8) by (simp add: is_server_error_def not_le)
  have "out \<noteq> Retry"
    using attempt_once_Retry [of E c ?f 0 j s] a assms(7) not_err by (auto simp: retry_ok_def)
  then obtain r where r: "out = Answer r" by (cases out) auto
  have "rs_status r = us_status resp"
    using a r attempt_answer_status [of E c ?f 0 j s r t] assms(7,9) not_err by simp
  moreover have "length (sh_calls t) = 1"
    using calls_attempt_once [of E c ?f 0 j s] a s(4) assms(3) by simp
  ultimately show ?thesis using fs a r by simp
qed

definition answering_env :: "(header_list, string \<Rightarrow> nat, string) env" where
  "answering_env = sample_env\<lparr>e_send := \<lambda>_ _. SendOk \<lparr>us_status = 204, us_headers = [], us_bytes = Some ''''\<rparr>\<rparr>"

lemma answering_env_sel [simp]:
  "e_others answering_env = (\<lambda>_ sh. sh)" "e_dropped answering_env = (\<lambda>_. False)" "e_http answering_env = list_http"
  "e_send answering_env = (\<lambda>_ _. SendOk \<lparr>us_status = 204, us_headers = [], us_bytes = Some ''''\<rparr>)"
  by (simp_all add: answering_env_def)

theorem healthy_answer_delivered_witness:
  "\<exists>r sh'. forward_stage answering_env (sample_ctx ''GET'') (sample_request ''GET'') sample_shared = (Ret r, sh')
     \<and> rs_status r = 204 \<and> length (sh_calls sh') = 1"
proof -
  have ok: "env_ok answering_env (static_view sample_shared)"
    using sample_env_ok by (simp add: env_ok_def answering_env_def)
  have body: "e_to_bytes answering_env (rq_body (sample_request ''GET'')) (sc_max_body_bytes (cx_server (sample_ctx ''GET'')))
      = Some ''body''"
    by (simp add: answering_env_def sample_defs Let_def)
  have up: "0 < length (bal_upstreams (sh_balancer (interfere answering_env AtBody sample_shared)))"
    "\<forall>k. admits (bal_upstreams (sh_balancer (interfere answering_env AtBody sample_shared)) ! 0) (e_pick_now answering_env 0 k)"
    by (simp_all add: interfere_def sample_shared_def bal0_def from_route_def sample_target_def route_with_defaults_def
        upstream_from_def admits_def blocked_def breaker_new_def Let_def)
  show ?thesis
    using healthy_answer_delivered [OF ok sample_shared_ok _ body up,
        of "\<lparr>us_status = 204, us_headers = [], us_bytes = Some ''''\<rparr>"]
    by (simp add: sample_shared_def)
qed

section \<open>The cache in the pipeline\<close>

text \<open>C19. Only what may be cached is cached: the answer of an upstream changes the cache of the route
  only if the request was a GET on a route with a cache and did not ask to bypass it, the status is
  200, the response headers do not forbid it, and the whole body could be read.\<close>

theorem only_cacheable_stored:
  assumes "others_keep sh_cache E" and "c = request_context E config rt name rq"
    and "sh_cache (snd (finish_response E c resp sh)) \<noteq> sh_cache sh"
  shows "rt_cache rt \<noteq> None \<and> rq_method rq = ''GET'' \<and> \<not> cache_bypass (e_http E) (rq_headers rq)
     \<and> us_status resp = 200 \<and> response_cacheable (e_http E) (us_headers resp) \<and> us_bytes resp \<noteq> None"
proof -
  have keep: "sh_cache (interfere E a s) = sh_cache s" for a s
    using assms(1) by (simp add: interfere_def others_keep_def)
  have "cx_cache_enabled c \<and> us_status resp = 200 \<and> response_cacheable (e_http E) (us_headers resp)
      \<and> us_bytes resp \<noteq> None"
    using assms(3) by (auto simp: finish_response_def Let_def keep split: if_splits option.splits)
  with assms(2) show ?thesis by (simp add: request_context_def Let_def)
qed

lemma store_hit:
  assumes "map_order (e_order E)" and "shared_ok s" and "sh_cache s = Some ca"
    and "e_put_now E + ca_ttl ca < instant_limit" and "t < e_put_now E + ca_ttl ca"
  shows "\<exists>ca'. store_in_cache E k st' p b s = (Ret (), s\<lparr>sh_cache := Some ca'\<rparr>) \<and> cache_ok ca'
     \<and> fst (cache_get ca' k t) = Ret (Some \<lparr>cr_status = st', cr_headers = p, cr_body = b,
          cr_expires_at = e_put_now E + ca_ttl ca\<rparr>)"
proof -
  have ok: "cache_ok ca" using assms(2,3) by (simp add: shared_ok_def)
  let ?put = "cache_put (e_order E) ca k st' p b (e_evict_now E) (e_put_now E)"
  have "fst ?put = Ret ()" "cache_ok (snd ?put)"
    using map_order.put_usable [OF assms(1) ok assms(4)] by auto
  moreover have "fst (cache_get (snd ?put) k t) = Ret (Some \<lparr>cr_status = st', cr_headers = p, cr_body = b,
      cr_expires_at = e_put_now E + ca_ttl ca\<rparr>)"
    using map_order.put_then_get [OF assms(1) ok assms(4)] assms(5) by simp
  ultimately show ?thesis
    by (intro exI [of _ "snd ?put"]) (simp add: store_in_cache_def assms(3) case_prod_beta)
qed

text \<open>The headers of the answer that is stored, before \<^verbatim>\<open>x-cache\<close> is set.\<close>

definition stored_headers :: "('hm, 's, 'b) env \<Rightarrow> 'hm req_ctx \<Rightarrow> 'hm upstream_response \<Rightarrow> 'hm" where
  "stored_headers E c resp = set_header (e_http E) CORRELATION_HEADER (cx_correlation c)
     (apply_transforms (e_http E) (rc_response_headers (cx_config c))
        (filtered_response_headers (e_http E) (us_headers resp)))"

lemma finish_response_stores:
  assumes "cx_cache_enabled c" and "us_status resp = 200" and "response_cacheable (e_http E) (us_headers resp)"
    and "sh_cache sh \<noteq> None" and "us_bytes resp = Some body" and "\<not> e_dropped E AtRead"
  shows "finish_response E c resp sh =
    bindr (store_in_cache E (cx_cache_key c) 200 (header_pairs (e_http E) (stored_headers E c resp)) body
        (interfere E AtRead (record_request E (cx_route c) (cx_method c) 200 sh)))
      (\<lambda>_ sh. (Ret (build_response 200 (set_header (e_http E) ''x-cache'' ''MISS'' (stored_headers E c resp))
                (Bytes body)), sh))"
  using assms by (simp add: finish_response_def stored_headers_def Let_def)

definition fresh_cache :: response_cache where
  "fresh_cache = cache_new (from_secs 10) 4"

definition cached_shared :: "(header_list, string \<Rightarrow> nat) shared" where
  "cached_shared = sample_shared\<lparr>sh_cache := Some fresh_cache\<rparr>"

definition cached_ctx :: "header_list req_ctx" where
  "cached_ctx = request_context sample_env sample_config (sample_runtime\<lparr>rt_cache := Some fresh_cache\<rparr>) ''r''
     (sample_request ''GET'')"

definition ok_answer :: "header_list upstream_response" where
  "ok_answer = \<lparr>us_status = 200, us_headers = [], us_bytes = Some ''ok''\<rparr>"

lemma cached_ctx_sel [simp]:
  "cx_cache_enabled cached_ctx" "rc_auth (cx_config cached_ctx) = AuthNone" "rc_rate_limit (cx_config cached_ctx) = None"
  by (simp_all add: cached_ctx_def request_context_def sample_request_def sample_runtime_def runtime_from_config_def
      sample_target_def route_with_defaults_def auth_policy_default_def cache_bypass_def header_str_def Let_def)

lemma ok_answer_sel [simp]:
  "us_status ok_answer = 200" "us_bytes ok_answer = Some ''ok''" "response_cacheable list_http (us_headers ok_answer)"
  by (simp_all add: ok_answer_def response_cacheable_def header_str_def)

lemma cached_shared_ok: "shared_ok cached_shared" "env_ok sample_env (static_view cached_shared)"
proof -
  show "shared_ok cached_shared"
    using sample_shared_ok by (simp add: cached_shared_def shared_ok_def fresh_cache_def cache_ok_new)
  have "fst (static_view cached_shared) = fst (static_view sample_shared)"
    "snd (static_view cached_shared) = Some 10000000000"
    by (simp_all add: cached_shared_def static_view_def fresh_cache_def cache_new_def from_secs_def nanos_per_sec_def)
  with sample_env_ok show "env_ok sample_env (static_view cached_shared)"
    by (simp add: env_ok_def) (simp add: sample_env_def instant_limit_num)
qed

theorem only_cacheable_stored_witness:
  "sh_cache (snd (finish_response sample_env cached_ctx ok_answer cached_shared)) \<noteq> sh_cache cached_shared
   \<and> rq_method (sample_request ''GET'') = ''GET'' \<and> us_status ok_answer = 200"
proof -
  have "sh_cache (snd (finish_response sample_env cached_ctx ok_answer cached_shared)) \<noteq> sh_cache cached_shared"
    using finish_response_stores [of cached_ctx ok_answer sample_env cached_shared "''ok''"]
    by (simp add: interfere_def store_in_cache_def cached_shared_def fresh_cache_def cache_eval mutex_new_def
        case_prod_beta)
  with only_cacheable_stored [OF _ cached_ctx_def this] show ?thesis
    by (simp add: others_keep_def)
qed

section \<open>What reaches an upstream\<close>

text \<open>C21. The headers of an upstream call are determined by the client's headers and the configuration:
  the correlation id is set last; the configured additions come next, then the configured removals;
  of the rest, hop-by-hop headers are dropped and everything else is passed on unchanged (the four
  forwarding headers apart, which the gateway sets itself).\<close>

theorem upstream_headers:
  assumes "http_headers (e_http E)" and "header_value (e_http E) (cx_correlation c) = Some (cx_correlation c)"
    and "n \<notin> set forwarding_names"
  shows "values_of (e_http E) (fw_headers (forward_of E c rq b)) n =
     (if n = ''x-request-id'' then [cx_correlation c]
      else case added_value (e_http E) (ht_add (rc_request_headers (cx_config c))) n of
        Some v \<Rightarrow> [v]
      | None \<Rightarrow>
          if removed_name (e_http E) (ht_remove (rc_request_headers (cx_config c))) n \<or> is_hop_by_hop n then []
          else values_of (e_http E) (cx_headers c) n)"
  using assms(2,3)
  by (auto simp: forward_of_def Let_def http_headers.values_set_header [OF assms(1)]
      http_headers.known_names [OF assms(1)] http_headers.values_apply_transforms [OF assms(1)]
      http_headers.values_forwarded_other [OF assms(1)] split: option.split)

theorem upstream_headers_witness:
  "values_of list_http (fw_headers (forward_of sample_env (sample_ctx ''GET'') (sample_request ''GET'') ''''))
     ''x-request-id'' = [''u-1'']
   \<and> values_of list_http (fw_headers (forward_of sample_env (sample_ctx ''GET'') (sample_request ''GET'') ''''))
     ''host'' = []"
proof -
  have c: "cx_correlation (sample_ctx ''GET'') = ''u-1''"
    "rc_request_headers (cx_config (sample_ctx ''GET'')) = header_transforms_default"
    by (simp_all add: sample_ctx_def request_context_def correlation_of_def sample_request_def header_str_def
        CORRELATION_HEADER_def sample_env_def sample_runtime_def runtime_from_config_def sample_target_def
        route_with_defaults_def Let_def)
  have "header_value (e_http sample_env) (cx_correlation (sample_ctx ''GET'')) = Some (cx_correlation (sample_ctx ''GET''))"
    by (simp add: c visible_ascii_def)
  moreover have "http_headers (e_http sample_env)" using list_headers.http_headers_axioms by simp
  moreover have "is_hop_by_hop ''host''" "''host'' \<notin> set forwarding_names" "''x-request-id'' \<notin> set forwarding_names"
    by code_simp+
  ultimately show ?thesis
    using upstream_headers [of sample_env "sample_ctx ''GET''" "''x-request-id''" "sample_request ''GET''" "''''"]
      upstream_headers [of sample_env "sample_ctx ''GET''" "''host''" "sample_request ''GET''" "''''"]
    by (simp add: c added_value_def header_transforms_default_def List.map_filter_def)
qed

section \<open>Rate-limit buckets\<close>

text \<open>C22. Routes do not share rate-limit buckets, nor do the scopes of a route: two requests fall into
  the same bucket only if they are for the same route under the same scope, and for the per-address
  scope only if they come from the same address, provided route names hold no colon.\<close>

theorem rate_buckets_separate:
  assumes "CHR '':'' \<notin> set route" and "CHR '':'' \<notin> set route'"
    and "rate_key H scope route ip h = rate_key H scope' route' ip' h'"
  shows "route = route' \<and> scope = scope' \<and> (scope = ScopeIp \<longrightarrow> ip = ip')"
proof -
  have "\<exists>t. rate_key H s r i g = r @ CHR '':'' # t \<and> (case s of ScopeIp \<Rightarrow> t = ''ip:'' @ i
      | ScopeRoute \<Rightarrow> t = ''route'' | ScopeApiKey \<Rightarrow> prefix ''key:'' t)" for s r i g
    by (cases s) (simp_all add: rate_key_def Let_def)
  then obtain t t' where t: "rate_key H scope route ip h = route @ CHR '':'' # t"
      "case scope of ScopeIp \<Rightarrow> t = ''ip:'' @ ip | ScopeRoute \<Rightarrow> t = ''route'' | ScopeApiKey \<Rightarrow> prefix ''key:'' t"
    and t': "rate_key H scope' route' ip' h' = route' @ CHR '':'' # t'"
      "case scope' of ScopeIp \<Rightarrow> t' = ''ip:'' @ ip' | ScopeRoute \<Rightarrow> t' = ''route'' | ScopeApiKey \<Rightarrow> prefix ''key:'' t'"
    by metis
  with join_inject [of route "CHR '':''" t route' t'] assms have "route = route'" "t = t'" by auto
  with t(2) t'(2) show ?thesis by (cases scope; cases scope') auto
qed

theorem rate_buckets_separate_witness:
  "rate_key list_http ScopeIp ''api'' ''1.1.1.1'' [] \<noteq> rate_key list_http ScopeIp ''web'' ''1.1.1.1'' []
   \<and> rate_key list_http ScopeIp ''api'' ''1.1.1.1'' [] \<noteq> rate_key list_http ScopeIp ''api'' ''2.2.2.2'' []"
  using rate_buckets_separate [of "''api''" "''web''" list_http ScopeIp "''1.1.1.1''" "[]" ScopeIp "''1.1.1.1''" "[]"]
    rate_buckets_separate [of "''api''" "''api''" list_http ScopeIp "''1.1.1.1''" "[]" ScopeIp "''2.2.2.2''" "[]"]
  by auto

end
