(* ===== verification/Health.thy ===== *)
theory Health
  imports Gateway_State
begin

text \<open>
  Active health checks, \<^verbatim>\<open>crates/gateway/src/health.rs\<close>. \<^verbatim>\<open>run\<close> spawns one task per
  upstream of every route that configures a check. A task waits for its ticker or for the
  cancellation token, probes its upstream and sets the health flag, until it sees the
  cancellation; \<^verbatim>\<open>run\<close> returns once it is cancelled and all tasks have ended. The probe's
  outcome is an argument (the HTTP client is not part of the program), and the order in which
  tasks run is left open: the tasks are a step relation.
\<close>

section \<open>Tasks\<close>

record health_task =
  hk_route :: string
  hk_upstream :: nat
  hk_url :: string
  hk_interval :: duration
  hk_timeout :: duration

definition health_task_for :: "string \<Rightarrow> health_check_config \<Rightarrow> balancer \<Rightarrow> nat \<Rightarrow> health_task" where
  "health_task_for name hc b i =
     \<lparr>hk_route = name, hk_upstream = i,
      hk_url = up_url (bal_upstreams b ! i) @ hc_path hc,
      hk_interval = from_secs (max (hc_interval_secs hc) 1),
      hk_timeout = from_millis (max (hc_timeout_ms hc) 100)\<rparr>"

text \<open>The loops of \<^verbatim>\<open>run\<close>; the list gives the routes in the order the map yields them.\<close>

fun health_tasks :: "(string \<times> route_runtime) list \<Rightarrow> health_task list" where
  "health_tasks [] = []"
| "health_tasks ((name, rt) # rest) =
     (case rc_health_check (rt_config rt) of
        None \<Rightarrow> []
      | Some hc \<Rightarrow> map (health_task_for name hc (rt_balancer rt)) [0..<length (bal_upstreams (rt_balancer rt))])
     @ health_tasks rest"

text \<open>The outcome of a probe: a status, or an error (a timeout is one).\<close>

datatype probe = ProbeOk u16 | ProbeErr

fun probe_healthy :: "probe \<Rightarrow> bool" where
  "probe_healthy (ProbeOk s) \<longleftrightarrow> 200 \<le> s \<and> s < 300"
| "probe_healthy ProbeErr \<longleftrightarrow> False"

definition health_tick ::
  "health_task \<Rightarrow> probe \<Rightarrow> (string \<rightharpoonup> route_runtime) \<Rightarrow> (string \<rightharpoonup> route_runtime)" where
  "health_tick t p routes =
     (case routes (hk_route t) of
        None \<Rightarrow> routes
      | Some rt \<Rightarrow> routes(hk_route t \<mapsto> rt\<lparr>rt_balancer :=
          upd_upstream (hk_upstream t) (set_healthy (probe_healthy p)) (rt_balancer rt)\<rparr>))"

section \<open>The running tasks\<close>

record health_state =
  hs_routes :: "string \<rightharpoonup> route_runtime"
  hs_running :: "health_task list"
  hs_cancelled :: bool

inductive health_step :: "health_state \<Rightarrow> health_state \<Rightarrow> bool" where
  tick: "t \<in> set (hs_running s) \<Longrightarrow> health_step s (s\<lparr>hs_routes := health_tick t p (hs_routes s)\<rparr>)"
| stop: "hs_cancelled s \<Longrightarrow> t \<in> set (hs_running s) \<Longrightarrow> health_step s (s\<lparr>hs_running := remove1 t (hs_running s)\<rparr>)"
| cancel: "health_step s (s\<lparr>hs_cancelled := True\<rparr>)"

inductive_cases health_stepE: "health_step s s'"

definition health_start :: "(string \<times> route_runtime) list \<Rightarrow> (string \<rightharpoonup> route_runtime) \<Rightarrow> health_state" where
  "health_start order routes = \<lparr>hs_routes = routes, hs_running = health_tasks order, hs_cancelled = False\<rparr>"

definition run_finished :: "health_state \<Rightarrow> bool" where
  "run_finished s \<longleftrightarrow> hs_cancelled s \<and> hs_running s = []"

section \<open>Lemmas\<close>

text \<open>All of a route but the health flags.\<close>

definition unflagged :: "upstream \<Rightarrow> string \<times> u32 \<times> i64 \<times> circuit_breaker" where
  "unflagged u = (up_url u, up_weight u, up_active u, up_breaker u)"

definition frame_of :: "route_runtime \<Rightarrow> _" where
  "frame_of rt = (rt_config rt, rt_cache rt, map unflagged (bal_upstreams (rt_balancer rt)),
     bal_strategy (rt_balancer rt), bal_rr_order (rt_balancer rt), bal_rr_cursor (rt_balancer rt))"

lemma set_healthy_sel [simp]:
  "unflagged (set_healthy v u) = unflagged u" "up_healthy (set_healthy v u) = v" "up_breaker (set_healthy v u) = up_breaker u"
  by (simp_all add: set_healthy_def unflagged_def)

lemma frame_set_healthy:
  "frame_of (rt\<lparr>rt_balancer := upd_upstream i (set_healthy v) (rt_balancer rt)\<rparr>) = frame_of rt"
  by (cases "i < length (bal_upstreams (rt_balancer rt))")
    (auto simp: frame_of_def upd_upstream_def map_update list_update_same_conv list_update_beyond)

lemma health_tick_frame: "map_option frame_of (health_tick t p routes n) = map_option frame_of (routes n)"
  by (auto simp: health_tick_def frame_set_healthy split: option.splits)

lemma health_tasks_route: "t \<in> set (health_tasks rts) \<Longrightarrow>
   \<exists>rt hc. (hk_route t, rt) \<in> set rts \<and> rc_health_check (rt_config rt) = Some hc
     \<and> hk_upstream t < length (bal_upstreams (rt_balancer rt))
     \<and> t = health_task_for (hk_route t) hc (rt_balancer rt) (hk_upstream t)"
proof (induction rts rule: health_tasks.induct)
  case (2 name rt rest)
  then show ?case
    by (cases "rc_health_check (rt_config rt)") (fastforce simp: health_task_for_def)+
qed simp

lemma health_tasks_in:
  "(n, rt) \<in> set rts \<Longrightarrow> rc_health_check (rt_config rt) = Some hc \<Longrightarrow> i < length (bal_upstreams (rt_balancer rt)) \<Longrightarrow>
   health_task_for n hc (rt_balancer rt) i \<in> set (health_tasks rts)"
  by (induction rts rule: health_tasks.induct) auto

lemma health_task_fields:
  "hk_route (health_task_for n hc b i) = n" "hk_upstream (health_task_for n hc b i) = i"
  "hk_url (health_task_for n hc b i) = up_url (bal_upstreams b ! i) @ hc_path hc"
  "hk_interval (health_task_for n hc b i) = max (unat (hc_interval_secs hc) * 1000000000) 1000000000"
  "hk_timeout (health_task_for n hc b i) = max (unat (hc_timeout_ms hc) * 1000000) 100000000"
  by (auto simp: health_task_for_def from_secs_def from_millis_def nanos_per_sec_def max_def word_le_nat_alt)

definition health_inv :: "health_state \<Rightarrow> health_state \<Rightarrow> bool" where
  "health_inv s0 s \<longleftrightarrow> set (hs_running s) \<subseteq> set (hs_running s0)
     \<and> (\<forall>n. map_option frame_of (hs_routes s n) = map_option frame_of (hs_routes s0 n))
     \<and> (\<forall>n. n \<notin> hk_route ` set (hs_running s0) \<longrightarrow> hs_routes s n = hs_routes s0 n)"

interpretation health: machine health_step "health_inv s0" for s0
proof
  fix s t
  assume "health_step s t" "health_inv s0 s"
  then show "health_inv s0 t"
  proof (cases rule: health_step.cases)
    case (tick k p)
    have "health_tick k p (hs_routes s) n = hs_routes s n" if "n \<notin> hk_route ` set (hs_running s0)" for n
      using tick \<open>health_inv s0 s\<close> that by (auto simp: health_tick_def health_inv_def split: option.splits)
    with tick \<open>health_inv s0 s\<close> show ?thesis by (simp add: health_inv_def health_tick_frame)
  next
    case (stop k)
    with \<open>health_inv s0 s\<close> show ?thesis
      using set_remove1_subset [of k "hs_running s"] by (auto simp: health_inv_def)
  qed (simp add: health_inv_def)
qed

lemma stop_all:
  "hs_cancelled s \<Longrightarrow> \<exists>t. (health_step ^^ length (hs_running s)) s t \<and> run_finished t \<and> hs_routes t = hs_routes s"
proof (induction "hs_running s" arbitrary: s)
  case Nil
  then show ?case by (auto simp: run_finished_def)
next
  case (Cons k ks)
  let ?s = "s\<lparr>hs_running := remove1 k (hs_running s)\<rparr>"
  have step: "health_step s ?s" using Cons(2,3) by (intro health_step.stop) (auto simp flip: Cons(2))
  have ks: "hs_running ?s = ks" using Cons(2) by (simp flip: Cons(2))
  obtain t where t: "(health_step ^^ length ks) ?s t" "run_finished t" "hs_routes t = hs_routes s"
    using Cons(1) [of ?s] Cons(3) ks by auto
  have "(health_step ^^ Suc (length ks)) s t" by (rule relpowp_Suc_I2 [OF step t(1)])
  moreover have "length (hs_running s) = Suc (length ks)" by (simp flip: Cons(2))
  ultimately show ?case using t(2,3) by auto
qed

section \<open>Properties\<close>

text \<open>Every configured check runs, and only those: there is a task for an upstream exactly when its
  route configures a health check; it probes the upstream's address followed by the configured
  path, at most once a second and with a time limit of at least 100 milliseconds.\<close>

theorem health_tasks_complete:
  "t \<in> set (health_tasks rts) \<longleftrightarrow>
     (\<exists>rt hc. (hk_route t, rt) \<in> set rts \<and> rc_health_check (rt_config rt) = Some hc
        \<and> hk_upstream t < length (bal_upstreams (rt_balancer rt))
        \<and> hk_url t = up_url (bal_upstreams (rt_balancer rt) ! hk_upstream t) @ hc_path hc
        \<and> hk_interval t = max (unat (hc_interval_secs hc) * 1000000000) 1000000000
        \<and> hk_timeout t = max (unat (hc_timeout_ms hc) * 1000000) 100000000)"
  (is "_ \<longleftrightarrow> (\<exists>rt hc. ?R rt hc)")
proof
  assume "t \<in> set (health_tasks rts)"
  from health_tasks_route [OF this] obtain rt hc where
    r: "(hk_route t, rt) \<in> set rts" "rc_health_check (rt_config rt) = Some hc"
      "hk_upstream t < length (bal_upstreams (rt_balancer rt))"
      "t = health_task_for (hk_route t) hc (rt_balancer rt) (hk_upstream t)" by blast
  have "hk_url t = up_url (bal_upstreams (rt_balancer rt) ! hk_upstream t) @ hc_path hc"
    "hk_interval t = max (unat (hc_interval_secs hc) * 1000000000) 1000000000"
    "hk_timeout t = max (unat (hc_timeout_ms hc) * 1000000) 100000000"
    by (subst r(4), simp only: health_task_fields)+
  with r have "?R rt hc" by blast
  then show "\<exists>rt hc. ?R rt hc" by blast
next
  assume "\<exists>rt hc. ?R rt hc"
  then obtain rt hc where r: "?R rt hc" by blast
  then have "t = health_task_for (hk_route t) hc (rt_balancer rt) (hk_upstream t)"
    by (intro health_task.equality) (simp_all add: health_task_fields)
  with r health_tasks_in [of "hk_route t" rt rts hc "hk_upstream t"] show "t \<in> set (health_tasks rts)" by simp
qed

text \<open>A health check that runs never touches anything but health flags, and only of routes that
  configure a check: in every state the tasks can reach, configurations, caches, breakers, active
  counts and the round-robin cursor are what they were, and routes without a check are unchanged.\<close>

theorem health_checks_only_flags:
  assumes "health_step\<^sup>*\<^sup>* (health_start order routes) s"
  shows "map_option frame_of (hs_routes s n) = map_option frame_of (routes n)
     \<and> ((\<forall>rt. (n, rt) \<in> set order \<longrightarrow> rc_health_check (rt_config rt) = None) \<longrightarrow> hs_routes s n = routes n)"
proof -
  have inv: "health_inv (health_start order routes) s"
    by (rule health.reach_inv [OF assms]) (simp add: health_inv_def)
  have "n \<notin> hk_route ` set (health_tasks order)"
    if "\<forall>rt. (n, rt) \<in> set order \<longrightarrow> rc_health_check (rt_config rt) = None"
    using that health_tasks_route by fastforce
  with inv show ?thesis by (simp add: health_inv_def health_start_def)
qed


text \<open>Shutdown completes: once the token is cancelled no task is ever started again, and from
  every state each task's exit is possible, so that after as many exits as there are running tasks
  \<^verbatim>\<open>run\<close> returns, with the health flags as the last probes left them.\<close>

theorem health_shutdown_completes:
  assumes "hs_cancelled s"
  shows "(\<exists>t. (health_step ^^ length (hs_running s)) s t \<and> run_finished t \<and> hs_routes t = hs_routes s)
     \<and> (\<forall>t. health_step\<^sup>*\<^sup>* s t \<longrightarrow> length (hs_running t) \<le> length (hs_running s) \<and> hs_cancelled t)"
proof -
  have "length (hs_running t) \<le> length (hs_running s) \<and> hs_cancelled t" if "health_step\<^sup>*\<^sup>* s t" for t
    using that
  proof (induction rule: rtranclp_induct)
    case (step u v)
    then show ?case by (auto elim!: health_stepE simp: length_remove1)
  qed (simp add: assms)
  with stop_all [OF assms] show ?thesis by blast
qed

section \<open>Examples\<close>

definition checked_runtime :: route_runtime where
  "checked_runtime = (runtime_from_config ((route_with_defaults ''r'' [])\<lparr>rc_health_check :=
      Some \<lparr>hc_path = ''/up'', hc_interval_secs = 0, hc_timeout_ms = 2000\<rparr>\<rparr>))
     \<lparr>rt_balancer := sample_balancer LeastConnections\<rparr>"

definition first_task :: health_task where
  "first_task = health_task_for ''r'' \<lparr>hc_path = ''/up'', hc_interval_secs = 0, hc_timeout_ms = 2000\<rparr>
     (sample_balancer LeastConnections) 0"

lemma first_task_runs: "first_task \<in> set (health_tasks [(''r'', checked_runtime)])"
  unfolding first_task_def by (simp add: checked_runtime_def runtime_from_config_def)

lemma first_task_sel [simp]: "hk_route first_task = ''r''" "hk_upstream first_task = 0"
  by (simp_all add: first_task_def health_task_fields)

theorem health_checks_only_flags_witness:
  "map_option frame_of (health_tick first_task ProbeErr [''r'' \<mapsto> checked_runtime] ''r'')
     = Some (frame_of checked_runtime)"
proof -
  let ?s = "health_start [(''r'', checked_runtime)] [''r'' \<mapsto> checked_runtime]"
  have "health_step\<^sup>*\<^sup>* ?s (?s\<lparr>hs_routes := health_tick first_task ProbeErr (hs_routes ?s)\<rparr>)"
    using first_task_runs by (intro r_into_rtranclp health_step.tick) (simp add: health_start_def)
  from health_checks_only_flags [OF this, of "''r''"] show ?thesis
    by (simp add: health_start_def)
qed


theorem health_shutdown_completes_witness:
  "\<exists>t. health_step (\<lparr>hs_routes = [''r'' \<mapsto> checked_runtime], hs_running = [first_task], hs_cancelled = True\<rparr>) t
     \<and> run_finished t"
  using health_shutdown_completes
    [of "\<lparr>hs_routes = [''r'' \<mapsto> checked_runtime], hs_running = [first_task], hs_cancelled = True\<rparr>"]
  by auto

end
