(* ===== verification/Server.thy ===== *)
theory Server
  imports Pipeline Health
begin

text \<open>
  The servers and the binary, \<^verbatim>\<open>crates/gateway/src/server.rs\<close> and
  \<^verbatim>\<open>crates/gateway/src/main.rs\<close>. Sockets, signals and the task runtime are not modelled;
  what is modelled is how a request reaches the handler (the body-limit layer of
  \<^verbatim>\<open>tower_http\<close> is a parameter), what the admin endpoints answer, and how the program
  starts: where the configuration comes from, what is checked before anything is served, and what
  makes it refuse to start.
\<close>

section \<open>The routers\<close>

text \<open>
  \<^verbatim>\<open>limit_layer max rq\<close> stands for \<^verbatim>\<open>RequestBodyLimitLayer\<close>: it answers a request
  itself or passes it on, perhaps with its body wrapped.
\<close>

definition proxy_router ::
  "(usize \<Rightarrow> ('hm, 'b) request \<Rightarrow> 'hm response + ('hm, 'b) request) \<Rightarrow> ('hm, 's, 'b) env \<Rightarrow> 's gateway_state
   \<Rightarrow> ('hm, 'b) request \<Rightarrow> 'hm response res \<times> 's gateway_state" where
  "proxy_router limit_layer E g rq =
     (case limit_layer (sc_max_body_bytes (gc_server (gs_config g))) rq of
        Inl resp \<Rightarrow> (Ret resp, g)
      | Inr rq \<Rightarrow> handle E g rq)"

datatype admin_handler = Healthz | Readyz | MetricsText

definition admin_router :: "string \<rightharpoonup> admin_handler" where
  "admin_router = [''/healthz'' \<mapsto> Healthz, ''/readyz'' \<mapsto> Readyz, ''/metrics'' \<mapsto> MetricsText]"

text \<open>Status, content type and body.\<close>

fun admin_answer ::
  "(metrics \<Rightarrow> 'bytes option) \<Rightarrow> ('bytes \<Rightarrow> string option) \<Rightarrow> 's gateway_state \<Rightarrow> admin_handler \<Rightarrow> u16 \<times> string option \<times> string" where
  "admin_answer encode from_utf8 g Healthz = (200, None, ''ok'')"
| "admin_answer encode from_utf8 g Readyz = (200, None, ''ready'')"
| "admin_answer encode from_utf8 g MetricsText = (200, Some ''text/plain; version=0.0.4'', metrics_render encode from_utf8 (gs_metrics g))"

section \<open>Starting\<close>

definition config_path :: "string list \<Rightarrow> (string \<rightharpoonup> string) \<Rightarrow> string" where
  "config_path args vars =
     (case (if 1 < length args then Some (args ! 1) else None) of
        Some p \<Rightarrow> p
      | None \<Rightarrow> (case vars ''GATEWAY_CONFIG'' of Some p \<Rightarrow> p | None \<Rightarrow> ''config/gateway.yaml''))"

definition json_logs :: "(string \<rightharpoonup> string) \<Rightarrow> bool" where
  "json_logs vars = (case vars ''LOG_JSON'' of Some v \<Rightarrow> v = ''true'' | None \<Rightarrow> False)"

datatype startup_error = LoadingConfig string config_error | BindAddr | AdminBindAddr | BuildFailed

text \<open>
  \<^verbatim>\<open>main\<close> up to the point where the servers run: \<open>parse\<close> and \<open>rd\<close> are the YAML parser and
  the file system, \<open>sock\<close> parses a socket address, \<open>open_client\<close> and \<open>manager\<close> are
  the two steps of connecting to Redis.
\<close>

definition startup ::
  "(string \<Rightarrow> string + gateway_config) \<Rightarrow> (string \<Rightarrow> string + string) \<Rightarrow> (string \<Rightarrow> 'a option) \<Rightarrow> (string \<Rightarrow> 'c option)
   \<Rightarrow> ('c \<Rightarrow> 's option) \<Rightarrow> bool \<Rightarrow> string list \<Rightarrow> (string \<rightharpoonup> string) \<Rightarrow> (startup_error + 'a \<times> 'a \<times> 's gateway_state) res" where
  "startup parse rd sock open_client manager client_ok args vars =
     (let path = config_path args vars in
      case from_file parse rd path of
        Inl e \<Rightarrow> Ret (Inl (LoadingConfig path e))
      | Inr config \<Rightarrow>
          (case sock (sc_bind_addr (gc_server config)) of
             None \<Rightarrow> Ret (Inl BindAddr)
           | Some proxy_addr \<Rightarrow>
               (case sock (sc_admin_bind_addr (gc_server config)) of
                  None \<Rightarrow> Ret (Inl AdminBindAddr)
                | Some admin_addr \<Rightarrow>
                    (case metrics_new of
                       Panic \<Rightarrow> Panic
                     | Ret m \<Rightarrow>
                         (case gateway_build (redis_connect open_client manager) client_ok config m of
                            None \<Rightarrow> Ret (Inl BuildFailed)
                          | Some g \<Rightarrow> Ret (Inr (proxy_addr, admin_addr, g)))))))"

section \<open>Properties\<close>

lemma metrics_new_Ret: "metrics_new = Ret zero_metrics"
proof -
  obtain m where m: "metrics_new = Ret m" using metrics_new_total by auto
  show ?thesis unfolding zero_metrics_def m by simp
qed

lemma from_file_Inr:
  "from_file parse rd path = Inr cfg \<longleftrightarrow> (\<exists>txt. rd path = Inr txt \<and> parse txt = Inr cfg \<and> valid_config cfg)"
  by (auto simp: from_file_def from_yaml_def and_then_Inr_iff validate_Inr_iff split: sum.splits)

lemma startup_Inr:
  "startup parse rd sock open_client manager client_ok args vars = Ret (Inr (pa, aa, g)) \<longleftrightarrow>
     (\<exists>txt cfg. rd (config_path args vars) = Inr txt \<and> parse txt = Inr cfg \<and> valid_config cfg
        \<and> sock (sc_bind_addr (gc_server cfg)) = Some pa \<and> sock (sc_admin_bind_addr (gc_server cfg)) = Some aa
        \<and> gateway_build (redis_connect open_client manager) client_ok cfg zero_metrics = Some g)"
proof (cases "from_file parse rd (config_path args vars)")
  case (Inl e)
  then have none: "\<nexists>txt cfg. rd (config_path args vars) = Inr txt \<and> parse txt = Inr cfg \<and> valid_config cfg"
    using from_file_Inr [of parse rd "config_path args vars"] by auto
  from Inl have "startup parse rd sock open_client manager client_ok args vars = Ret (Inl (LoadingConfig (config_path args vars) e))"
    by (simp add: startup_def Let_def)
  with none show ?thesis by auto
next
  case (Inr cfg)
  then obtain y where "rd (config_path args vars) = Inr y" "parse y = Inr cfg" "valid_config cfg"
    by (auto simp: from_file_Inr)
  then show ?thesis using Inr by (auto simp: startup_def metrics_new_Ret split: option.splits)
qed

text \<open>C34. The program starts to serve exactly when the configuration file (the first argument, else the
  environment variable, else the default path) can be read, parses and is valid, both addresses
  parse and the HTTP client can be built; in every other case it stops with an
  error, and never with a panic.\<close>

theorem startup_succeeds_iff:
  "((\<exists>pa aa g. startup parse rd sock open_client manager client_ok args vars = Ret (Inr (pa, aa, g))) \<longleftrightarrow>
     (\<exists>txt cfg pa aa. rd (case args of _ # p # _ \<Rightarrow> p | _ \<Rightarrow>
          (case vars ''GATEWAY_CONFIG'' of Some p \<Rightarrow> p | None \<Rightarrow> ''config/gateway.yaml'')) = Inr txt
        \<and> parse txt = Inr cfg \<and> valid_config cfg
        \<and> sock (sc_bind_addr (gc_server cfg)) = Some pa \<and> sock (sc_admin_bind_addr (gc_server cfg)) = Some aa
        \<and> client_ok))
   \<and> startup parse rd sock open_client manager client_ok args vars \<noteq> Panic"
proof -
  have path: "config_path args vars = (case args of _ # p # _ \<Rightarrow> p | _ \<Rightarrow>
      (case vars ''GATEWAY_CONFIG'' of Some p \<Rightarrow> p | None \<Rightarrow> ''config/gateway.yaml''))"
    by (cases args; cases "tl args") (auto simp: config_path_def)
  have "startup parse rd sock open_client manager client_ok args vars \<noteq> Panic"
    by (auto simp: startup_def metrics_new_Ret Let_def split: sum.splits option.splits)
  then show ?thesis
    unfolding startup_Inr path by (auto simp: gateway_build_def split: if_splits)
qed

end
