(* ===== verification/Lifecycle.thy ===== *)
theory Lifecycle
  imports Server
begin

text \<open>
  The life of the process after start-up, the second half of \<^verbatim>\<open>main\<close> in
  \<^verbatim>\<open>crates/gateway/src/main.rs\<close> with \<^verbatim>\<open>serve_proxy\<close> and \<^verbatim>\<open>serve_admin\<close> of
  \<^verbatim>\<open>server.rs\<close>: the health checks, the signal handler and the admin server are spawned, the
  proxy server runs in \<^verbatim>\<open>main\<close> itself, and \<^verbatim>\<open>main\<close> awaits them one after the other.
  Whether an address can be bound and whether serving fails is left to the environment; the
  graceful shutdown ends a server without an error only once the cancellation token it was given
  is cancelled. All tasks share that token, which is the field \<open>hs_cancelled\<close> of the health checks.
\<close>

section \<open>State and steps\<close>

text \<open>What \<^verbatim>\<open>main\<close> waits for; \<open>Returned True\<close> is \<^verbatim>\<open>Ok(())\<close>.\<close>

datatype main_at = AwaitProxy | AwaitAdmin | AwaitHealth | Returned bool

text \<open>
  \<^verbatim>\<open>serve_proxy\<close> and \<^verbatim>\<open>serve_admin\<close>: the socket is bound, then requests are served until
  the shutdown; \<open>Ended ok\<close> is the result. The argument of \<open>serve_step\<close> says whether the token is
  cancelled.
\<close>

datatype server_at = Binding | Serving | Ended bool

inductive serve_step :: "bool \<Rightarrow> server_at \<Rightarrow> server_at \<Rightarrow> bool" for c where
  bind_ok: "serve_step c Binding Serving"
| bind_err: "serve_step c Binding (Ended False)"
| serve_err: "serve_step c Serving (Ended False)"
| shut_down: "c \<Longrightarrow> serve_step c Serving (Ended True)"

inductive_cases serve_EndedE: "serve_step c s (Ended True)"
inductive_simps serve_Ended [simp]: "serve_step c (Ended ok) s"

record process =
  pr_health :: health_state
  pr_admin :: server_at
  pr_proxy :: server_at
  pr_main :: main_at

definition main_start :: "(string \<times> route_runtime) list \<Rightarrow> (string \<rightharpoonup> route_runtime) \<Rightarrow> process" where
  "main_start order routes =
     \<lparr>pr_health = health_start order routes, pr_admin = Binding, pr_proxy = Binding, pr_main = AwaitProxy\<rparr>"

definition cancelled :: "process \<Rightarrow> bool" where
  "cancelled p \<longleftrightarrow> hs_cancelled (pr_health p)"

text \<open>The whole process ends, with all its tasks, when \<^verbatim>\<open>main\<close> returns.\<close>

definition running :: "process \<Rightarrow> bool" where
  "running p \<longleftrightarrow> (\<forall>ok. pr_main p \<noteq> Returned ok)"

inductive main_step :: "process \<Rightarrow> process \<Rightarrow> bool" where
  signal: "running p \<Longrightarrow> main_step p (p\<lparr>pr_health := (pr_health p)\<lparr>hs_cancelled := True\<rparr>\<rparr>)"
| health: "running p \<Longrightarrow> health_step (pr_health p) h \<Longrightarrow> hs_cancelled h = cancelled p \<Longrightarrow>
    main_step p (p\<lparr>pr_health := h\<rparr>)"
| admin: "running p \<Longrightarrow> serve_step (cancelled p) (pr_admin p) s \<Longrightarrow> main_step p (p\<lparr>pr_admin := s\<rparr>)"
| proxy: "pr_main p = AwaitProxy \<Longrightarrow> serve_step (cancelled p) (pr_proxy p) s \<Longrightarrow> main_step p (p\<lparr>pr_proxy := s\<rparr>)"
| proxy_err: "pr_main p = AwaitProxy \<Longrightarrow> pr_proxy p = Ended False \<Longrightarrow> main_step p (p\<lparr>pr_main := Returned False\<rparr>)"
| proxy_ok: "pr_main p = AwaitProxy \<Longrightarrow> pr_proxy p = Ended True \<Longrightarrow> main_step p (p\<lparr>pr_main := AwaitAdmin\<rparr>)"
| admin_done: "pr_main p = AwaitAdmin \<Longrightarrow> pr_admin p = Ended ok \<Longrightarrow> main_step p (p\<lparr>pr_main := AwaitHealth\<rparr>)"
| health_done: "pr_main p = AwaitHealth \<Longrightarrow> run_finished (pr_health p) \<Longrightarrow>
    main_step p (p\<lparr>pr_main := Returned True\<rparr>)"

section \<open>Invariant\<close>

definition ended :: "server_at \<Rightarrow> bool" where
  "ended s \<longleftrightarrow> (\<exists>ok. s = Ended ok)"

definition process_inv :: "process \<Rightarrow> bool" where
  "process_inv p \<longleftrightarrow>
     (case pr_main p of
        AwaitProxy \<Rightarrow> pr_proxy p = Ended True \<longrightarrow> cancelled p
      | AwaitAdmin \<Rightarrow> pr_proxy p = Ended True \<and> cancelled p
      | AwaitHealth \<Rightarrow> pr_proxy p = Ended True \<and> cancelled p \<and> ended (pr_admin p)
      | Returned True \<Rightarrow> pr_proxy p = Ended True \<and> ended (pr_admin p) \<and> run_finished (pr_health p)
      | Returned False \<Rightarrow> pr_proxy p = Ended False)"

interpretation process: machine main_step process_inv
proof
  fix p q
  assume "main_step p q" "process_inv p"
  then show "process_inv q"
    by (cases rule: main_step.cases)
      (auto simp: process_inv_def cancelled_def running_def ended_def elim: serve_EndedE split: main_at.splits bool.splits)
qed

lemma main_start_inv: "process_inv (main_start order routes)"
  by (simp add: process_inv_def main_start_def)

text \<open>Steps of the health checks are steps of the process.\<close>

lemma health_steps:
  assumes "(health_step ^^ n) h h'" and "hs_cancelled h" and "running p" and "pr_health p = h"
  shows "(main_step ^^ n) p (p\<lparr>pr_health := h'\<rparr>)"
  using assms
proof (induction n arbitrary: h p)
  case 0
  then have "p\<lparr>pr_health := h'\<rparr> = p" by (cases p) simp
  then show ?case by simp
next
  case (Suc n)
  from Suc.prems(1) obtain m where m: "health_step h m" "(health_step ^^ n) m h'" by (blast dest: relpowp_Suc_D2)
  let ?p = "p\<lparr>pr_health := m\<rparr>"
  have c: "hs_cancelled m" using m(1) Suc.prems(2) by (auto elim!: health_stepE)
  then have "main_step p ?p" using m(1) Suc.prems by (intro main_step.health) (auto simp: cancelled_def)
  moreover have "running ?p" using Suc.prems(3) by (simp add: running_def)
  then have "(main_step ^^ n) ?p (?p\<lparr>pr_health := h'\<rparr>)" using Suc.IH [OF m(2) c, of ?p] by simp
  ultimately show ?case using relpowp_Suc_I2 [of main_step p ?p n] by simp
qed

text \<open>How far \<^verbatim>\<open>main\<close> is from a clean exit, from the last wait back to the first.\<close>

definition exits_within :: "nat \<Rightarrow> process \<Rightarrow> bool" where
  "exits_within k p \<longleftrightarrow> (\<exists>n q. n \<le> k \<and> (main_step ^^ n) p q \<and> pr_main q = Returned True)"

lemma exits_mono: "exits_within k p \<Longrightarrow> k \<le> m \<Longrightarrow> exits_within m p"
  unfolding exits_within_def by (meson order_trans)

lemma exits_step:
  assumes "main_step p q" and "exits_within k q" and "k < m"
  shows "exits_within m p"
proof -
  from assms(2) obtain n r where "n \<le> k" "(main_step ^^ n) q r" "pr_main r = Returned True"
    by (auto simp: exits_within_def)
  moreover from this have "(main_step ^^ Suc n) p r" using assms(1) by (blast intro: relpowp_Suc_I2)
  ultimately show ?thesis using assms(3) unfolding exits_within_def by (meson Suc_leI le_less_trans)
qed

abbreviation tasks_left :: "process \<Rightarrow> nat" where
  "tasks_left p \<equiv> length (hs_running (pr_health p))"

lemma exits_health:
  assumes "pr_main p = AwaitHealth" and "cancelled p"
  shows "exits_within (tasks_left p + 1) p"
proof -
  obtain h where h: "(health_step ^^ tasks_left p) (pr_health p) h" "run_finished h"
    using stop_all [of "pr_health p"] assms(2) by (auto simp: cancelled_def)
  let ?q = "p\<lparr>pr_health := h\<rparr>"
  have "(main_step ^^ tasks_left p) p ?q"
    using health_steps [OF h(1), of p] assms by (simp add: cancelled_def running_def)
  moreover have "main_step ?q (?q\<lparr>pr_main := Returned True\<rparr>)"
    using h(2) assms(1) by (intro main_step.health_done) simp_all
  ultimately have "(main_step ^^ Suc (tasks_left p)) p (?q\<lparr>pr_main := Returned True\<rparr>)" by (rule relpowp_Suc_I)
  moreover have "pr_main (?q\<lparr>pr_main := Returned True\<rparr>) = Returned True" by simp
  ultimately show ?thesis unfolding exits_within_def by (metis Suc_eq_plus1 order_refl)
qed

lemma exits_admin:
  assumes "pr_main p = AwaitAdmin" and "cancelled p"
  shows "exits_within (tasks_left p + 4) p"
proof -
  have ended: "exits_within (tasks_left p + 2) q"
    if "pr_main q = AwaitAdmin" "pr_admin q = Ended ok" "pr_health q = pr_health p" for q ok
    using exits_step [OF main_step.admin_done [OF that(1,2)] exits_health] that(3) assms(2)
    by (simp add: cancelled_def)
  have serving: "exits_within (tasks_left p + 3) q"
    if "pr_main q = AwaitAdmin" "pr_admin q = Serving" "pr_health q = pr_health p" for q
  proof -
    have "main_step q (q\<lparr>pr_admin := Ended True\<rparr>)"
      using that assms(2) by (intro main_step.admin) (auto simp: running_def cancelled_def intro: serve_step.intros)
    from exits_step [OF this ended] that show ?thesis by simp
  qed
  show ?thesis
  proof (cases "pr_admin p")
    case Binding
    then have "main_step p (p\<lparr>pr_admin := Serving\<rparr>)"
      using assms by (intro main_step.admin) (auto simp: running_def intro: serve_step.intros)
    from exits_step [OF this serving] assms(1) show ?thesis by simp
  next
    case Serving
    show ?thesis by (rule exits_mono [OF serving [OF assms(1) Serving refl]]) simp
  next
    case (Ended ok)
    show ?thesis by (rule exits_mono [OF ended [OF assms(1) Ended refl]]) simp
  qed
qed

lemma exits_proxy:
  assumes "pr_main p = AwaitProxy" and "cancelled p" and "pr_proxy p \<noteq> Ended False"
  shows "exits_within (tasks_left p + 7) p"
proof -
  have ended: "exits_within (tasks_left p + 5) q"
    if "pr_main q = AwaitProxy" "pr_proxy q = Ended True" "pr_health q = pr_health p" for q
    using exits_step [OF main_step.proxy_ok [OF that(1,2)] exits_admin] that(3) assms(2)
    by (simp add: cancelled_def)
  have serving: "exits_within (tasks_left p + 6) q"
    if "pr_main q = AwaitProxy" "pr_proxy q = Serving" "pr_health q = pr_health p" for q
  proof -
    have "main_step q (q\<lparr>pr_proxy := Ended True\<rparr>)"
      using that assms(2) by (intro main_step.proxy) (auto simp: cancelled_def intro: serve_step.intros)
    from exits_step [OF this ended] that show ?thesis by simp
  qed
  show ?thesis
  proof (cases "pr_proxy p")
    case Binding
    then have "main_step p (p\<lparr>pr_proxy := Serving\<rparr>)"
      using assms by (intro main_step.proxy) (auto intro: serve_step.intros)
    from exits_step [OF this serving] assms(1) show ?thesis by simp
  next
    case Serving
    show ?thesis by (rule exits_mono [OF serving [OF assms(1) Serving refl]]) simp
  next
    case (Ended ok)
    with assms(3) have "pr_proxy p = Ended True" by simp
    from exits_mono [OF ended [OF assms(1) this refl]] show ?thesis by simp
  qed
qed

section \<open>Properties\<close>

text \<open>C36. A clean exit is a graceful one: \<^verbatim>\<open>main\<close> returns \<^verbatim>\<open>Ok\<close> only after the
  shutdown signal, once the proxy server has shut down gracefully, the admin server has ended and
  every health-check task has ended; it returns an error only if the proxy server failed.\<close>

theorem clean_exit_is_graceful:
  assumes "main_step\<^sup>*\<^sup>* (main_start order routes) p" and "pr_main p = Returned ok"
  shows "if ok then cancelled p \<and> pr_proxy p = Ended True \<and> ended (pr_admin p) \<and> hs_running (pr_health p) = []
     else pr_proxy p = Ended False"
  using process.reach_inv [OF assms(1) main_start_inv] assms(2)
  by (auto simp: process_inv_def cancelled_def run_finished_def split: bool.splits)


section \<open>Examples\<close>

definition after_signal :: process where
  "after_signal = (main_start [(''r'', checked_runtime)] [''r'' \<mapsto> checked_runtime])
     \<lparr>pr_health := (health_start [(''r'', checked_runtime)] [''r'' \<mapsto> checked_runtime])\<lparr>hs_cancelled := True\<rparr>\<rparr>"

lemma after_signal_reached: "main_step\<^sup>*\<^sup>* (main_start [(''r'', checked_runtime)] [''r'' \<mapsto> checked_runtime]) after_signal"
proof -
  let ?p = "main_start [(''r'', checked_runtime)] [''r'' \<mapsto> checked_runtime]"
  have "main_step ?p (?p\<lparr>pr_health := (pr_health ?p)\<lparr>hs_cancelled := True\<rparr>\<rparr>)"
    by (rule main_step.signal) (simp add: running_def main_start_def)
  then show ?thesis by (simp add: after_signal_def main_start_def)
qed

theorem clean_exit_is_graceful_witness:
  "\<exists>p. main_step\<^sup>*\<^sup>* (main_start [] (\<lambda>_. None)) p \<and> pr_main p = Returned False \<and> pr_proxy p = Ended False"
proof -
  let ?p = "main_start [] (\<lambda>_. None)"
  let ?q = "?p\<lparr>pr_proxy := Ended False\<rparr>"
  have "main_step ?p ?q" by (rule main_step.proxy) (auto simp: main_start_def intro: serve_step.intros)
  moreover have "main_step ?q (?q\<lparr>pr_main := Returned False\<rparr>)"
    by (rule main_step.proxy_err) (simp_all add: main_start_def)
  ultimately have r: "main_step\<^sup>*\<^sup>* ?p (?q\<lparr>pr_main := Returned False\<rparr>)" by auto
  with clean_exit_is_graceful [OF r] show ?thesis by auto
qed


end
