(* ===== verification/Tasks.thy ===== *)
theory Tasks
  imports Proxy
begin

text \<open>
  The handler of \<^verbatim>\<open>crates/gateway/src/proxy.rs\<close> as the compiler turns it into a state machine:
  a task runs from one \<^verbatim>\<open>.await\<close> to the next without interruption and is then suspended. A
  suspended task knows where it waits, how it goes on when it is polled again, and what its
  destructors do when it is dropped there. \<open>run_task\<close> drives one task to its end against the
  environment of \<^verbatim>\<open>Proxy\<close>; the main result is that this gives exactly the handler of
  \<^verbatim>\<open>Proxy\<close>, so that what is proved there holds for tasks.
\<close>

section \<open>Tasks\<close>

datatype ('t, 'a) task =
    Finished "'a res"
  | Suspended await_point "'t \<Rightarrow> 't" "'t \<Rightarrow> ('t, 'a) task \<times> 't"

type_synonym ('t, 'a) segment = "'t \<Rightarrow> ('t, 'a) task \<times> 't"

text \<open>Sequencing, and holding a value whose destructor is \<open>g\<close>.\<close>

primrec bind_task :: "('t, 'a) task \<Rightarrow> ('a \<Rightarrow> ('t, 'b) segment) \<Rightarrow> ('t, 'b) segment" where
  "bind_task (Finished r) f = (\<lambda>s. case r of Panic \<Rightarrow> (Finished Panic, s) | Ret a \<Rightarrow> f a s)"
| "bind_task (Suspended a c k) f = (\<lambda>s. (Suspended a c (\<lambda>s.
     case map_prod (\<lambda>t. bind_task t f) id (k s) of (g, s) \<Rightarrow> g s), s))"

primrec holding :: "('t \<Rightarrow> 't) \<Rightarrow> ('t, 'a) task \<Rightarrow> ('t, 'a) segment" where
  "holding g (Finished r) = (\<lambda>s. (Finished r, g s))"
| "holding g (Suspended a c k) = (\<lambda>s. (Suspended a (\<lambda>s. g (c s)) (\<lambda>s.
     case map_prod (holding g) id (k s) of (h, s) \<Rightarrow> h s), s))"

definition andthen :: "('t, 'a) task \<times> 't \<Rightarrow> ('a \<Rightarrow> ('t, 'b) segment) \<Rightarrow> ('t, 'b) task \<times> 't" where
  "andthen m f = bind_task (fst m) f (snd m)"

text \<open>Code without an \<^verbatim>\<open>.await\<close>.\<close>

definition atomic :: "'a res \<times> 't \<Rightarrow> ('t, 'a) task \<times> 't" where
  "atomic m = (Finished (fst m), snd m)"

definition unless_done :: "('t, 'a option) task \<times> 't \<Rightarrow> ('t, 'a) segment \<Rightarrow> ('t, 'a) task \<times> 't" where
  "unless_done m f = andthen m (\<lambda>r s. case r of Some a \<Rightarrow> (Finished (Ret a), s) | None \<Rightarrow> f s)"

text \<open>The list of a request's own calls travels with the task.\<close>

definition suspend :: "await_point \<Rightarrow> ('hm, 's) shared \<Rightarrow> (('hm, 's) shared, unit) task \<times> ('hm, 's) shared" where
  "suspend a sh = (Suspended a (\<lambda>s. s) (\<lambda>s. (Finished (Ret ()), s\<lparr>sh_calls := sh_calls sh\<rparr>)), sh)"

section \<open>The handler as a task\<close>

definition finish_task ::
  "('hm, 's, 'b) env \<Rightarrow> 'hm req_ctx \<Rightarrow> 'hm upstream_response \<Rightarrow> (('hm, 's) shared, 'hm response) segment" where
  "finish_task E c resp sh =
     (let H = e_http E;
          status = us_status resp;
          out = filtered_response_headers H (us_headers resp);
          out = apply_transforms H (rc_response_headers (cx_config c)) out;
          out = set_header H CORRELATION_HEADER (cx_correlation c) out;
          store = (cx_cache_enabled c \<and> status = 200 \<and> sh_cache sh \<noteq> None
                   \<and> response_cacheable H (us_headers resp));
          sh = record_request E (cx_route c) (cx_method c) status sh
      in if store then
           andthen (suspend AtRead sh) (\<lambda>_ sh.
            case us_bytes resp of
              None \<Rightarrow> (Finished (Ret (error_response E 502 ''upstream read failed'' (cx_correlation c))), sh)
            | Some bytes \<Rightarrow>
                andthen (atomic (store_in_cache E (cx_cache_key c) status (header_pairs H out) bytes sh)) (\<lambda>_ sh.
                  (Finished (Ret (build_response status (set_header H ''x-cache'' ''MISS'' out) (Bytes bytes))), sh)))
         else
           (let out = (if cx_cache_enabled c then set_header H ''x-cache'' ''MISS'' out else out)
            in (Finished (Ret (build_response status out (Streamed (us_bytes resp)))), sh)))"

definition rate_task ::
  "('hm, 's, 'b) env \<Rightarrow> 'hm req_ctx \<Rightarrow> (('hm, 's) shared, 'hm response option) segment" where
  "rate_task E c sh =
     (case rc_rate_limit (cx_config c) of
        None \<Rightarrow> (Finished (Ret None), sh)
      | Some rl \<Rightarrow>
          (let key = rate_key (e_http E) (rl_scope rl) (cx_route c) (cx_client_ip c) (cx_headers c)
           in andthen (suspend AtLimiter sh) (\<lambda>_ sh.
              let (d, l) = limiter_check (e_redis E) (sh_limiter sh) key (rl_limit rl)
                          (from_secs (rl_window_secs rl)) (e_rate_now E)
              in andthen (atomic (d, sh\<lparr>sh_limiter := l\<rparr>)) (\<lambda>decision sh.
                if \<not> rd_allowed decision then
                  (let sh = metric (\<lambda>m. m\<lparr>mt_rate_limit_rejections :=
                              inc (mt_rate_limit_rejections m) (cx_route c)\<rparr>) sh;
                       sh = record_request E (cx_route c) (cx_method c) 429 sh;
                       resp = error_response E 429 ''rate limit exceeded'' (cx_correlation c)
                   in (Finished (Ret (Some (resp\<lparr>rs_headers := add_ratelimit_headers (e_http E) (rd_limit decision) 0
                              (rd_reset_secs decision) (rs_headers resp)\<rparr>))), sh))
                else (Finished (Ret None), sh)))))"

definition call_task ::
  "('hm, 's, 'b) env \<Rightarrow> 'hm req_ctx \<Rightarrow> 'hm forward \<Rightarrow> nat \<Rightarrow> nat \<Rightarrow> (('hm, 's) shared, 'hm send_result) segment" where
  "call_task E c f attempt idx sh =
     (let req = upstream_request c f idx sh;
          result = e_send E attempt req;
          sh = sh\<lparr>sh_calls := sh_calls sh @ [(idx, req)]\<rparr>
      in andthen (suspend (AtSend attempt) sh) (\<lambda>_ sh.
         let sh = metric (\<lambda>m. m\<lparr>mt_upstream_latency :=
                 observe (mt_upstream_latency m) (cx_route c) (e_latency E attempt)\<rparr>) sh
         in andthen (atomic (on_balancer (on_breaker idx breaker_get_state) sh)) (\<lambda>s sh.
           (Finished (Ret result), metric (\<lambda>m. m\<lparr>mt_circuit_state := (mt_circuit_state m)
              ((cx_route c, up_url (bal_upstreams (sh_balancer sh) ! idx)) \<mapsto> breaker_code s)\<rparr>) sh))))"

definition return_task ::
  "('hm, 's, 'b) env \<Rightarrow> 'hm req_ctx \<Rightarrow> 'hm upstream_response \<Rightarrow> (('hm, 's) shared, 'hm response outcome) segment" where
  "return_task E c resp sh = andthen (finish_task E c resp sh) (\<lambda>r sh. (Finished (Ret (Answer r)), sh))"

definition attempt_task ::
  "('hm, 's, 'b) env \<Rightarrow> 'hm req_ctx \<Rightarrow> 'hm forward \<Rightarrow> nat \<Rightarrow> nat
   \<Rightarrow> (('hm, 's) shared, 'hm response outcome) segment" where
  "attempt_task E c f attempt idx sh =
     andthen (call_task E c f attempt idx sh) (\<lambda>result sh.
       (let more = attempt + 1 < fw_max_attempts f
        in case result of
          SendOk resp \<Rightarrow>
            if is_server_error (us_status resp) then
              andthen (atomic (note_failure E c attempt idx sh)) (\<lambda>_ sh.
                if is_idempotent (cx_method c) \<and> more then (Finished (Ret Retry), sh)
                else return_task E c resp sh)
            else
              andthen (atomic (on_balancer (on_breaker idx record_success) sh)) (\<lambda>_ sh.
                return_task E c resp sh)
        | SendErr is_connect \<Rightarrow>
            andthen (atomic (note_failure E c attempt idx sh)) (\<lambda>_ sh.
              if (is_idempotent (cx_method c) \<or> is_connect) \<and> more then (Finished (Ret Retry), sh)
              else (Finished (Ret (Answer (error_response E 502 ''upstream unavailable'' (cx_correlation c)))),
                    record_request E (cx_route c) (cx_method c) 502 sh))))"

text \<open>The guard of the picked upstream is held until the end of the iteration.\<close>

fun attempts_task ::
  "('hm, 's, 'b) env \<Rightarrow> 'hm req_ctx \<Rightarrow> 'hm forward \<Rightarrow> nat \<Rightarrow> nat list \<Rightarrow> (('hm, 's) shared, 'hm response) segment" where
  "attempts_task E c f 0 excluded sh =
     (Finished (Ret (error_response E 502 ''all upstream attempts failed'' (cx_correlation c))),
      record_request E (cx_route c) (cx_method c) 502 sh)"
| "attempts_task E c f (Suc k) excluded sh =
     (let attempt = fw_max_attempts f - Suc k in
      andthen (atomic (on_balancer (pick excluded (e_pick_now E attempt)) sh)) (\<lambda>sel sh.
        case sel of
          None \<Rightarrow>
            (Finished (Ret (error_response E 503 ''no healthy upstream'' (cx_correlation c))),
             record_request E (cx_route c) (cx_method c) 503 sh)
        | Some idx \<Rightarrow>
            (let (t, sh) = attempt_task E c f attempt idx sh in
             andthen (holding (drop_guard idx) t sh) (\<lambda>out sh.
               case out of
                 Answer r \<Rightarrow> (Finished (Ret r), sh)
               | Retry \<Rightarrow> attempts_task E c f k (excluded @ [idx]) sh))))"

definition forward_task ::
  "('hm, 's, 'b) env \<Rightarrow> 'hm req_ctx \<Rightarrow> ('hm, 'b) request \<Rightarrow> (('hm, 's) shared, 'hm response) segment" where
  "forward_task E c rq sh =
     andthen (suspend AtBody sh) (\<lambda>_ sh.
      case e_to_bytes E (rq_body rq) (sc_max_body_bytes (cx_server c)) of
        None \<Rightarrow>
          (Finished (Ret (error_response E 413 ''request body too large'' (cx_correlation c))),
           record_request E (cx_route c) (cx_method c) 413 sh)
      | Some body_bytes \<Rightarrow>
          (let f = forward_of E c rq body_bytes in attempts_task E c f (fw_max_attempts f) [] sh))"

definition serve_task ::
  "('hm, 's, 'b) env \<Rightarrow> 'hm req_ctx \<Rightarrow> ('hm, 'b) request \<Rightarrow> (('hm, 's) shared, 'hm response) segment" where
  "serve_task E c rq sh =
     unless_done (atomic (auth_stage E c sh)) (\<lambda>sh.
     unless_done (rate_task E c sh) (\<lambda>sh.
     unless_done (atomic (cache_stage E c sh)) (\<lambda>sh.
       forward_task E c rq sh)))"

section \<open>Driving one task\<close>

primrec run_task :: "('hm, 's, 'b) env \<Rightarrow> (('hm, 's) shared, 'a) task \<Rightarrow> ('hm, 's) shared \<Rightarrow> 'a res \<times> ('hm, 's) shared" where
  "run_task E (Finished r) = (\<lambda>s. (r, s))"
| "run_task E (Suspended a c k) = (\<lambda>s.
     let s = interfere E a s in
     if e_dropped E a then (Panic, c s) else case map_prod (run_task E) id (k s) of (g, s) \<Rightarrow> g s)"

definition exec :: "('hm, 's, 'b) env \<Rightarrow> (('hm, 's) shared, 'a) task \<times> ('hm, 's) shared \<Rightarrow> 'a res \<times> ('hm, 's) shared" where
  "exec E m = run_task E (fst m) (snd m)"

section \<open>Driving a task is running the handler\<close>

lemma task_induct [case_names Finished Suspended]:
  assumes "\<And>r. P (Finished r)" and "\<And>a c k. (\<And>s. P (fst (k s))) \<Longrightarrow> P (Suspended a c k)"
  shows "P t"
proof (induction t)
  case (Suspended a c k)
  then have "P (fst (k s))" for s by (metis fsts.intros rangeI)
  then show ?case by (rule assms(2))
qed (rule assms(1))

lemma exec_Finished [simp]: "exec E (Finished r, s) = (r, s)"
  by (simp add: exec_def)

lemma exec_Suspended [simp]:
  "exec E (Suspended a c k, s) =
     (if e_dropped E a then (Panic, c (interfere E a s)) else exec E (k (interfere E a s)))"
  by (simp add: exec_def Let_def case_prod_beta)

lemma bind_Suspended [simp]:
  "bind_task (Suspended a c k) f s = (Suspended a c (\<lambda>s. andthen (k s) f), s)"
  by (simp add: andthen_def case_prod_beta)

lemma holding_Suspended [simp]:
  "holding g (Suspended a c k) s = (Suspended a (\<lambda>s. g (c s)) (\<lambda>s. holding g (fst (k s)) (snd (k s))), s)"
  by (simp add: case_prod_beta)

declare bind_task.simps(2) [simp del] holding.simps(2) [simp del]

lemma andthen_simps [simp]:
  "andthen (Finished (Ret a), s) f = f a s" "andthen (Finished Panic, s) f = (Finished Panic, s)"
  "andthen (Suspended p c k, s) f = (Suspended p c (\<lambda>s. andthen (k s) f), s)"
  by (simp_all add: andthen_def)

lemma exec_andthen [simp]: "exec E (andthen m f) = bindr (exec E m) (\<lambda>a s. exec E (f a s))"
proof -
  have "exec E (bind_task t f s) = bindr (exec E (t, s)) (\<lambda>a s. exec E (f a s))" for t s
  proof (induction t arbitrary: s rule: task_induct)
    case (Finished r)
    then show ?case by (cases r) simp_all
  next
    case (Suspended a c k)
    then show ?case by (simp add: andthen_def)
  qed
  then show ?thesis by (simp add: andthen_def)
qed

lemma exec_holding [simp]: "exec E (holding g t s) = map_prod id g (exec E (t, s))"
  by (induction t arbitrary: s rule: task_induct) simp_all

lemma exec_atomic [simp]: "exec E (atomic m) = m"
  by (simp add: atomic_def)

lemma exec_unless_done [simp]: "exec E (unless_done m f) = unless_answered (exec E m) (\<lambda>s. exec E (f s))"
  by (cases "exec E m"; cases "fst (exec E m)")
    (auto simp: unless_done_def bindr_def unless_answered_def split: option.splits)

lemma exec_suspend [simp]: "exec E (suspend a sh) = await_at E a sh"
  by (simp add: suspend_def await_at_def interfere_def)

lemmas exec_distribs = if_distrib [where f = "exec E"] option.case_distrib [where h = "exec E"]
  send_result.case_distrib [where h = "exec E"] for E

lemma exec_finish [simp]: "exec E (finish_task E c resp sh) = finish_response E c resp sh"
  by (simp add: finish_task_def finish_response_def Let_def exec_distribs cong: if_cong option.case_cong)

lemma exec_return [simp]: "exec E (return_task E c resp sh) = return_response E c resp sh"
  by (simp add: return_task_def return_response_def)

lemma exec_call [simp]: "exec E (call_task E c f n i sh) = call_upstream E c f n i sh"
  by (simp add: call_task_def call_upstream_def Let_def)

lemma exec_rate [simp]: "exec E (rate_task E c sh) = rate_stage E c sh"
  by (simp add: rate_task_def rate_stage_def Let_def case_prod_beta exec_distribs cong: if_cong option.case_cong)

lemma exec_attempt [simp]: "exec E (attempt_task E c f n i sh) = attempt_once E c f n i sh"
  by (simp add: attempt_task_def attempt_once_def Let_def exec_distribs cong: if_cong send_result.case_cong)

lemma exec_attempts [simp]: "exec E (attempts_task E c f k ex sh) = attempts E c f k ex sh"
proof (induction k arbitrary: ex sh)
  case (Suc k)
  have "exec E (let (t, sh) = attempt_task E c f n i s in andthen (holding (drop_guard i) t sh) (\<lambda>out sh.
        case out of Answer r \<Rightarrow> (Finished (Ret r), sh) | Retry \<Rightarrow> attempts_task E c f k (ex @ [i]) sh))
      = (case attempt_once E c f n i s of
           (Panic, sh) \<Rightarrow> (Panic, drop_guard i sh)
         | (Ret (Answer r), sh) \<Rightarrow> (Ret r, drop_guard i sh)
         | (Ret Retry, sh) \<Rightarrow> attempts E c f k (ex @ [i]) (drop_guard i sh))" for n i s
    using Suc.IH exec_attempt [of E c f n i s]
    by (cases "attempt_once E c f n i s"; cases "fst (attempt_once E c f n i s)")
      (auto simp: case_prod_beta bindr_def split: outcome.splits)
  then show ?case by (simp add: Let_def exec_distribs cong: option.case_cong)
qed simp

lemma exec_forward [simp]: "exec E (forward_task E c rq sh) = forward_stage E c rq sh"
  by (simp add: forward_task_def forward_stage_def Let_def exec_distribs cong: option.case_cong)

lemma exec_serve: "exec E (serve_task E c rq sh) = serve_route E c rq sh"
  by (simp add: serve_task_def serve_route_def)

end
