(* ===== verification/Task_Logic.thy ===== *)
theory Task_Logic
  imports Tasks
begin

text \<open>
  Reasoning about tasks under interleaving. A rule fixes what a task owes whenever it waits and
  what it may rely on when it goes on: a ghost value \<open>l\<close> is carried along the task, \<open>ru_waits\<close>
  holds where the task suspends, \<open>ru_resumes\<close> relates the state it left to the state it is polled
  in and chooses the next ghost value, and \<open>ru_panics\<close> and \<open>ru_drops\<close> hold where it ends without a
  result. The handler's tasks are then followed with one lemma per construct.
\<close>

section \<open>Rules\<close>

record ('l, 't) rule =
  ru_waits :: "'l \<Rightarrow> await_point \<Rightarrow> 't \<Rightarrow> bool"
  ru_resumes :: "await_point \<Rightarrow> 't \<Rightarrow> 't \<Rightarrow> 'l \<Rightarrow> bool"
  ru_panics :: "'l \<Rightarrow> 't \<Rightarrow> bool"
  ru_drops :: "'l \<Rightarrow> 't \<Rightarrow> bool"

inductive sat :: "('l, 't) rule \<Rightarrow> ('l \<Rightarrow> 'a \<Rightarrow> 't \<Rightarrow> bool) \<Rightarrow> 'l \<Rightarrow> ('t, 'a) task \<times> 't \<Rightarrow> bool" for R Q where
  sat_Panic: "ru_panics R l s \<Longrightarrow> sat R Q l (Finished Panic, s)"
| sat_Ret: "Q l a s \<Longrightarrow> sat R Q l (Finished (Ret a), s)"
| sat_Suspended: "ru_waits R l p s \<Longrightarrow> (\<And>s' l'. ru_resumes R p s s' l' \<Longrightarrow> ru_drops R l' (c s'))
    \<Longrightarrow> (\<And>s' l'. ru_resumes R p s s' l' \<Longrightarrow> sat R Q l' (k s')) \<Longrightarrow> sat R Q l (Suspended p c k, s)"

inductive_simps sat_Finished_Panic [simp]: "sat R Q l (Finished Panic, s)"
inductive_simps sat_Finished_Ret [simp]: "sat R Q l (Finished (Ret a), s)"
inductive_cases sat_SuspendedE: "sat R Q l (Suspended p c k, s)"

lemma sat_SuspendedD:
  assumes "sat R Q l (Suspended p c k, s)"
  shows "ru_waits R l p s" and "ru_resumes R p s s' l' \<Longrightarrow> ru_drops R l' (c s')"
    and "ru_resumes R p s s' l' \<Longrightarrow> sat R Q l' (k s')"
  using assms by (auto elim: sat_SuspendedE)

section \<open>The constructs\<close>

lemma sat_andthen:
  assumes "sat R Q l m" and "\<And>l a s. Q l a s \<Longrightarrow> sat R Q' l (f a s)"
  shows "sat R Q' l (andthen m f)"
  using assms(1)
proof (induction rule: sat.induct)
  case (sat_Suspended l p s c k)
  then show ?case by (auto intro: sat.sat_Suspended)
qed (auto intro: assms(2))

lemma sat_mono:
  assumes "sat R Q l m" and "\<And>l a s. Q l a s \<Longrightarrow> Q' l a s"
  shows "sat R Q' l m"
  using assms by (induction rule: sat.induct) (auto intro: sat.intros)

text \<open>Code without an \<^verbatim>\<open>.await\<close>, and an \<^verbatim>\<open>.await\<close>, followed by the rest of the task.\<close>

lemma sat_atomic:
  assumes "fst m = Panic \<Longrightarrow> ru_panics R l (snd m)" and "\<And>a. fst m = Ret a \<Longrightarrow> sat R Q l (f a (snd m))"
  shows "sat R Q l (andthen (atomic m) f)"
  using assms by (cases "fst m") (auto simp: atomic_def)

lemma sat_suspend:
  assumes "ru_waits R l p sh"
    and "\<And>s l'. ru_resumes R p sh s l' \<Longrightarrow> ru_drops R l' s"
    and "\<And>s l'. ru_resumes R p sh s l' \<Longrightarrow> sat R Q l' (f () (s\<lparr>sh_calls := sh_calls sh\<rparr>))"
  shows "sat R Q l (andthen (suspend p sh) f)"
  using assms by (auto simp: suspend_def intro!: sat_Suspended)

lemma sat_unless:
  assumes "sat R Q l m" and "\<And>l s. Q l None s \<Longrightarrow> sat R Q' l (f s)" and "\<And>l a s. Q l (Some a) s \<Longrightarrow> Q' l a s"
  shows "sat R Q' l (unless_done m f)"
  unfolding unless_done_def using assms by (auto intro!: sat_andthen [OF assms(1)] split: option.split)

lemma sat_unless_atomic:
  assumes "fst m = Panic \<Longrightarrow> ru_panics R l (snd m)" and "\<And>a. fst m = Ret (Some a) \<Longrightarrow> Q l a (snd m)"
    and "fst m = Ret None \<Longrightarrow> sat R Q l (f (snd m))"
  shows "sat R Q l (unless_done (atomic m) f)"
  unfolding unless_done_def using assms by (auto intro!: sat_atomic split: option.split)

text \<open>Holding a value may change what the rest of the task owes, by \<open>h\<close>.\<close>

lemma sat_holding:
  assumes "sat R Q l (t, s)"
    and "\<And>l p s. ru_waits R l p s \<Longrightarrow> ru_waits R' (h l) p s"
    and "\<And>l p s s' l'. ru_waits R l p s \<Longrightarrow> ru_resumes R' p s s' l' \<Longrightarrow> \<exists>l0. ru_resumes R p s s' l0 \<and> l' = h l0"
    and "\<And>l s. ru_panics R l s \<Longrightarrow> ru_panics R' (h l) (g s)"
    and "\<And>l s. ru_drops R l s \<Longrightarrow> ru_drops R' (h l) (g s)"
    and "\<And>l a s. Q l a s \<Longrightarrow> Q' (h l) a (g s)"
  shows "sat R' Q' (h l) (holding g t s)"
proof -
  have "sat R' Q' (h l) (holding g (fst m) (snd m))" if "sat R Q l m" for l m
    using that
  proof (induction rule: sat.induct)
    case (sat_Suspended l p s c k)
    have "\<exists>l0. ru_resumes R p s s' l0 \<and> l' = h l0" if "ru_resumes R' p s s' l'" for s' l'
      using assms(3) sat_Suspended.hyps(1) that .
    then have "ru_drops R' l' (g (c s')) \<and> sat R' Q' l' (holding g (fst (k s')) (snd (k s')))"
      if "ru_resumes R' p s s' l'" for s' l'
      using that sat_Suspended.hyps(2) sat_Suspended.IH assms(5) by blast
    with assms(2) [OF sat_Suspended.hyps(1)] show ?case by (simp add: sat.sat_Suspended)
  qed (auto intro: assms)
  from this [OF assms(1)] show ?thesis by simp
qed

lemmas sat_holding_same = sat_holding [where h = id and R' = R and R = R for R, simplified]

end
