(* ===== verification/Task_Traces.thy ===== *)
theory Task_Traces
  imports Task_Logic
begin

text \<open>
  What a task meets while other tasks run. A trace lists, for each time the task is polled or
  dropped, the point at which it waited and the state it found. Every trace of a request's task
  is the run of the handler of \<^verbatim>\<open>Proxy\<close> in some environment: a task waits at most once at
  each point, so that what the others did there is a function of the point.
\<close>

section \<open>Traces\<close>

type_synonym 't trace = "(await_point \<times> bool \<times> 't) list"

inductive polled ::
  "(('hm, 's) shared, 'a) task \<times> ('hm, 's) shared \<Rightarrow> await_point \<times> bool \<times> ('hm, 's) shared
   \<Rightarrow> (('hm, 's) shared, 'a) task \<times> ('hm, 's) shared \<Rightarrow> bool" where
  resumed: "polled (Suspended a c k, s) (a, False, s') (k (s'\<lparr>sh_calls := sh_calls s\<rparr>))"
| dropped: "polled (Suspended a c k, s) (a, True, s') (Finished Panic, c (s'\<lparr>sh_calls := sh_calls s\<rparr>))"

inductive_cases polledE: "polled (Suspended a c k, s) x m"
inductive_cases polled_FinishedE [elim!]: "polled (Finished r, s) x m"

inductive polls ::
  "(('hm, 's) shared, 'a) task \<times> ('hm, 's) shared \<Rightarrow> ('hm, 's) shared trace
   \<Rightarrow> (('hm, 's) shared, 'a) task \<times> ('hm, 's) shared \<Rightarrow> bool" where
  polls_Nil: "polls m [] m"
| polls_Cons: "polled m x m1 \<Longrightarrow> polls m1 tr m2 \<Longrightarrow> polls m (x # tr) m2"

inductive_cases polls_ConsE: "polls m (x # tr) m'"
inductive_simps polls_Nil_iff [simp]: "polls m [] m'"

lemma polls_snoc: "polls m tr m1 \<Longrightarrow> polled m1 x m2 \<Longrightarrow> polls m (tr @ [x]) m2"
  by (induction rule: polls.induct) (auto intro: polls.intros)

text \<open>An environment that does what a trace says.\<close>

definition follows :: "('hm, 's) shared trace \<Rightarrow> ('hm, 's, 'b) env \<Rightarrow> bool" where
  "follows tr E \<longleftrightarrow> (\<forall>(a, d, s) \<in> set tr. e_others E a = (\<lambda>_. s) \<and> e_dropped E a = d)"

definition replay :: "('hm, 's, 'b) env \<Rightarrow> ('hm, 's) shared trace \<Rightarrow> ('hm, 's, 'b) env" where
  "replay E tr = E\<lparr>e_others := (\<lambda>a s. case map_of tr a of Some (d, s') \<Rightarrow> s' | None \<Rightarrow> s),
     e_dropped := (\<lambda>a. case map_of tr a of Some (d, s') \<Rightarrow> d | None \<Rightarrow> False)\<rparr>"

lemma follows_replay: "distinct (map fst tr) \<Longrightarrow> follows tr (replay E tr)"
  by (auto simp: follows_def replay_def)

lemma follows_exec: "polls m tr m' \<Longrightarrow> follows tr E \<Longrightarrow> exec E m = exec E m'"
proof (induction rule: polls.induct)
  case (polls_Cons m x m1 tr m2)
  then have "follows tr E" "follows [x] E" by (auto simp: follows_def)
  with polls_Cons show ?case
    by (auto elim!: polled.cases simp: follows_def interfere_def)
qed simp

section \<open>A task waits at most once at each point\<close>

text \<open>The order of the points; \<open>n\<close> bounds the number of attempts.\<close>

fun rank :: "nat \<Rightarrow> await_point \<Rightarrow> nat" where
  "rank n AtLimiter = 0"
| "rank n AtBody = 1"
| "rank n (AtSend k) = k + 2"
| "rank n AtRead = n + 2"

text \<open>The task waits at points of rank \<open>l\<close> and above, in increasing order, and a result satisfies \<open>Q\<close>
  at the rank that is reached.\<close>

definition order_rule :: "nat \<Rightarrow> (nat, 't) rule" where
  "order_rule n = \<lparr>ru_waits = (\<lambda>l p s. l \<le> rank n p \<and> rank n p \<le> n + 2), ru_resumes = (\<lambda>p s s' l. l = Suc (rank n p)),
     ru_panics = (\<lambda>l s. True), ru_drops = (\<lambda>l s. True)\<rparr>"

abbreviation in_order :: "nat \<Rightarrow> (nat \<Rightarrow> 'a \<Rightarrow> bool) \<Rightarrow> nat \<Rightarrow> ('t, 'a) task \<times> 't \<Rightarrow> bool" where
  "in_order n Q \<equiv> sat (order_rule n) (\<lambda>l a s. Q l a)"

abbreviation anything :: "nat \<Rightarrow> 'a \<Rightarrow> bool" where
  "anything l a \<equiv> True"

lemma order_rule_sel [simp]:
  "ru_waits (order_rule n) = (\<lambda>l p s. l \<le> rank n p \<and> rank n p \<le> n + 2)" "ru_resumes (order_rule n) = (\<lambda>p s s' l. l = Suc (rank n p))"
  "ru_panics (order_rule n) = (\<lambda>l s. True)" "ru_drops (order_rule n) = (\<lambda>l s. True)"
  by (simp_all add: order_rule_def)

lemma in_order_trace:
  assumes "polls m tr m'" and "in_order n Q l m"
  shows "sorted_wrt (<) (map (rank n \<circ> fst) tr) \<and> (\<forall>x \<in> set tr. l \<le> rank n (fst x))"
  using assms
proof (induction arbitrary: l rule: polls.induct)
  case (polls_Cons m x m1 tr m2)
  from polls_Cons.hyps(1) show ?case
  proof (cases rule: polled.cases)
    case (resumed a c k s s')
    with polls_Cons.prems have l: "l \<le> rank n a" "in_order n Q (Suc (rank n a)) m1"
      by (auto elim: sat_SuspendedE)
    from polls_Cons.IH [OF l(2)] l(1) resumed show ?thesis by fastforce
  next
    case (dropped a c k s s')
    then have "tr = []" using polls_Cons.hyps(2) by (auto elim: polls.cases)
    with dropped polls_Cons.prems show ?thesis by (auto elim: sat_SuspendedE)
  qed
qed simp

lemma distinct_trace:
  assumes "polls m tr m'" and "in_order n Q l m"
  shows "distinct (map fst tr)"
proof -
  have "distinct (map (rank n \<circ> fst) tr)"
    using in_order_trace [OF assms] strict_sorted_iff by blast
  then show ?thesis by (metis distinct_map map_map)
qed

section \<open>The handler's task\<close>

lemma order_finish: "l \<le> n + 2 \<Longrightarrow> in_order n anything l (finish_task E c resp sh)"
  by (auto simp: finish_task_def Let_def split: option.split
      intro!: sat_suspend sat_atomic)

lemma order_return: "l \<le> n + 2 \<Longrightarrow> in_order n (\<lambda>_ out. out \<noteq> Retry) l (return_task E c resp sh)"
  by (auto simp: return_task_def intro!: sat_andthen [OF order_finish])

lemma order_call: "l \<le> a + 2 \<Longrightarrow> a < n \<Longrightarrow> in_order n (\<lambda>l _. l = a + 3) l (call_task E c f a i sh)"
  by (auto simp: call_task_def Let_def intro!: sat_suspend sat_atomic)

lemma order_attempt:
  assumes "l \<le> a + 2" and "a < n"
  shows "in_order n (\<lambda>l out. out = Retry \<longrightarrow> l = a + 3) l (attempt_task E c f a i sh)"
proof -
  have ret: "in_order n (\<lambda>l out. out = Retry \<longrightarrow> l = a + 3) (a + 3) (return_task E c resp s)" for resp s
    using assms(2) by (intro sat_mono [OF order_return]) auto
  show ?thesis
    unfolding attempt_task_def Let_def
    by (rule sat_andthen [OF order_call [OF assms]])
      (auto split: send_result.split simp: ret intro!: sat_atomic)
qed

lemma order_attempts:
  assumes "fw_max_attempts f \<le> n" and "k \<le> fw_max_attempts f" and "l \<le> fw_max_attempts f - k + 2"
  shows "in_order n anything l (attempts_task E c f k ex sh)"
  using assms(2,3)
proof (induction k arbitrary: l ex sh)
  case (Suc k)
  let ?a = "fw_max_attempts f - Suc k"
  have "in_order n anything l (andthen (holding g (fst (attempt_task E c f ?a i s)) (snd (attempt_task E c f ?a i s)))
      (\<lambda>out sh. case out of Answer r \<Rightarrow> (Finished (Ret r), sh) | Retry \<Rightarrow> attempts_task E c f k (ex @ [i]) sh))"
    for g i s
    by (rule sat_andthen [OF sat_holding_same, where Q1 = "\<lambda>l out s. out = Retry \<longrightarrow> l = ?a + 3"])
      (use Suc assms(1) order_attempt [of l ?a n E c f i s] in \<open>auto split: outcome.split\<close>)
  then show ?case
    by (auto simp: Let_def case_prod_beta split: option.split intro!: sat_atomic)
qed simp

lemma order_forward:
  assumes "unat (rc_retries (cx_config c)) + 1 \<le> n" and "l \<le> 1"
  shows "in_order n anything l (forward_task E c rq sh)"
  unfolding forward_task_def
  by (rule sat_suspend)
    (use assms max_attempts_forward [of E c rq] in \<open>auto simp: Let_def split: option.split
      intro!: order_attempts intro: order_trans\<close>)

lemma order_rate: "l = 0 \<Longrightarrow> in_order n (\<lambda>l _. l \<le> 1) l (rate_task E c sh)"
  by (auto simp: rate_task_def Let_def case_prod_beta split: option.split
      intro!: sat_suspend sat_atomic)

lemma order_serve: "in_order (unat (rc_retries (cx_config c)) + 1) anything 0 (serve_task E c rq sh)"
  unfolding serve_task_def
  by (intro sat_unless_atomic sat_unless [OF order_rate] order_forward) auto

text \<open>A task does not look at what the others do: it only meets the state they leave.\<close>

lemma blind_helpers:
  fixes E :: "('hm, 's, 'b) env"
  defines "E' \<equiv> \<lambda>ot d. E\<lparr>e_others := ot, e_dropped := d\<rparr>"
  shows "error_response (E' ot d) = error_response E" "record_request (E' ot d) = record_request E"
    "store_in_cache (E' ot d) = store_in_cache E" "note_failure (E' ot d) = note_failure E"
    "forward_of (E' ot d) = forward_of E" "cached_reply (E' ot d) = cached_reply E"
  by (auto simp: fun_eq_iff error_response_def record_request_def store_in_cache_def note_failure_def
      forward_of_def cached_reply_def Let_def E'_def split: option.split)

lemma blind_stages:
  "auth_stage (E\<lparr>e_others := ot, e_dropped := d\<rparr>) = auth_stage E"
  "cache_stage (E\<lparr>e_others := ot, e_dropped := d\<rparr>) = cache_stage E"
  "rate_task (E\<lparr>e_others := ot, e_dropped := d\<rparr>) = rate_task E"
  "finish_task (E\<lparr>e_others := ot, e_dropped := d\<rparr>) = finish_task E"
  "call_task (E\<lparr>e_others := ot, e_dropped := d\<rparr>) = call_task E"
  by (simp_all add: fun_eq_iff auth_stage_def cache_stage_def rate_task_def finish_task_def call_task_def blind_helpers
      Let_def cong: if_cong option.case_cong sum.case_cong)

lemma blind_attempt: "attempt_task (E\<lparr>e_others := ot, e_dropped := d\<rparr>) = attempt_task E"
  by (simp add: fun_eq_iff attempt_task_def return_task_def blind_helpers blind_stages Let_def
      cong: if_cong send_result.case_cong)

lemma blind_attempts:
  "attempts_task (E\<lparr>e_others := ot, e_dropped := d\<rparr>) c f k ex sh = attempts_task E c f k ex sh"
  by (induction k arbitrary: ex sh) (simp_all add: blind_helpers blind_attempt cong: option.case_cong outcome.case_cong)

lemma blind_serve: "serve_task (E\<lparr>e_others := ot, e_dropped := d\<rparr>) c rq sh = serve_task E c rq sh"
  by (simp add: serve_task_def forward_task_def blind_helpers blind_stages blind_attempts cong: option.case_cong)

theorem serve_task_adequate:
  assumes "polls (serve_task E c rq sh) tr (Finished r, s)"
  shows "serve_route (replay E tr) c rq sh = (r, s)"
proof -
  let ?E = "replay E tr"
  have "serve_task ?E c rq sh = serve_task E c rq sh" by (simp add: replay_def blind_serve)
  moreover have "exec ?E (serve_task E c rq sh) = (r, s)"
    using follows_exec [OF assms follows_replay [OF distinct_trace [OF assms order_serve]]] by simp
  ultimately show ?thesis using exec_serve [of ?E c rq sh] by simp
qed

text \<open>How often the task is polled until it has finished.\<close>

lemma in_order_polls:
  assumes "polls m tr m'" and "in_order n Q l m" and "l \<le> n + 3"
  shows "length tr + l \<le> n + 3 \<and> (length tr + l = n + 3 \<longrightarrow> (\<exists>r. fst m' = Finished r))"
  using assms
proof (induction arbitrary: l rule: polls.induct)
  case (polls_Nil m)
  from polls_Nil.prems(1) have "(\<exists>r. fst m = Finished r) \<or> l \<le> n + 2" by (cases rule: sat.cases) auto
  with polls_Nil.prems(2) show ?case by auto
next
  case (polls_Cons m x m1 tr m2)
  from polls_Cons.hyps(1) show ?case
  proof (cases rule: polled.cases)
    case (resumed a c k s s')
    with polls_Cons.prems have l: "l \<le> rank n a" "rank n a \<le> n + 2" "in_order n Q (Suc (rank n a)) m1"
      by (auto elim: sat_SuspendedE)
    from polls_Cons.IH [OF l(3)] l(1,2) show ?thesis by auto
  next
    case (dropped a c k s s')
    then have "tr = []" "m2 = m1" using polls_Cons.hyps(2) by (auto elim: polls.cases)
    with dropped polls_Cons.prems show ?thesis by (auto elim!: sat_SuspendedE)
  qed
qed

lemma serve_task_polls:
  assumes "polls (serve_task E c rq sh) tr m"
  shows "length tr \<le> unat (rc_retries (cx_config c)) + 4
     \<and> (length tr = unat (rc_retries (cx_config c)) + 4 \<longrightarrow> (\<exists>r. fst m = Finished r))"
  using in_order_polls [OF assms order_serve] by simp

end
