(* ===== verification/Concurrency.thy ===== *)
theory Concurrency
  imports Task_Traces Pipeline
begin

text \<open>
  Many requests of one route at the same time. The runtime polls the tasks of \<^verbatim>\<open>Tasks\<close> in any
  order over one shared state; between two polls new requests arrive, a client may go away (its
  task is dropped where it waits), a health check sets a flag, and requests of other routes use
  the metrics and the limiter. A step runs a task from one \<^verbatim>\<open>.await\<close> to the next; no lock of
  the program is held across one. Stretches of two tasks that overlap on different worker threads
  are taken one after the other.
\<close>

section \<open>The system\<close>

text \<open>A request: what it was started with, the state it met, the polls so far, and where it stands.\<close>

record ('hm, 's, 'b) entry =
  en_env :: "('hm, 's, 'b) env"
  en_ctx :: "'hm req_ctx"
  en_request :: "('hm, 'b) request"
  en_start :: "('hm, 's) shared"
  en_trace :: "('hm, 's) shared trace"
  en_task :: "(('hm, 's) shared, 'hm response) task"
  en_left :: "('hm, 's) shared"

type_synonym ('hm, 's, 'b) system = "('hm, 's) shared \<times> ('hm, 's, 'b) entry list"

text \<open>The calls are a request's own: what is shared has none.\<close>

definition fresh :: "('hm, 's) shared \<Rightarrow> ('hm, 's) shared" where
  "fresh S = S\<lparr>sh_calls := []\<rparr>"

lemma fresh_sel [simp]:
  "sh_metrics (fresh S) = sh_metrics S" "sh_limiter (fresh S) = sh_limiter S" "sh_balancer (fresh S) = sh_balancer S"
  "sh_cache (fresh S) = sh_cache S" "sh_calls (fresh S) = []"
  by (simp_all add: fresh_def)

definition started ::
  "('hm, 's, 'b) env \<Rightarrow> 'hm req_ctx \<Rightarrow> ('hm, 'b) request \<Rightarrow> ('hm, 's) shared \<Rightarrow> ('hm, 's, 'b) entry" where
  "started E c rq s =
     \<lparr>en_env = E, en_ctx = c, en_request = rq, en_start = s, en_trace = [],
      en_task = fst (serve_task E c rq s), en_left = snd (serve_task E c rq s)\<rparr>"

abbreviation standing :: "('hm, 's, 'b) entry \<Rightarrow> (('hm, 's) shared, 'hm response) task \<times> ('hm, 's) shared" where
  "standing e \<equiv> (en_task e, en_left e)"

definition advanced ::
  "await_point \<times> bool \<times> ('hm, 's) shared \<Rightarrow> (('hm, 's) shared, 'hm response) task \<times> ('hm, 's) shared
   \<Rightarrow> ('hm, 's, 'b) entry \<Rightarrow> ('hm, 's, 'b) entry" where
  "advanced x m e = e\<lparr>en_trace := en_trace e @ [x], en_task := fst m, en_left := snd m\<rparr>"

text \<open>\<open>J\<close> says which requests may arrive.\<close>

inductive sys_step ::
  "(('hm, 's, 'b) env \<Rightarrow> 'hm req_ctx \<Rightarrow> ('hm, 'b) request \<Rightarrow> bool)
   \<Rightarrow> ('hm, 's, 'b) system \<Rightarrow> ('hm, 's, 'b) system \<Rightarrow> bool" for J where
  arrive: "J E c rq \<Longrightarrow> e = started E c rq (fresh S) \<Longrightarrow> sys_step J (S, es) (fresh (en_left e), es @ [e])"
| poll: "i < length es \<Longrightarrow> polled (standing (es ! i)) (p, d, S) m \<Longrightarrow>
    sys_step J (S, es) (fresh (snd m), es[i := advanced (p, d, S) m (es ! i)])"
| flag: "sys_step J (S, es) (S\<lparr>sh_balancer := upd_upstream i (set_healthy v) (sh_balancer S)\<rparr>, es)"
| elsewhere: "(limiter_ok (sh_limiter S) \<Longrightarrow> limiter_ok l) \<Longrightarrow> sys_step J (S, es) (S\<lparr>sh_metrics := m, sh_limiter := l\<rparr>, es)"

inductive_cases sys_stepE: "sys_step J (S, es) (S', es')"

abbreviation runs_to ::
  "(('hm, 's, 'b) env \<Rightarrow> 'hm req_ctx \<Rightarrow> ('hm, 'b) request \<Rightarrow> bool)
   \<Rightarrow> ('hm, 's) shared \<Rightarrow> ('hm, 's, 'b) system \<Rightarrow> bool" where
  "runs_to J S0 y \<equiv> (sys_step J)\<^sup>*\<^sup>* (S0, []) y"

section \<open>Every request runs the handler\<close>

definition entry_inv :: "('hm, 's, 'b) entry \<Rightarrow> bool" where
  "entry_inv e \<longleftrightarrow> sh_calls (en_start e) = []
     \<and> polls (serve_task (en_env e) (en_ctx e) (en_request e) (en_start e)) (en_trace e) (standing e)"

lemma entry_inv_started: "entry_inv (started E c rq (fresh S))"
  by (simp add: entry_inv_def started_def fresh_def)

lemma entry_inv_advanced: "entry_inv e \<Longrightarrow> polled (standing e) x m \<Longrightarrow> entry_inv (advanced x m e)"
  by (auto simp: entry_inv_def advanced_def intro: polls_snoc)

interpretation entries: machine "sys_step J" "\<lambda>y. list_all entry_inv (snd y)" for J
proof
  fix y z :: "('a, 'b, 'c) system"
  assume "sys_step J y z" "list_all entry_inv (snd y)"
  then show "list_all entry_inv (snd z)"
    by (cases rule: sys_step.cases)
      (auto simp: entry_inv_started list_all_length nth_append nth_list_update intro: entry_inv_advanced)
qed

lemma runs_entry: "runs_to J S0 (S, es) \<Longrightarrow> e \<in> set es \<Longrightarrow> entry_inv e"
  using entries.reach_inv [of J "(S0, [])" "(S, es)"] by (simp add: list_all_iff)

section \<open>Active counts\<close>

text \<open>The upstream whose guard a waiting task holds: the one it called last.\<close>

definition waiting_on :: "await_point \<Rightarrow> ('hm, 's) shared \<Rightarrow> nat option" where
  "waiting_on p s = (case p of
     AtSend n \<Rightarrow> Some (fst (last (sh_calls s))) | AtRead \<Rightarrow> Some (fst (last (sh_calls s))) | _ \<Rightarrow> None)"

fun guard_of :: "(('hm, 's) shared, 'a) task \<times> ('hm, 's) shared \<Rightarrow> nat option" where
  "guard_of (Finished r, s) = None"
| "guard_of (Suspended p c k, s) = waiting_on p s"

definition in_flight :: "nat \<Rightarrow> ('hm, 's, 'b) entry list \<Rightarrow> nat" where
  "in_flight i es = length (filter (\<lambda>e. guard_of (standing e) = Some i) es)"

fun release :: "nat option \<Rightarrow> i64 list \<Rightarrow> i64 list" where
  "release None xs = xs"
| "release (Some i) xs = xs[i := xs ! i - 1]"

text \<open>The ghost value is the list of counts without the task's own guard.\<close>

definition guard_rule :: "(i64 list, ('hm, 's) shared) rule" where
  "guard_rule = \<lparr>ru_waits = (\<lambda>l p s. release (waiting_on p s) (act s) = l),
     ru_resumes = (\<lambda>p s s' l. sh_calls s' = sh_calls s \<and> l = release (waiting_on p s) (act s')),
     ru_panics = (\<lambda>l s. act s = l), ru_drops = (\<lambda>l s. act s = l)\<rparr>"

text \<open>Inside an attempt on upstream \<open>i\<close> the guard is not the attempt's own.\<close>

definition call_rule :: "nat \<Rightarrow> (i64 list, ('hm, 's) shared) rule" where
  "call_rule i = \<lparr>ru_waits = (\<lambda>l p s. waiting_on p s = Some i \<and> act s = l),
     ru_resumes = (\<lambda>p s s' l. sh_calls s' = sh_calls s \<and> l = act s'),
     ru_panics = (\<lambda>l s. act s = l), ru_drops = (\<lambda>l s. act s = l)\<rparr>"

abbreviation last_called :: "nat \<Rightarrow> ('hm, 's) shared \<Rightarrow> bool" where
  "last_called i s \<equiv> sh_calls s \<noteq> [] \<and> fst (last (sh_calls s)) = i"

lemma guard_rule_sel [simp]:
  "ru_waits guard_rule = (\<lambda>l p s. release (waiting_on p s) (act s) = l)"
  "ru_resumes guard_rule = (\<lambda>p s s' l. sh_calls s' = sh_calls s \<and> l = release (waiting_on p s) (act s'))"
  "ru_panics guard_rule = (\<lambda>l s. act s = l)" "ru_drops guard_rule = (\<lambda>l s. act s = l)"
  by (simp_all add: guard_rule_def)

lemma call_rule_sel [simp]:
  "ru_waits (call_rule i) = (\<lambda>l p s. waiting_on p s = Some i \<and> act s = l)"
  "ru_resumes (call_rule i) = (\<lambda>p s s' l. sh_calls s' = sh_calls s \<and> l = act s')"
  "ru_panics (call_rule i) = (\<lambda>l s. act s = l)" "ru_drops (call_rule i) = (\<lambda>l s. act s = l)"
  by (simp_all add: call_rule_def)

lemma waiting_on_simps [simp]:
  "waiting_on (AtSend n) s = Some (fst (last (sh_calls s)))" "waiting_on AtRead s = Some (fst (last (sh_calls s)))"
  "waiting_on AtLimiter s = None" "waiting_on AtBody s = None"
  by (simp_all add: waiting_on_def)

lemma counts_finish:
  "act s = l \<Longrightarrow> last_called i s \<Longrightarrow>
   sat (call_rule i) (\<lambda>l a s. act s = l \<and> last_called i s) l (finish_task E c resp s)"
  by (auto simp: finish_task_def Let_def split: option.split intro!: sat_suspend sat_atomic)

lemma counts_call:
  "act s = l \<Longrightarrow> sat (call_rule i) (\<lambda>l a s. act s = l \<and> last_called i s) l (call_task E c f n i s)"
  by (auto simp: call_task_def Let_def intro!: sat_suspend sat_atomic)

lemma counts_attempt:
  "act s = l \<Longrightarrow> sat (call_rule i) (\<lambda>l a s. act s = l \<and> last_called i s) l (attempt_task E c f n i s)"
  unfolding attempt_task_def return_task_def Let_def
  by (auto intro!: sat_andthen [OF counts_call] sat_andthen [OF counts_finish] sat_atomic split: send_result.split)


abbreviation balanced :: "i64 list \<Rightarrow> 'a \<Rightarrow> ('hm, 's) shared \<Rightarrow> bool" where
  "balanced l a s \<equiv> act s = l"

lemma counts_guarded:
  assumes "act s = l"
  shows "sat guard_rule balanced (release (Some i) l)
    (holding (drop_guard i) (fst (attempt_task E c f n i s)) (snd (attempt_task E c f n i s)))"
  using counts_attempt [OF assms, of i E c f n]
  by (intro sat_holding [where R = "call_rule i" and Q = "\<lambda>l a s. act s = l \<and> last_called i s"])
    (auto simp: drop_guard_def actives_guards)

lemma counts_attempts: "act s = l \<Longrightarrow> sat guard_rule balanced l (attempts_task E c f k ex s)"
proof (induction k arbitrary: l ex s)
  case (Suc k)
  let ?n = "fw_max_attempts f - Suc k"
  obtain p b where p: "pick ex (e_pick_now E ?n) (sh_balancer s) = (p, b)" by (rule prod.exhaust)
  show ?case
  proof (cases "\<exists>i. p = Ret (Some i)")
    case True
    then obtain i where i: "p = Ret (Some i)" by blast
    with pick_any [OF p] have "release (Some i) (actives b) = act s" by auto
    with counts_guarded [of "s\<lparr>sh_balancer := b\<rparr>" "actives b" i E c f ?n] i p Suc
    show ?thesis
      by (auto simp: on_balancer_def Let_def case_prod_beta atomic_def intro!: sat_andthen split: outcome.split)
  next
    case False
    with pick_any [OF p] have "actives b = act s" by auto
    with False p Suc.prems show ?thesis
      by (cases p) (auto simp: on_balancer_def Let_def atomic_def split: option.splits)
  qed
qed simp

lemma counts_stages [simp]:
  "act (snd (auth_stage E c s)) = act s" "act (snd (cache_stage E c s)) = act s"
  by (auto simp: auth_stage_def cache_stage_def Let_def case_prod_beta intro!: act_bindr split: sum.splits option.splits)

lemma counts_rate: "act s = l \<Longrightarrow> sat guard_rule balanced l (rate_task E c s)"
  by (auto simp: rate_task_def Let_def case_prod_beta split: option.split intro!: sat_suspend sat_atomic)

lemma counts_forward: "act s = l \<Longrightarrow> sat guard_rule balanced l (forward_task E c rq s)"
  by (auto simp: forward_task_def Let_def split: option.split intro!: sat_suspend counts_attempts)

lemma counts_serve: "act s = l \<Longrightarrow> sat guard_rule balanced l (serve_task E c rq s)"
  unfolding serve_task_def by (intro sat_unless_atomic sat_unless [OF counts_rate] counts_forward) auto

text \<open>What a task contributes to the counts.\<close>

lemma release_nth: "j < length xs \<Longrightarrow> release h xs ! j = xs ! j - of_bool (h = Some j)"
  by (cases h) (auto simp: nth_list_update)

lemma length_release [simp]: "length (release h xs) = length xs"
  by (cases h) auto

lemma counts_guard: "sat guard_rule balanced l m \<Longrightarrow> release (guard_of m) (act (snd m)) = l"
  by (auto elim: sat.cases)

lemma counts_polled:
  assumes "sat guard_rule balanced l m" and "polled m (p, d, S) m'"
  shows "\<exists>l. sat guard_rule balanced l m'"
    and "release (guard_of m') (act (snd m')) = release (guard_of m) (act S)"
proof -
  let ?l = "release (guard_of m) (act S)"
  from assms(2) have "sat guard_rule balanced ?l m'"
  proof (cases rule: polled.cases)
    case (resumed c k s)
    have "sat guard_rule balanced (release (waiting_on p s) (act t)) (k t)" if "sh_calls t = sh_calls s" for t
      using assms(1) that unfolding resumed by (auto elim: sat_SuspendedE)
    from this [of "S\<lparr>sh_calls := sh_calls s\<rparr>"] resumed show ?thesis by simp
  next
    case (dropped c k s)
    have "act (c t) = release (waiting_on p s) (act t)" if "sh_calls t = sh_calls s" for t
      using assms(1) that unfolding dropped by (auto elim: sat_SuspendedE)
    from this [of "S\<lparr>sh_calls := sh_calls s\<rparr>"] dropped show ?thesis by simp
  qed
  then show "\<exists>l. sat guard_rule balanced l m'"
    and "release (guard_of m') (act (snd m')) = release (guard_of m) (act S)"
    by (auto dest: counts_guard)
qed

lemma shifted_count:
  fixes a :: "'a :: ab_group_add"
  assumes "a - x = s - y" and "s = b + n" and "n' + y = n + x"
  shows "a = b + n'"
proof -
  have "a = (s - y) + x" using assms(1) by (metis diff_add_cancel)
  also have "\<dots> = b + (n + x) - y" by (simp add: assms(2) algebra_simps)
  also have "\<dots> = b + n'" by (simp add: assms(3) [symmetric])
  finally show ?thesis .
qed

lemma in_flight_update:
  "i < length es \<Longrightarrow> in_flight j (es[i := e]) + of_bool (guard_of (standing (es ! i)) = Some j)
     = in_flight j es + of_bool (guard_of (standing e) = Some j)"
  unfolding in_flight_def by (rule length_filter_update)

definition counts_inv :: "i64 list \<Rightarrow> ('hm, 's, 'b) system \<Rightarrow> bool" where
  "counts_inv base y \<longleftrightarrow> length (act (fst y)) = length base
     \<and> (\<forall>j < length base. act (fst y) ! j = base ! j + of_nat (in_flight j (snd y)))
     \<and> (\<forall>e \<in> set (snd y). \<exists>l. sat guard_rule balanced l (standing e))"

lemma counts_inv_arrive:
  assumes "counts_inv base (S, es)" and "e = started E c rq (fresh S)"
  shows "counts_inv base (fresh (en_left e), es @ [e])"
proof -
  have s: "sat guard_rule balanced (act S) (standing e)"
    using counts_serve [of "fresh S" "act S" E c rq] assms(2) by (simp add: started_def fresh_def)
  have r: "release (guard_of (standing e)) (act (en_left e)) = act S" using counts_guard [OF s] by simp
  then have len: "length (act (en_left e)) = length base"
    using assms(1) length_release [of "guard_of (standing e)" "act (en_left e)"] by (simp add: counts_inv_def)
  have "act (en_left e) ! j = base ! j + of_nat (in_flight j (es @ [e]))" if "j < length base" for j
  proof -
    have "act S ! j = act (en_left e) ! j - of_bool (guard_of (standing e) = Some j)"
      using release_nth [of j "act (en_left e)" "guard_of (standing e)"] r len that by simp
    moreover have "act S ! j = base ! j + of_nat (in_flight j es)" using assms(1) that by (simp add: counts_inv_def)
    ultimately show ?thesis by (auto simp: in_flight_def algebra_simps)
  qed
  with s len assms(1) show ?thesis by (auto simp: counts_inv_def)
qed

lemma counts_inv_poll:
  assumes "counts_inv base (S, es)" and i: "i < length es" and p: "polled (standing (es ! i)) (p, d, S) m"
  shows "counts_inv base (fresh (snd m), es[i := advanced (p, d, S) m (es ! i)])"
proof -
  let ?e = "advanced (p, d, S) m (es ! i)"
  obtain l where "sat guard_rule balanced l (standing (es ! i))"
    using assms(1) i by (metis counts_inv_def nth_mem snd_conv)
  note m = counts_polled [OF this p]
  have e: "standing ?e = m" by (simp add: advanced_def)
  have len: "length (act (snd m)) = length base" "length (act S) = length base"
    using arg_cong [OF m(2), of length] assms(1) by (simp_all add: counts_inv_def)
  have "act (snd m) ! j = base ! j + of_nat (in_flight j (es[i := ?e]))" if "j < length base" for j
  proof -
    have "act (snd m) ! j - of_bool (guard_of m = Some j) = act S ! j - of_bool (guard_of (standing (es ! i)) = Some j)"
      using m(2) len that by (metis release_nth)
    moreover have "act S ! j = base ! j + of_nat (in_flight j es)" using assms(1) that by (simp add: counts_inv_def)
    moreover have "(of_nat (in_flight j (es[i := ?e])) + of_bool (guard_of (standing (es ! i)) = Some j) :: i64)
        = of_nat (in_flight j es) + of_bool (guard_of m = Some j)"
      using arg_cong [OF in_flight_update [OF i, of j ?e], of "of_nat :: nat \<Rightarrow> i64"] e by simp
    ultimately show ?thesis by (rule shifted_count)
  qed
  moreover have "\<exists>l. sat guard_rule balanced l (standing e')" if "e' \<in> set (es[i := ?e])" for e'
  proof (cases "e' = ?e")
    case False
    then have "e' \<in> set es" using that set_update_subset_insert [of es i ?e] by blast
    then show ?thesis using assms(1) by (simp add: counts_inv_def)
  qed (use m(1) e in simp)
  ultimately show ?thesis using len by (simp add: counts_inv_def)
qed

interpretation counts: machine "sys_step J" "counts_inv base" for J base
proof
  fix y z :: "('a, 'b, 'c) system"
  assume "sys_step J y z" "counts_inv base y"
  then show "counts_inv base z"
  proof (cases rule: sys_step.cases)
    case (flag S es i v)
    then show ?thesis using \<open>counts_inv base y\<close> by (simp add: counts_inv_def actives_upd set_healthy_def)
  next
    case (elsewhere S l es m)
    then show ?thesis using \<open>counts_inv base y\<close> by (simp add: counts_inv_def)
  qed (use \<open>counts_inv base y\<close> in \<open>auto intro: counts_inv_arrive counts_inv_poll\<close>)
qed

section \<open>Safety\<close>

definition usable :: "(string \<times> duration) list \<times> duration option \<Rightarrow> ('hm, 's) shared \<Rightarrow> bool" where
  "usable x s \<longleftrightarrow> shared_ok s \<and> static_view s = x"

text \<open>The environment of a request, alone.\<close>

definition calm :: "('hm, 's, 'b) env \<Rightarrow> ('hm, 's, 'b) env" where
  "calm E = E\<lparr>e_others := (\<lambda>_ s. s), e_dropped := (\<lambda>_. False)\<rparr>"

definition safe_rule :: "(string \<times> duration) list \<times> duration option \<Rightarrow> (unit, ('hm, 's) shared) rule" where
  "safe_rule x = \<lparr>ru_waits = (\<lambda>_ _ s. usable x s), ru_resumes = (\<lambda>_ _ s _. usable x s),
     ru_panics = (\<lambda>_ _. False), ru_drops = (\<lambda>_ s. usable x s)\<rparr>"

lemma safe_rule_sel [simp]:
  "ru_waits (safe_rule x) = (\<lambda>_ _ s. usable x s)" "ru_resumes (safe_rule x) = (\<lambda>_ _ s _. usable x s)"
  "ru_panics (safe_rule x) = (\<lambda>_ _. False)" "ru_drops (safe_rule x) = (\<lambda>_ s. usable x s)"
  by (simp_all add: safe_rule_def)

abbreviation safe :: "(string \<times> duration) list \<times> duration option \<Rightarrow> (('hm, 's) shared, 'a) task \<times> ('hm, 's) shared \<Rightarrow> bool" where
  "safe x \<equiv> sat (safe_rule x) (\<lambda>_ _ s. usable x s) ()"

lemma usable_simps [simp]:
  "usable x (metric g s) = usable x s" "usable x (record_request E r m code s) = usable x s"
  "usable x (s\<lparr>sh_calls := l\<rparr>) = usable x s" "usable x (fresh s) = usable x s"
  by (simp_all add: usable_def fresh_def)

lemma safe_atomic:
  assumes "returns x m" and "\<And>a s. m = (Ret a, s) \<Longrightarrow> usable x s \<Longrightarrow> safe x (f a s)"
  shows "safe x (andthen (atomic m) f)"
  using assms by (auto simp: returns_def usable_def atomic_def)

lemma safe_suspend:
  assumes "usable x s" and "\<And>s. usable x s \<Longrightarrow> safe x (f () s)"
  shows "safe x (andthen (suspend p s) f)"
  using assms by (auto intro!: sat_suspend)

lemma safe_holding:
  assumes "safe x m" and "i < length (fst x)"
  shows "safe x (holding (drop_guard i) (fst m) (snd m))"
  using sat_holding_same [of "safe_rule x" "\<lambda>_ _ s. usable x s" "()" "fst m" "snd m" "drop_guard i"] assms
  by (auto simp: usable_def drop_guard_ok in_range)

lemma usable_returns:
  assumes "env_ok (calm E) x" and "usable x s"
  shows "returns x (store_in_cache E key code ps b s)" "returns x (auth_stage E c s)" "returns x (cache_stage E c s)"
    "returns x (on_balancer (pick ex clk) s)"
    "i < length (fst x) \<Longrightarrow> returns x (note_failure E c n i s)"
    "i < length (fst x) \<Longrightarrow> returns x (on_balancer (on_breaker i record_success) s)"
    "i < length (fst x) \<Longrightarrow> returns x (on_balancer (on_breaker i breaker_get_state) s)"
  using assms(2) store_returns [OF assms(1), of s] note_failure_returns [OF assms(1), of s] auth_stage_returns [of s x]
    cache_stage_returns [of s x] pick_returns [of s] success_returns [of s x] state_returns [of s x]
  by (auto simp: usable_def calm_def blind_helpers)

lemma safe_finish:
  assumes "env_ok (calm E) x" and "usable x s"
  shows "safe x (finish_task E c resp s)"
  unfolding finish_task_def Let_def using assms
  by (auto simp: usable_returns split: option.split intro!: safe_suspend safe_atomic)

lemma safe_call:
  assumes "env_ok (calm E) x" and "usable x s" and "i < length (fst x)"
  shows "safe x (call_task E c f n i s)"
  unfolding call_task_def Let_def using assms
  by (auto simp: usable_returns intro!: safe_suspend safe_atomic)

lemma safe_attempt:
  assumes "env_ok (calm E) x" and "usable x s" and "i < length (fst x)"
  shows "safe x (attempt_task E c f n i s)"
  unfolding attempt_task_def return_task_def Let_def
  by (rule sat_andthen [OF safe_call [OF assms]])
    (use assms in \<open>auto simp: usable_returns split: send_result.split intro!: safe_atomic sat_andthen [OF safe_finish]\<close>)

lemma safe_attempts:
  assumes "env_ok (calm E) x" and "usable x s"
  shows "safe x (attempts_task E c f k ex s)"
  using assms(2)
proof (induction k arbitrary: ex s)
  case (Suc k)
  let ?n = "fw_max_attempts f - Suc k"
  have "safe x (case sel of
      None \<Rightarrow> (Finished (Ret (error_response E 503 ''no healthy upstream'' (cx_correlation c))),
               record_request E (cx_route c) (cx_method c) 503 t)
    | Some i \<Rightarrow> (let (u, sh) = attempt_task E c f ?n i t in
        andthen (holding (drop_guard i) u sh) (\<lambda>out sh. case out of
            Answer r \<Rightarrow> (Finished (Ret r), sh) | Retry \<Rightarrow> attempts_task E c f k (ex @ [i]) sh)))"
    if "on_balancer (pick ex (e_pick_now E ?n)) s = (Ret sel, t)" "usable x t" for sel t
  proof (cases sel)
    case (Some i)
    have "i < length (fst x)"
      using that(1) Some Suc.prems pick_any [of ex "e_pick_now E ?n" "sh_balancer s"]
      by (auto simp: on_balancer_def usable_def static_view_def split: prod.splits)
    with Some Suc.IH that(2) assms(1) show ?thesis
      by (auto simp: case_prod_beta split: outcome.split intro!: sat_andthen [OF safe_holding [OF safe_attempt]])
  qed (use that(2) in simp)
  with usable_returns(4) [OF assms(1) Suc.prems] show ?case by (auto simp: Let_def intro!: safe_atomic)
qed simp

lemma safe_serve:
  assumes "env_ok (calm E) x" and "usable x s"
  shows "safe x (serve_task E c rq s)"
proof -
  have fwd: "safe x (forward_task E c rq s)" if "usable x s" for s
    unfolding forward_task_def Let_def using assms(1) that
    by (auto split: option.split intro!: safe_suspend safe_attempts)
  have rate: "safe x (rate_task E c s)" if "usable x s" for s
  proof -
    have "returns x (let (d, l) = limiter_check R (sh_limiter t) key lim w now in (d, t\<lparr>sh_limiter := l\<rparr>))"
      if "usable x t" for t R key lim w now
      using that limiter_returns [of "sh_limiter t" R key lim w now]
      by (auto simp: usable_def shared_ok_def static_view_def)
    with that show ?thesis
      unfolding rate_task_def Let_def
      by (auto simp: case_prod_beta split: option.split intro!: safe_suspend safe_atomic)
  qed
  have stage: "safe x (unless_done (atomic m) g)"
    if "returns x m" "\<And>s. usable x s \<Longrightarrow> safe x (g s)" for m and g :: "_ \<Rightarrow> (_, 'd) task \<times> _"
    unfolding unless_done_def using that by (auto intro!: safe_atomic split: option.split)
  show ?thesis
    unfolding serve_task_def using assms
    by (auto simp: usable_returns intro!: stage fwd sat_unless [OF rate])
qed


definition was_dropped :: "('hm, 's, 'b) entry \<Rightarrow> bool" where
  "was_dropped e \<longleftrightarrow> (\<exists>tr p s. en_trace e = tr @ [(p, True, s)])"

definition safe_inv :: "(string \<times> duration) list \<times> duration option \<Rightarrow> ('hm, 's, 'b) system \<Rightarrow> bool" where
  "safe_inv x y \<longleftrightarrow> usable x (fst y)
     \<and> list_all (\<lambda>e. safe x (standing e) \<or> en_task e = Finished Panic \<and> was_dropped e) (snd y)"

lemma safe_usable: "safe x m \<Longrightarrow> usable x (snd m) \<and> fst m \<noteq> Finished Panic"
  by (auto elim: sat.cases)

lemma safe_polled:
  assumes "safe x m" and "polled m (p, d, S) m'" and "usable x S"
  shows "usable x (snd m') \<and> (if d then fst m' = Finished Panic else safe x m')"
  using assms(2)
proof (cases rule: polled.cases)
  case (resumed c k s)
  then have "safe x (k (S\<lparr>sh_calls := sh_calls s\<rparr>))"
    using assms(1,3) by (auto elim!: sat_SuspendedE)
  with safe_usable [OF this] resumed show ?thesis by simp
next
  case (dropped c k s)
  then show ?thesis using assms(1,3) by (auto elim!: sat_SuspendedE)
qed

lemma usable_flag:
  assumes "usable x S"
  shows "usable x (S\<lparr>sh_balancer := upd_upstream i (set_healthy v) (sh_balancer S)\<rparr>)"
proof -
  have "bal_ok (upd_upstream i (set_healthy v) (sh_balancer S))"
  proof (cases "i < length (bal_upstreams (sh_balancer S))")
    case True
    with assms show ?thesis by (simp add: usable_def shared_ok_def bal_ok_upd bal_ok_breaker set_healthy_def)
  next
    case False
    with assms show ?thesis by (simp add: usable_def shared_ok_def upd_upstream_def list_update_beyond)
  qed
  with assms show ?thesis
    by (simp add: usable_def shared_ok_def static_view_eq addresses_upd set_healthy_def)
qed

interpretation safety: machine "sys_step (\<lambda>E c rq. env_ok (calm E) x)" "safe_inv x" for x
proof
  fix y z :: "('a, 'b, 'c) system"
  assume "sys_step (\<lambda>E c rq. env_ok (calm E) x) y z" "safe_inv x y"
  then show "safe_inv x z"
  proof (cases rule: sys_step.cases)
    case (arrive E c rq e S es)
    then have "safe x (standing e)"
      using \<open>safe_inv x y\<close> safe_serve [of E x "fresh S" c rq] by (simp add: started_def fresh_def safe_inv_def)
    with safe_usable [OF this] arrive \<open>safe_inv x y\<close> show ?thesis by (simp add: safe_inv_def)
  next
    case (poll i es p d S m)
    have "safe x (standing (es ! i))"
      using poll \<open>safe_inv x y\<close> by (auto simp: safe_inv_def list_all_length)
    from safe_polled [OF this poll(4)] poll \<open>safe_inv x y\<close> show ?thesis
      by (auto simp: safe_inv_def list_all_length nth_list_update advanced_def was_dropped_def split: if_splits)
  next
    case (flag S es i v)
    with \<open>safe_inv x y\<close> show ?thesis by (simp add: safe_inv_def usable_flag)
  next
    case (elsewhere S l es m)
    with \<open>safe_inv x y\<close> show ?thesis by (simp add: safe_inv_def usable_def shared_ok_def static_view_def)
  qed
qed

section \<open>Properties\<close>

text \<open>Whatever the interleaving, a finished request has run the handler: for every request that has ended in a state
  the system reaches, there is a behaviour of the others (and of its client) for which the
  handler of \<^verbatim>\<open>Proxy\<close>, run alone on the state the request met at its start, gives the
  same result, makes the same upstream calls and leaves the state the request left. What is
  proved of the handler for all environments therefore holds of every request of a concurrent run.\<close>

theorem concurrent_requests_run_handler:
  assumes "runs_to J S0 (S, es)" and "e \<in> set es" and "en_task e = Finished r"
  shows "\<exists>ot dr. serve_route ((en_env e)\<lparr>e_others := ot, e_dropped := dr\<rparr>) (en_ctx e) (en_request e) (en_start e)
       = (r, en_left e) \<and> sh_calls (en_start e) = []"
proof -
  have i: "entry_inv e" using runs_entry [OF assms(1,2)] .
  then have "polls (serve_task (en_env e) (en_ctx e) (en_request e) (en_start e)) (en_trace e) (Finished r, en_left e)"
    by (simp add: entry_inv_def assms(3))
  from serve_task_adequate [OF this] i show ?thesis
    by (auto simp: replay_def entry_inv_def)
qed

text \<open>The active count of an upstream is the number of requests in flight to it: in every state the
  system reaches, however requests are interleaved, dropped or retried, the count of each
  upstream is its initial count plus the number of tasks that wait for an answer of that upstream
  (as their last call) or read its body. When no request waits, all counts are the initial ones.\<close>

theorem active_counts_requests_in_flight:
  assumes "runs_to J S0 (S, es)" and "i < length (bal_upstreams (sh_balancer S0))"
  shows "up_active (bal_upstreams (sh_balancer S) ! i)
       = up_active (bal_upstreams (sh_balancer S0) ! i) + of_nat (in_flight i es)"
proof -
  have "counts_inv (act S0) (S0, [] :: ('a, 'b, 'c) entry list)" by (simp add: counts_inv_def in_flight_def)
  from counts.reach_inv [OF assms(1) this] assms(2) show ?thesis
    by (auto simp: counts_inv_def actives_def)
qed

text \<open>No interleaving breaks the gateway: from a usable shared state, with requests whose clocks are not about to
  overflow, every reachable state is usable (no poisoned lock, well-formed balancer and cache,
  upstreams and time to live unchanged), and a request ends without a response only when its
  client went away.\<close>

theorem concurrent_requests_do_not_panic:
  assumes "runs_to (\<lambda>E c rq. env_ok (calm E) (static_view S0)) S0 (S, es)" and "shared_ok S0"
  shows "shared_ok S \<and> static_view S = static_view S0
     \<and> (\<forall>e \<in> set es. en_task e = Finished Panic \<longrightarrow> was_dropped e)"
proof -
  have "safe_inv (static_view S0) (S0, [] :: ('a, 'b, 'c) entry list)" using assms(2) by (simp add: safe_inv_def usable_def)
  from safety.reach_inv [OF assms(1) this] show ?thesis
    using safe_usable by (fastforce simp: safe_inv_def usable_def list_all_iff)
qed

text \<open>Every request ends after a bounded number of polls: whatever the other tasks do, a request is polled at
  most \<open>retries + 4\<close> times (for the limiter, the body, each attempt, and the body of the answer),
  and one that has been polled that often has finished.\<close>

theorem requests_end_after_bounded_polls:
  assumes "runs_to J S0 (S, es)" and "e \<in> set es"
  shows "length (en_trace e) \<le> unat (rc_retries (cx_config (en_ctx e))) + 4
     \<and> (length (en_trace e) = unat (rc_retries (cx_config (en_ctx e))) + 4 \<longrightarrow> (\<exists>r. en_task e = Finished r))"
  using runs_entry [OF assms] serve_task_polls [of "en_env e" "en_ctx e" "en_request e" "en_start e" "en_trace e" "standing e"]
  by (simp add: entry_inv_def)

end
