(* ===== verification/Enforcement.thy ===== *)
theory Enforcement
  imports Pipeline
begin

text \<open>
  The rate limit, end to end: from the limiter of \<^verbatim>\<open>crates/gateway/src/ratelimit.rs\<close> through
  the stages of \<^verbatim>\<open>crates/gateway/src/proxy.rs\<close> to the upstream calls of a sequence of
  requests of one route.
\<close>

section \<open>Buckets\<close>

text \<open>What the in-memory limiter holds for a key: whether its lock is poisoned, and the open window.\<close>

definition bucket :: "string \<Rightarrow> ('hm, 's) shared \<Rightarrow> (bool \<times> (instant \<times> u32) option) option" where
  "bucket k sh = (case sh_limiter sh of
      InMemory l \<Rightarrow> Some (poisoned (lim_windows l), guarded (lim_windows l) k) | Redis _ \<Rightarrow> None)"

text \<open>The check a request makes, if it gets that far.\<close>

definition checked :: "('hm, 's, 'b) env \<Rightarrow> 'hm req_ctx \<Rightarrow> rate_request option" where
  "checked E c =
     (if authorize (e_http E) (e_decode E) (rc_auth (cx_config c)) (cx_headers c) = Inr () \<and> \<not> e_dropped E AtLimiter
      then map_option (\<lambda>rl. (rate_key (e_http E) (rl_scope rl) (cx_route c) (cx_client_ip c) (cx_headers c),
             rl_limit rl, from_secs (rl_window_secs rl), e_rate_now E)) (rc_rate_limit (cx_config c))
      else None)"

type_synonym ('hm, 's, 'b) job = "('hm, 's, 'b) env \<times> 'hm req_ctx \<times> ('hm, 'b) request"

text \<open>The requests of bucket \<open>k\<close>, of a sequence served one after the other, that reach an upstream.\<close>

fun forwarded :: "string \<Rightarrow> ('hm, 's) shared \<Rightarrow> ('hm, 's, 'b) job list \<Rightarrow> nat" where
  "forwarded k sh [] = 0"
| "forwarded k sh ((E, c, rq) # jobs) =
     (let sh' = snd (serve_route E c rq (sh\<lparr>sh_calls := []\<rparr>)) in
      (if map_option key_of (checked E c) = Some k \<and> sh_calls sh' \<noteq> [] then 1 else 0) + forwarded k sh' jobs)"

section \<open>Lemmas\<close>

lemma bucket_view: "others_keep (bucket k) E \<Longrightarrow> silent_call_view E (bucket k)"
  by unfold_locales (simp_all add: bucket_def metric_def interfere_def others_keep_def record_request_def)

lemma bucket_Some:
  "bucket k sh = Some (False, e) \<longleftrightarrow> (\<exists>l. sh_limiter sh = InMemory l \<and> mem_usable l \<and> guarded (lim_windows l) k = e)"
  by (auto simp: bucket_def mem_usable_def split: limiter.splits)

lemma bucket_fields [simp]:
  "bucket k (sh\<lparr>sh_calls := cs\<rparr>) = bucket k sh" "bucket k (sh\<lparr>sh_limiter := InMemory l\<rparr>)
     = Some (poisoned (lim_windows l), guarded (lim_windows l) k)"
  "bucket k (metric g sh) = bucket k sh" "bucket k (record_request E rt m s sh) = bucket k sh"
  by (simp_all add: bucket_def)

lemma bucket_interfere: "others_keep (bucket k) E \<Longrightarrow> bucket k (interfere E a sh) = bucket k sh"
  by (simp add: interfere_def others_keep_def)

text \<open>What a check says about a key, and leaves of it, depends on nothing but that key's window.\<close>

lemma mem_check_window:
  assumes "mem_usable l" and "mem_usable l'" and "guarded (lim_windows l) k = guarded (lim_windows l') k"
  shows "key_of r = k \<Longrightarrow> fst (mem_check l r) = fst (mem_check l' r)"
    and "guarded (lim_windows (snd (mem_check l r))) k = guarded (lim_windows (snd (mem_check l' r))) k"
proof -
  obtain key lim w now where r: "r = (key, lim, w, now)" by (cases r)
  have e: "window_entry (guarded (lim_windows l)) k w now = window_entry (guarded (lim_windows l')) k w now"
    using assms(3) by (simp add: window_entry_def)
  show "key_of r = k \<Longrightarrow> fst (mem_check l r) = fst (mem_check l' r)"
    using assms(1,2) e by (simp add: r in_memory_check_eq in_memory_check_body_def case_prod_beta Let_def)
  show "guarded (lim_windows (snd (mem_check l r))) k = guarded (lim_windows (snd (mem_check l' r))) k"
    using assms e by (cases "key = k") (simp_all add: r in_memory_check_eq in_memory_check_body_def case_prod_beta Let_def)
qed

lemma admitted_cong:
  assumes "mem_usable l" and "mem_usable l'" and "guarded (lim_windows l) k = guarded (lim_windows l') k"
  shows "admitted k l rs = admitted k l' rs"
  using assms
proof (induction rs arbitrary: l l')
  case (Cons r rs)
  have "admitted k (snd (mem_check l r)) rs = admitted k (snd (mem_check l' r)) rs"
    using Cons.prems by (intro Cons.IH mem.check_usable mem_check_window)
  with mem_check_window(1) [OF Cons.prems, of r] show ?case by (cases "key_of r = k") (simp_all add: admitted_simps)
qed (simp add: admitted_simps)

lemma mem_check_Ret: "mem_usable l \<Longrightarrow> \<exists>d. fst (mem_check l r) = Ret d"
  by (cases r) (simp add: in_memory_check_eq in_memory_check_body_def case_prod_beta Let_def)

text \<open>
  The stages after the limiter neither touch the bucket nor, when they are not reached, call an
  upstream.
\<close>

lemma after_limiter_bucket:
  assumes "others_keep (bucket k) E"
  shows "bucket k (snd (unless_answered (cache_stage E c s) (forward_stage E c rq))) = bucket k s"
  using silent_call_view.forward_stage_keeps [OF bucket_view [OF assms]]
    silent_call_view.cache_stage_keeps [OF bucket_view [OF assms]]
  by (intro keeps_unless_answered [where v = "bucket k"]) simp_all

lemma serve_unchecked:
  assumes "others_keep (bucket k) E" and "checked E c = None"
  shows "bucket k (snd (serve_route E c rq sh)) = bucket k sh"
proof (cases "authorize (e_http E) (e_decode E) (rc_auth (cx_config c)) (cx_headers c)")
  case (Inl reason)
  then show ?thesis by (simp add: serve_route_def auth_stage_def Let_def)
next
  case (Inr u)
  show ?thesis
  proof (cases "rc_rate_limit (cx_config c)")
    case None
    with Inr after_limiter_bucket [OF assms(1)] show ?thesis
      by (simp add: serve_route_def auth_stage_def rate_stage_def)
  next
    case (Some rl)
    with assms(2) Inr have "e_dropped E AtLimiter" by (simp add: checked_def split: if_splits)
    with Inr Some bucket_interfere [OF assms(1)] show ?thesis
      by (simp add: serve_route_def auth_stage_def rate_stage_def Let_def)
  qed
qed

lemma serve_checked:
  assumes "others_keep (bucket k) E" and "checked E c = Some r" and "bucket k sh = Some (False, e)"
  obtains m where "mem_usable m" and "guarded (lim_windows m) k = e"
    and "bucket k (snd (serve_route E c rq sh)) = Some (False, guarded (lim_windows (snd (mem_check m r))) k)"
    and "sh_calls (snd (serve_route E c rq sh)) \<noteq> sh_calls sh \<Longrightarrow> granted (fst (mem_check m r))"
proof -
  obtain rl where rl: "authorize (e_http E) (e_decode E) (rc_auth (cx_config c)) (cx_headers c) = Inr ()"
    "\<not> e_dropped E AtLimiter" "rc_rate_limit (cx_config c) = Some rl"
    "r = (rate_key (e_http E) (rl_scope rl) (cx_route c) (cx_client_ip c) (cx_headers c),
        rl_limit rl, from_secs (rl_window_secs rl), e_rate_now E)"
    using assms(2) by (auto simp: checked_def split: if_splits)
  let ?s = "interfere E AtLimiter sh"
  have "bucket k ?s = Some (False, e)" using assms(1,3) by (simp add: bucket_interfere)
  then obtain m where m: "sh_limiter ?s = InMemory m" "mem_usable m" "guarded (lim_windows m) k = e"
    by (auto simp: bucket_Some)
  obtain d where d: "fst (mem_check m r) = Ret d" using mem_check_Ret [OF m(2)] by blast
  let ?m = "snd (mem_check m r)"
  have ok: "mem_usable ?m" using m(2) by (rule mem.check_usable)
  let ?s1 = "?s\<lparr>sh_limiter := InMemory ?m\<rparr>"
  have l: "limiter_check (e_redis E) (InMemory m)
      (rate_key (e_http E) (rl_scope rl) (cx_route c) (cx_client_ip c) (cx_headers c))
      (rl_limit rl) (from_secs (rl_window_secs rl)) (e_rate_now E) = (Ret d, InMemory ?m)"
    using d by (simp add: rl(4) case_prod_beta)
  have b: "bucket k ?s1 = Some (False, guarded (lim_windows ?m) k)" using ok by (simp add: mem_usable_def)
  show ?thesis
  proof (cases "rd_allowed d")
    case True
    then have "serve_route E c rq sh = unless_answered (cache_stage E c ?s1) (forward_stage E c rq)"
      using rl l m(1) by (simp add: serve_route_def auth_stage_def rate_stage_def Let_def)
    with True that [OF m(2,3)] d after_limiter_bucket [OF assms(1)] b show ?thesis by simp
  next
    case False
    then have "sh_calls (snd (serve_route E c rq sh)) = sh_calls sh"
      "bucket k (snd (serve_route E c rq sh)) = bucket k ?s1"
      using rl l m(1) by (simp_all add: serve_route_def auth_stage_def rate_stage_def Let_def)
    with that [OF m(2,3)] b show ?thesis by simp
  qed
qed

lemma forwarded_le_admitted:
  assumes "\<forall>(E, c, rq) \<in> set jobs. others_keep (bucket k) E"
    and "bucket k sh = Some (False, guarded (lim_windows l) k)" and "mem_usable l"
  shows "forwarded k sh jobs \<le> admitted k l (List.map_filter (\<lambda>(E, c, rq). checked E c) jobs)"
  using assms
proof (induction jobs arbitrary: sh l)
  case (Cons job jobs)
  obtain E c rq where job: "job = (E, c, rq)" by (cases job)
  have keep: "others_keep (bucket k) E" and rest: "\<forall>(E, c, rq) \<in> set jobs. others_keep (bucket k) E"
    using Cons.prems(1) by (auto simp: job)
  let ?sh = "sh\<lparr>sh_calls := []\<rparr>" and ?rs = "List.map_filter (\<lambda>(E, c, rq). checked E c) jobs"
  let ?sh' = "snd (serve_route E c rq ?sh)"
  have b: "bucket k ?sh = Some (False, guarded (lim_windows l) k)" using Cons.prems(2) by simp
  show ?case
  proof (cases "checked E c")
    case None
    with serve_unchecked [OF keep this, of rq ?sh] b Cons.IH [OF rest, of ?sh' l] Cons.prems(3) show ?thesis
      by (simp add: job List.map_filter_simps Let_def)
  next
    case (Some r)
    obtain m where m: "mem_usable m" "guarded (lim_windows m) k = guarded (lim_windows l) k"
      "bucket k ?sh' = Some (False, guarded (lim_windows (snd (mem_check m r))) k)"
      "sh_calls ?sh' \<noteq> [] \<Longrightarrow> granted (fst (mem_check m r))"
      using serve_checked [OF keep Some b, of rq] by auto
    have "forwarded k ?sh' jobs \<le> admitted k (snd (mem_check m r)) ?rs"
      using Cons.IH [OF rest m(3) mem.check_usable [OF m(1)]] .
    moreover have "admitted k l (r # ?rs) = admitted k m (r # ?rs)"
      using admitted_cong [OF Cons.prems(3) m(1)] m(2) by simp
    ultimately show ?thesis
      using m(4) by (auto simp: job Some List.map_filter_simps admitted_simps Let_def)
  qed
qed simp

section \<open>Property\<close>

text \<open>The rate limit is enforced end to end: of any sequence of requests to a route, in any interval
  as long as the window at most twice the limit of the requests in one bucket reach an upstream,
  whatever the requests, the answers of the upstreams and the other buckets' use of the limiter.\<close>

theorem rate_limit_enforced:
  assumes "sh_limiter sh = InMemory l" and "\<not> poisoned (lim_windows l)"
    and "\<forall>(E, c, rq) \<in> set jobs. others_keep (bucket k) E"
    and "\<forall>(E, c, rq) \<in> set jobs. \<forall>r. checked E c = Some r \<longrightarrow> key_of r = k \<longrightarrow>
           (\<exists>t. r = (k, lim, w, t) \<and> a \<le> t \<and> t < a + w)"
    and "mem_used l k + length jobs < 2 ^ 32"
  shows "forwarded k sh jobs \<le> 2 * unat lim"
proof -
  let ?rs = "List.map_filter (\<lambda>(E, c, rq). checked E c) jobs"
  have usable: "mem_usable l" using assms(2) by (simp add: mem_usable_def)
  have rs: "\<forall>r \<in> set ?rs. key_of r = k \<longrightarrow> (\<exists>t. r = (k, lim, w, t) \<and> a \<le> t \<and> t < a + w)"
    using assms(4) by (fastforce simp: List.map_filter_def)
  have "length (filter (\<lambda>r. key_of r = k) ?rs) \<le> length jobs"
    by (simp add: List.map_filter_def le_trans [OF length_filter_le])
  then have "mem_used l k + length (filter (\<lambda>r. key_of r = k) ?rs) < 2 ^ 32" using assms(5) by simp
  from admitted_bound [OF usable rs this] have "admitted k l ?rs \<le> 2 * unat lim" by simp
  moreover have "forwarded k sh jobs \<le> admitted k l ?rs"
    using assms(1,2,3) by (intro forwarded_le_admitted) (simp_all add: bucket_def mem_usable_def)
  ultimately show ?thesis by simp
qed

definition limited_ctx :: "header_list req_ctx" where
  "limited_ctx = (sample_ctx ''POST'')\<lparr>cx_config := sample_target\<lparr>rc_rate_limit :=
     Some \<lparr>rl_scope = ScopeRoute, rl_limit = 1, rl_window_secs = 10\<rparr>\<rparr>\<rparr>"

theorem rate_limit_enforced_witness:
  "checked sample_env limited_ctx = Some (''r:route'', 1, 10000000000, 0)
   \<and> forwarded ''r:route'' sample_shared (replicate 3 (sample_env, limited_ctx, sample_request ''POST'')) \<le> 2"
proof -
  have c: "checked sample_env limited_ctx = Some (''r:route'', 1, 10000000000, 0)"
    by (simp add: checked_def limited_ctx_def sample_target_def route_with_defaults_def auth_policy_default_def
        rate_key_def from_secs_def nanos_per_sec_def sample_env_def)
  moreover have "sh_limiter sample_shared = InMemory in_memory_new" by (simp add: sample_shared_def)
  ultimately show ?thesis
    using rate_limit_enforced [of sample_shared in_memory_new
        "replicate 3 (sample_env, limited_ctx, sample_request ''POST'')" "''r:route''" 1 10000000000 0]
    by (simp add: others_keep_def in_memory_new_def mem_used_def)
qed

section \<open>Upstreams out of service\<close>

text \<open>
  \<open>spared i t sh\<close>: upstream \<open>i\<close> is refused at every instant before \<open>t\<close>, because it is marked
  unhealthy or its breaker is open until then, and this request has not called it.
\<close>

definition spared :: "nat \<Rightarrow> instant \<Rightarrow> ('hm, 's) shared \<Rightarrow> bool" where
  "spared i t sh \<longleftrightarrow> i < length (bal_upstreams (sh_balancer sh))
     \<and> (\<forall>now < t. \<not> admits (bal_upstreams (sh_balancer sh) ! i) now) \<and> i \<notin> fst ` set (sh_calls sh)"

text \<open>A probe that is refused changes nothing; one of another upstream does not matter.\<close>

lemma eligible_refused: "\<not> admits u now \<Longrightarrow> snd (eligible u now) = u \<and> fst (eligible u now) \<noteq> Ret True"
  by (cases "poisoned (cb_inner (up_breaker u))")
    (auto simp: eligible_def admits_def blocked_def allow_at_def on_inner_def lock_simps allow_body_def with_lock_def
      case_prod_beta Let_def split: if_splits)

definition untouched :: "nat \<Rightarrow> balancer \<Rightarrow> nat option res \<times> balancer \<Rightarrow> bool" where
  "untouched i b out \<longleftrightarrow> fst out \<noteq> Ret (Some i) \<and> length (bal_upstreams (snd out)) = length (bal_upstreams b)
     \<and> bal_upstreams (snd out) ! i = bal_upstreams b ! i"

lemma probe_untouched:
  assumes "i < length (bal_upstreams b)" and "\<not> admits (bal_upstreams b ! i) now"
  shows "length (bal_upstreams (snd (probe_at j now b))) = length (bal_upstreams b)"
    and "bal_upstreams (snd (probe_at j now b)) ! i = bal_upstreams b ! i"
    and "fst (probe_at i now b) \<noteq> Ret True"
  using assms eligible_refused [OF assms(2)]
  by (auto simp: probe_at_def case_prod_beta upd_upstream_nth split: if_splits)

lemma rr_loop_untouched:
  assumes "i < length (bal_upstreams b)" and "\<And>k. \<not> admits (bal_upstreams b ! i) (clk k)"
  shows "untouched i b (rr_loop k ex clk b)"
  using assms
proof (induction k arbitrary: b)
  case (Suc k)
  let ?b = "b\<lparr>bal_rr_cursor := bal_rr_cursor b + 1\<rparr>"
  let ?idx = "bal_rr_order b ! (unat (bal_rr_cursor b) mod length (bal_rr_order b))"
  obtain r b' where p: "probe_at ?idx (clk k) ?b = (r, b')" by (rule prod.exhaust)
  have b': "length (bal_upstreams b') = length (bal_upstreams b)" "bal_upstreams b' ! i = bal_upstreams b ! i"
    "r = Ret True \<Longrightarrow> ?idx \<noteq> i"
    using probe_untouched(1,2) [of i ?b "clk k" ?idx] probe_untouched(3) [of i ?b "clk k"] Suc.prems p by auto
  show ?case
    using Suc.IH [of ?b] Suc.IH [of b'] Suc.prems b' p
    by (auto simp: untouched_def Let_def split: res.splits)
qed (simp add: untouched_def)

lemma find_loop_untouched:
  assumes "i < length (bal_upstreams b)" and "\<And>k. \<not> admits (bal_upstreams b ! i) (clk k)"
  shows "untouched i b (find_loop k j ex clk b)"
  using assms
proof (induction k arbitrary: b j)
  case (Suc k)
  obtain r b' where p: "probe_at j (clk j) b = (r, b')" by (rule prod.exhaust)
  have b': "length (bal_upstreams b') = length (bal_upstreams b)" "bal_upstreams b' ! i = bal_upstreams b ! i"
    "r = Ret True \<Longrightarrow> j \<noteq> i"
    using probe_untouched(1,2) [of i b "clk j" j] probe_untouched(3) [of i b "clk j"] Suc.prems p by auto
  show ?case
    using Suc.IH [of b "Suc j"] Suc.IH [of b' "Suc j"] Suc.prems b' p
    by (auto simp: untouched_def split: res.splits)
qed (simp add: untouched_def)

lemma least_loop_untouched:
  assumes "i < length (bal_upstreams b)" and "\<And>k. \<not> admits (bal_upstreams b ! i) (clk k)"
    and "map_option snd best \<noteq> Some i"
  shows "untouched i b (least_loop k j ex clk best b)"
  using assms
proof (induction k arbitrary: b j best)
  case (Suc k)
  obtain r b' where p: "probe_at j (clk j) b = (r, b')" by (rule prod.exhaust)
  have b': "length (bal_upstreams b') = length (bal_upstreams b)" "bal_upstreams b' ! i = bal_upstreams b ! i"
    "r = Ret True \<Longrightarrow> j \<noteq> i"
    using probe_untouched(1,2) [of i b "clk j" j] probe_untouched(3) [of i b "clk j"] Suc.prems p by auto
  have upd: "r = Ret True \<Longrightarrow> map_option snd (least_update best x j) \<noteq> Some i" for x
    using b'(3) Suc.prems(3) by (auto simp: least_update_def split: option.splits)
  have rest: "untouched i b (least_loop k (Suc j) ex clk best' b')" if "map_option snd best' \<noteq> Some i" for best'
    using Suc.IH [of b' best' "Suc j"] Suc.prems(1,2) b' that by (simp add: untouched_def)
  show ?case
    using Suc.IH [of b best "Suc j"] Suc.prems rest upd b' p
    by (auto simp: untouched_def split: res.splits)
qed (simp add: untouched_def)

lemma pick_untouched:
  assumes "i < length (bal_upstreams b)" and "\<And>k. \<not> admits (bal_upstreams b ! i) (clk k)"
  shows "untouched i b (pick ex clk b)"
proof -
  let ?sel = "case bal_strategy b of
      RoundRobin \<Rightarrow> pick_round_robin ex clk b | LeastConnections \<Rightarrow> pick_least_conn ex clk b"
  have fe: "untouched i b (first_eligible ex clk' b')"
    if "length (bal_upstreams b') = length (bal_upstreams b)" "bal_upstreams b' ! i = bal_upstreams b ! i"
      "\<And>k. \<not> admits (bal_upstreams b ! i) (clk' k)" for clk' b'
    using find_loop_untouched [of i b' clk' "length (bal_upstreams b')" 0 ex] assms(1) that
    by (simp add: first_eligible_def untouched_def)
  obtain r b' where rr: "rr_loop (length (bal_rr_order b)) ex clk b = (r, b')" by (rule prod.exhaust)
  then have b': "untouched i b (r, b')"
    using rr_loop_untouched [where clk = clk, OF assms, where k = "length (bal_rr_order b)" and ex = ex] by simp
  then have "untouched i b (first_eligible ex (\<lambda>k. clk (length (bal_rr_order b) + k)) b')"
    using assms(2) by (intro fe) (simp_all add: untouched_def)
  with rr b' have "untouched i b (pick_round_robin ex clk b)"
    by (auto simp: pick_round_robin_def Let_def split: res.split option.split)
  moreover have "untouched i b (pick_least_conn ex clk b)"
    unfolding pick_least_conn_def by (rule least_loop_untouched [OF assms]) simp_all
  ultimately have "untouched i b ?sel" by (cases "bal_strategy b") simp_all
  then show ?thesis
    using assms(1) unfolding pick_def untouched_def take_guard_def
    by (auto simp: guard_new_nth split: prod.splits res.splits option.splits if_splits)
qed

text \<open>
  Other tasks leave a spared upstream out of service: they do not mark it healthy, and no late
  success closes its breaker.
\<close>

definition others_spare :: "nat \<Rightarrow> instant \<Rightarrow> ('hm, 's, 'b) env \<Rightarrow> bool" where
  "others_spare i t E \<longleftrightarrow> (\<forall>a sh. spared i t sh \<longrightarrow> spared i t (interfere E a sh))"

lemma spared_cong: "sh_balancer s = sh_balancer s' \<Longrightarrow> sh_calls s = sh_calls s' \<Longrightarrow> spared i t s = spared i t s'"
  by (simp add: spared_def)

lemma spared_fields [simp]:
  "spared i t (metric g sh) = spared i t sh" "spared i t (record_request E r m s sh) = spared i t sh"
  "spared i t (snd (store_in_cache E k s p b sh)) = spared i t sh"
  "spared i t (sh\<lparr>sh_limiter := l\<rparr>) = spared i t sh" "spared i t (sh\<lparr>sh_cache := ca\<rparr>) = spared i t sh"
  by (rule spared_cong; simp)+

lemma spared_bindr: "spared i t (snd m) \<Longrightarrow> (\<And>a s. spared i t s \<Longrightarrow> spared i t (snd (f a s))) \<Longrightarrow>
    spared i t (snd (bindr m f))"
  using keeps_bindr [where v = "spared i t" and x = True] by blast

lemma spared_unless: "spared i t (snd m) \<Longrightarrow> (\<And>s. spared i t s \<Longrightarrow> spared i t (snd (f s))) \<Longrightarrow>
    spared i t (snd (unless_answered m f))"
  using keeps_unless_answered [where v = "spared i t" and x = True] by blast

lemma spared_breaker:
  "j \<noteq> i \<Longrightarrow> spared i t sh \<Longrightarrow> spared i t (snd (on_balancer (on_breaker j m) sh))"
  by (auto simp: spared_def on_breaker_def case_prod_beta upd_upstream_nth)

lemma spared_drop_guard: "j \<noteq> i \<Longrightarrow> spared i t sh \<Longrightarrow> spared i t (drop_guard j sh)"
  by (auto simp: spared_def guard_drop_nth)

lemma spared_note_failure: "j \<noteq> i \<Longrightarrow> spared i t sh \<Longrightarrow> spared i t (snd (note_failure E c n j sh))"
  unfolding note_failure_def by (rule spared_bindr) (simp_all add: spared_breaker)

lemma spared_finish:
  "others_spare i t E \<Longrightarrow> spared i t sh \<Longrightarrow> spared i t (snd (finish_response E c resp sh))"
  by (auto simp: finish_response_def Let_def others_spare_def intro!: spared_bindr split: option.splits)

lemma spared_call:
  assumes "others_spare i t E" and "j \<noteq> i" and "spared i t sh"
  shows "spared i t (snd (call_upstream E c f n j sh))"
proof -
  have "spared i t (sh\<lparr>sh_calls := sh_calls sh @ [(j, q)]\<rparr>)" for q
    using assms(2,3) by (auto simp: spared_def)
  with assms(1,2) show ?thesis
    unfolding call_upstream_def Let_def by (auto simp: others_spare_def intro!: spared_bindr spared_breaker)
qed

lemma spared_attempt:
  assumes "others_spare i t E" and "j \<noteq> i" and "spared i t sh"
  shows "spared i t (snd (attempt_once E c f n j sh))"
proof -
  have ret: "spared i t (snd (return_response E c resp s))" if "spared i t s" for resp s
    unfolding return_response_def by (rule spared_bindr) (simp_all add: spared_finish assms(1) that)
  show ?thesis
    unfolding attempt_once_def Let_def using assms(2)
    by (intro spared_bindr [OF spared_call [OF assms]])
      (auto simp: ret intro!: spared_bindr spared_note_failure spared_breaker split: send_result.split)
qed

lemma spared_attempts:
  assumes others: "others_spare i t E" and early: "\<And>n k. e_pick_now E n k < t" and "spared i t sh"
  shows "spared i t (snd (attempts E c f k ex sh))"
  using assms(3)
proof (induction k arbitrary: ex sh)
  case (Suc k)
  let ?n = "fw_max_attempts f - Suc k"
  obtain p b where p: "pick ex (e_pick_now E ?n) (sh_balancer sh) = (p, b)" by (rule prod.exhaust)
  let ?sh = "sh\<lparr>sh_balancer := b\<rparr>"
  have ob: "on_balancer (pick ex (e_pick_now E ?n)) sh = (p, ?sh)" by (simp add: on_balancer_def p)
  have "untouched i (sh_balancer sh) (p, b)"
    using pick_untouched [of i "sh_balancer sh" "e_pick_now E ?n" ex] Suc.prems early p by (simp add: spared_def)
  then have sh: "spared i t ?sh" and ne: "p \<noteq> Ret (Some i)" using Suc.prems by (auto simp: spared_def untouched_def)
  show ?case
  proof (cases "\<exists>j. p = Ret (Some j)")
    case False
    with ob sh show ?thesis by (cases p) (auto split: option.splits)
  next
    case True
    then obtain j where j: "p = Ret (Some j)" "j \<noteq> i" using ne by auto
    obtain r s where a: "attempt_once E c f ?n j ?sh = (r, s)" by (rule prod.exhaust)
    have "spared i t s" using spared_attempt [OF others j(2) sh, of c f ?n] a by simp
    then have "spared i t (drop_guard j s)" using j(2) by (rule spared_drop_guard [rotated])
    with Suc.IH [of "drop_guard j s" "ex @ [j]"] ob j(1) a show ?thesis
      by (auto simp: Let_def split: res.splits outcome.splits)
  qed
qed simp

text \<open>C14. An upstream that is out of service gets no traffic: while it is marked unhealthy, or its
  breaker is open and cooling down at every clock reading of the picks, no request calls it, at
  the first attempt or at a retry, unless another task brings it back meanwhile.\<close>

theorem out_of_service_not_called:
  assumes "sh_calls sh = []" and "i < length (bal_upstreams (sh_balancer sh))"
    and "\<not> up_healthy (bal_upstreams (sh_balancer sh) ! i)
         \<or> st (up_breaker (bal_upstreams (sh_balancer sh) ! i)) = Open
           \<and> until (up_breaker (bal_upstreams (sh_balancer sh) ! i)) = Some t"
    and "\<forall>n k. e_pick_now E n k < t" and "others_spare i t E"
  shows "i \<notin> fst ` set (sh_calls (snd (serve_route E c rq sh)))"
proof -
  have sh: "spared i t sh" using assms(1-3) by (auto simp: spared_def admits_def blocked_def)
  have fwd: "spared i t (snd (forward_stage E c rq s))" if "spared i t s" for s
    using assms(4,5) that spared_attempts [OF assms(5)]
    by (auto simp: forward_stage_def Let_def others_spare_def split: option.split)
  have "spared i t (snd (serve_route E c rq sh))"
    unfolding serve_route_def auth_stage_def rate_stage_def cache_stage_def Let_def using assms(5) sh fwd
    by (auto simp: others_spare_def case_prod_beta intro!: spared_unless spared_bindr split: sum.splits option.splits)
  then show ?thesis by (simp add: spared_def)
qed

theorem out_of_service_not_called_witness:
  "let sh = sample_shared\<lparr>sh_balancer := upd_upstream 0 (set_healthy False) bal0\<rparr> in
   0 \<notin> fst ` set (sh_calls (snd (serve_route sample_env (sample_ctx ''POST'') (sample_request ''POST'') sh)))"
proof -
  let ?sh = "sample_shared\<lparr>sh_balancer := upd_upstream 0 (set_healthy False) bal0\<rparr>"
  have "0 < length (bal_upstreams (sh_balancer ?sh))" "sh_calls ?sh = []"
    by (simp_all add: bal0_def sample_target_def route_with_defaults_def sample_shared_def)
  moreover from this have "\<not> up_healthy (bal_upstreams (sh_balancer ?sh) ! 0)"
    by (simp add: upd_upstream_nth set_healthy_def)
  moreover have "others_spare 0 1 sample_env" by (simp add: others_spare_def interfere_def)
  ultimately show ?thesis
    using out_of_service_not_called [of ?sh 0 1 sample_env "sample_ctx ''POST''" "sample_request ''POST''"] by simp
qed

end
