(* ===== verification/Clearance.thy ===== *)
theory Clearance
  imports Concurrency Enforcement
begin

text \<open>
  What a request's task does to the state all routes share, the limiter and the gauge of open
  connections, from one \<^verbatim>\<open>.await\<close> to the next: it consults the limiter once, when it goes on
  at \<^verbatim>\<open>limiter.check\<close>, leaves the limiter and the gauge alone otherwise, and calls an upstream
  only if the limiter has let it through.
\<close>

section \<open>The check of a request\<close>

definition check_of :: "('hm, 's, 'b) env \<Rightarrow> 'hm req_ctx \<Rightarrow> rate_request option" where
  "check_of E c = map_option (\<lambda>rl. (rate_key (e_http E) (rl_scope rl) (cx_route c) (cx_client_ip c) (cx_headers c),
     rl_limit rl, from_secs (rl_window_secs rl), e_rate_now E)) (rc_rate_limit (cx_config c))"

fun check_with :: "'s redis_api \<Rightarrow> rate_request \<Rightarrow> 's limiter \<Rightarrow> rate_decision res \<times> 's limiter" where
  "check_with R (key, lim, w, now) l = limiter_check R l key lim w now"

definition consulted :: "('hm, 's, 'b) env \<Rightarrow> 'hm req_ctx \<Rightarrow> 's limiter \<Rightarrow> bool \<times> 's limiter" where
  "consulted E c l = (case check_of E c of
     None \<Rightarrow> (True, l) | Some r \<Rightarrow> (granted (fst (check_with (e_redis E) r l)), snd (check_with (e_redis E) r l)))"

lemma check_with_eq: "check_with R r l = limiter_check R l (key_of r) (fst (snd r)) (fst (snd (snd r))) (snd (snd (snd r)))"
  by (cases r) simp

lemma consulted_memory:
  "check_of E c = Some r \<Longrightarrow> consulted E c (InMemory l) = (granted (fst (mem_check l r)), InMemory (snd (mem_check l r)))"
  by (cases r) (simp add: consulted_def case_prod_beta)

section \<open>The rule\<close>

text \<open>
  A standing is what is shared by all routes, and whether the task is past the limiter; without
  that it has made no call. The ghost value holds the standing at the last poll (which a drop
  leaves) and the one the task then reaches.
\<close>

type_synonym 's standing = "(int \<times> 's limiter) \<times> bool"

definition common :: "('hm, 's) shared \<Rightarrow> int \<times> 's limiter" where
  "common s = (opened s, sh_limiter s)"

definition stands :: "'s standing \<Rightarrow> ('hm, 's) shared \<Rightarrow> bool" where
  "stands y s \<longleftrightarrow> common s = fst y \<and> (\<not> snd y \<longrightarrow> sh_calls s = [])"

definition reached :: "('hm, 's, 'b) env \<Rightarrow> 'hm req_ctx \<Rightarrow> await_point \<Rightarrow> ('hm, 's) shared \<Rightarrow> 's standing" where
  "reached E c p s = (if p = AtLimiter then ((opened s, snd (consulted E c (sh_limiter s))), fst (consulted E c (sh_limiter s)))
     else (common s, True))"

definition limit_rule :: "('hm, 's, 'b) env \<Rightarrow> 'hm req_ctx \<Rightarrow> ('s standing \<times> 's standing, ('hm, 's) shared) rule" where
  "limit_rule E c = \<lparr>ru_waits = (\<lambda>l p s. stands (snd l) s \<and> snd (snd l) = (p \<noteq> AtLimiter) \<and> (p = AtLimiter \<longrightarrow> check_of E c \<noteq> None)),
     ru_resumes = (\<lambda>p s s' l. sh_calls s' = sh_calls s \<and> l = ((common s', p \<noteq> AtLimiter), reached E c p s')),
     ru_panics = (\<lambda>l s. stands (snd l) s), ru_drops = (\<lambda>l s. stands (fst l) s)\<rparr>"

lemma limit_rule_sel [simp]:
  "ru_waits (limit_rule E c) = (\<lambda>l p s. stands (snd l) s \<and> snd (snd l) = (p \<noteq> AtLimiter) \<and> (p = AtLimiter \<longrightarrow> check_of E c \<noteq> None))"
  "ru_resumes (limit_rule E c) = (\<lambda>p s s' l. sh_calls s' = sh_calls s \<and> l = ((common s', p \<noteq> AtLimiter), reached E c p s'))"
  "ru_panics (limit_rule E c) = (\<lambda>l s. stands (snd l) s)" "ru_drops (limit_rule E c) = (\<lambda>l s. stands (fst l) s)"
  by (simp_all add: limit_rule_def)

abbreviation limited :: "('hm, 's, 'b) env \<Rightarrow> 'hm req_ctx \<Rightarrow> ('s standing \<times> 's standing \<Rightarrow> 'a \<Rightarrow> ('hm, 's) shared \<Rightarrow> bool)
    \<Rightarrow> 's standing \<times> 's standing \<Rightarrow> (('hm, 's) shared, 'a) task \<times> ('hm, 's) shared \<Rightarrow> bool" where
  "limited E c \<equiv> sat (limit_rule E c)"

text \<open>Past the limiter.\<close>

abbreviation past :: "'s standing \<times> 's standing \<Rightarrow> 'a \<Rightarrow> ('hm, 's) shared \<Rightarrow> bool" where
  "past l a s \<equiv> snd (snd l) \<and> common s = fst (snd l)"

lemma stands_simps [simp]:
  "stands (y, True) s \<longleftrightarrow> common s = y" "stands (y, False) s \<longleftrightarrow> common s = y \<and> sh_calls s = []"
  by (auto simp: stands_def)

lemma stands_past: "snd y \<Longrightarrow> stands y s \<longleftrightarrow> common s = fst y"
  by (simp add: stands_def)

lemma common_simps [simp]:
  "common (s\<lparr>sh_balancer := b\<rparr>) = common s" "common (s\<lparr>sh_cache := ca\<rparr>) = common s"
  "common (s\<lparr>sh_calls := cs\<rparr>) = common s" "common (record_request E r m code s) = common s"
  "common (snd (on_balancer f s)) = common s" "common (drop_guard i s) = common s"
  "common (snd (store_in_cache E k code p bs s)) = common s"
  by (simp_all add: common_def record_request_def metric_def)

lemma common_metric [simp]:
  "common (metric (\<lambda>m. m\<lparr>mt_upstream_latency := g1 m\<rparr>) s) = common s"
  "common (metric (\<lambda>m. m\<lparr>mt_upstream_errors := g2 m\<rparr>) s) = common s"
  "common (metric (\<lambda>m. m\<lparr>mt_circuit_state := g3 m\<rparr>) s) = common s"
  "common (metric (\<lambda>m. m\<lparr>mt_cache_hits := g2 m\<rparr>) s) = common s"
  "common (metric (\<lambda>m. m\<lparr>mt_cache_misses := g2 m\<rparr>) s) = common s"
  "common (metric (\<lambda>m. m\<lparr>mt_auth_rejections := g2 m\<rparr>) s) = common s"
  "common (metric (\<lambda>m. m\<lparr>mt_rate_limit_rejections := g2 m\<rparr>) s) = common s"
  by (simp_all add: common_def metric_def)

lemma common_note_failure [simp]: "common (snd (note_failure E c n i s)) = common s"
  unfolding note_failure_def by (rule keeps_bindr [where v = common]) simp_all

lemma common_stages [simp]:
  "common (snd (auth_stage E c s)) = common s" "common (snd (cache_stage E c s)) = common s"
  by (auto simp: auth_stage_def cache_stage_def Let_def case_prod_beta intro!: keeps_bindr [where v = common]
      split: sum.splits option.splits)

section \<open>The handler's task\<close>

lemma past_suspend:
  assumes "past l () s" and "p \<noteq> AtLimiter" and "\<And>l s. past l () s \<Longrightarrow> limited E c Q l (f () s)"
  shows "limited E c Q l (andthen (suspend p s) f)"
  using assms by (intro sat_suspend) (auto simp: stands_past reached_def)

lemma past_atomic:
  assumes "past l () s" and "common (snd m) = common s" and "\<And>a s. past l a s \<Longrightarrow> limited E c Q l (f a s)"
  shows "limited E c Q l (andthen (atomic m) f)"
  using assms by (intro sat_atomic) (auto simp: stands_past)

lemma past_finish: "past l () s \<Longrightarrow> limited E c past l (finish_task E c resp s)"
  unfolding finish_task_def Let_def
  by (auto intro!: past_suspend past_atomic split: option.split)

lemma past_call: "past l () s \<Longrightarrow> limited E c past l (call_task E c f n i s)"
  unfolding call_task_def Let_def by (rule past_suspend) (auto intro!: past_atomic)

lemma past_attempt: "past l () s \<Longrightarrow> limited E c past l (attempt_task E c f n i s)"
proof -
  have ret: "limited E c past l (return_task E c resp s)" if "past l () s" for l resp s
    unfolding return_task_def by (rule sat_andthen [OF past_finish [OF that]]) auto
  show "past l () s \<Longrightarrow> limited E c past l (attempt_task E c f n i s)"
    unfolding attempt_task_def Let_def
    by (rule sat_andthen [OF past_call])
      (auto split: send_result.split intro!: past_atomic ret)
qed

lemma past_attempts: "past l () s \<Longrightarrow> limited E c past l (attempts_task E c f k ex s)"
proof (induction k arbitrary: l ex s)
  case (Suc k)
  let ?n = "fw_max_attempts f - Suc k"
  have "limited E c past l (andthen (holding (drop_guard i) (fst (attempt_task E c f ?n i s)) (snd (attempt_task E c f ?n i s)))
      (\<lambda>out sh. case out of Answer r \<Rightarrow> (Finished (Ret r), sh) | Retry \<Rightarrow> attempts_task E c f k (ex @ [i]) sh))"
    if "past l () s" for i s
    by (rule sat_andthen [OF sat_holding_same, where Q1 = past])
      (use Suc.IH past_attempt [OF that, of E c f ?n i] in \<open>auto simp: stands_def split: outcome.split\<close>)
  with Suc.prems show ?case
    by (auto simp: Let_def case_prod_beta split: option.split intro!: past_atomic)
qed simp

lemma past_forward: "past l () s \<Longrightarrow> limited E c past l (forward_task E c rq s)"
  unfolding forward_task_def
  by (rule past_suspend) (auto simp: Let_def split: option.split intro!: past_attempts)

lemma limited_rate:
  assumes "snd l = (common s, check_of E c = None)" and "sh_calls s = []"
  shows "limited E c (\<lambda>l r s. stands (snd l) s \<and> (r = None \<longrightarrow> snd (snd l))) l (rate_task E c s)"
proof (cases "rc_rate_limit (cx_config c)")
  case None
  with assms show ?thesis by (simp add: rate_task_def check_of_def)
next
  case (Some rl)
  let ?key = "rate_key (e_http E) (rl_scope rl) (cx_route c) (cx_client_ip c) (cx_headers c)"
  have c: "check_of E c = Some (?key, rl_limit rl, from_secs (rl_window_secs rl), e_rate_now E)"
    using Some by (simp add: check_of_def)
  have r: "reached E c AtLimiter t = ((opened t, snd (limiter_check (e_redis E) (sh_limiter t) ?key (rl_limit rl)
        (from_secs (rl_window_secs rl)) (e_rate_now E))),
      granted (fst (limiter_check (e_redis E) (sh_limiter t) ?key (rl_limit rl)
        (from_secs (rl_window_secs rl)) (e_rate_now E))))" for t
    by (simp add: reached_def consulted_def c)
  show ?thesis
    unfolding rate_task_def Let_def using Some assms c
    by (auto simp: case_prod_beta r stands_def common_def record_request_def metric_def intro!: sat_suspend sat_atomic)
qed

lemma limited_serve:
  assumes "snd l = (common s, check_of E c = None)" and "sh_calls s = []"
  shows "limited E c (\<lambda>l a s. stands (snd l) s) l (serve_task E c rq s)"
  unfolding serve_task_def using assms
  by (auto simp: stands_def intro!: sat_unless_atomic sat_unless [OF limited_rate] sat_mono [OF past_forward])

section \<open>One poll of a request\<close>

definition left_by :: "('hm, 's, 'b) env \<Rightarrow> 'hm req_ctx \<Rightarrow> await_point \<times> bool \<times> ('hm, 's) shared \<Rightarrow> 's standing" where
  "left_by E c x = (case x of (p, d, s) \<Rightarrow> if d then (common s, p \<noteq> AtLimiter) else reached E c p s)"

text \<open>The task keeps to the rule from the standing \<open>y\<close> on.\<close>

definition keeps_limit ::
  "('hm, 's, 'b) env \<Rightarrow> 'hm req_ctx \<Rightarrow> 's standing \<Rightarrow> (('hm, 's) shared, 'a) task \<times> ('hm, 's) shared \<Rightarrow> bool" where
  "keeps_limit E c y m \<longleftrightarrow> (\<exists>l. snd l = y \<and> limited E c (\<lambda>l a s. stands (snd l) s) l m)"

lemma keeps_limitI: "limited E c (\<lambda>l a s. stands (snd l) s) (x, y) m \<Longrightarrow> keeps_limit E c y m"
  unfolding keeps_limit_def by (metis snd_conv)

lemma keeps_limit_stands: "keeps_limit E c y m \<Longrightarrow> stands y (snd m)"
  unfolding keeps_limit_def by (auto elim: sat.cases)

lemma keeps_limit_waits:
  assumes "keeps_limit E c y (Suspended p cl k, s)"
  shows "snd y \<longleftrightarrow> p \<noteq> AtLimiter" and "p = AtLimiter \<Longrightarrow> check_of E c \<noteq> None"
    and "sh_calls t = sh_calls s \<Longrightarrow> stands (left_by E c (p, True, t)) (cl t)"
    and "sh_calls t = sh_calls s \<Longrightarrow> keeps_limit E c (left_by E c (p, False, t)) (k t)"
proof -
  let ?Q = "\<lambda>l a s. stands (snd l) s" and ?l = "((common t, p \<noteq> AtLimiter), reached E c p t)"
  obtain l where l: "limited E c ?Q l (Suspended p cl k, s)" "snd l = y" using assms unfolding keeps_limit_def by blast
  note w = sat_SuspendedD [OF l(1)]
  show "snd y \<longleftrightarrow> p \<noteq> AtLimiter" "p = AtLimiter \<Longrightarrow> check_of E c \<noteq> None" using w(1) l(2) by auto
  assume t: "sh_calls t = sh_calls s"
  show "stands (left_by E c (p, True, t)) (cl t)" using w(2) [of t ?l] t by (simp add: left_by_def)
  show "keeps_limit E c (left_by E c (p, False, t)) (k t)"
    using w(3) [of t ?l] t by (auto simp: left_by_def intro: keeps_limitI)
qed

lemma left_by_calls [simp]: "left_by E c (p, d, S\<lparr>sh_calls := cs\<rparr>) = left_by E c (p, d, S)"
  by (simp add: left_by_def reached_def)

lemma keeps_limit_polled:
  assumes "keeps_limit E c y m" and "polled m (p, d, S) m'"
  shows "stands (left_by E c (p, d, S)) (snd m')" and "\<not> d \<Longrightarrow> keeps_limit E c (left_by E c (p, d, S)) m'"
    and "p = AtLimiter \<Longrightarrow> check_of E c \<noteq> None" and "snd y \<longleftrightarrow> p \<noteq> AtLimiter"
proof -
  obtain cl k s where m: "m = (Suspended p cl k, s)" using assms(2) by (auto elim: polled.cases)
  note w = keeps_limit_waits [OF assms(1) [unfolded m]]
  note s = w(3,4) [of "S\<lparr>sh_calls := sh_calls s\<rparr>"]
  show "p = AtLimiter \<Longrightarrow> check_of E c \<noteq> None" "snd y \<longleftrightarrow> p \<noteq> AtLimiter" using w(1,2) by auto
  have "stands (left_by E c (p, d, S)) (snd m') \<and> (d \<or> keeps_limit E c (left_by E c (p, d, S)) m')"
    using assms(2) s keeps_limit_stands [of E c "left_by E c (p, False, S)" "k (S\<lparr>sh_calls := sh_calls s\<rparr>)"]
    by (auto simp: m elim!: polledE)
  then show "stands (left_by E c (p, d, S)) (snd m')" and "\<not> d \<Longrightarrow> keeps_limit E c (left_by E c (p, d, S)) m'"
    by auto
qed

text \<open>The limiter let the request through, or was not asked.\<close>

definition cleared :: "('hm, 's, 'b) entry \<Rightarrow> bool" where
  "cleared e \<longleftrightarrow> check_of (en_env e) (en_ctx e) = None
     \<or> (\<exists>S. (AtLimiter, False, S) \<in> set (en_trace e) \<and> fst (consulted (en_env e) (en_ctx e) (sh_limiter S)))"

definition limit_inv :: "('hm, 's, 'b) entry \<Rightarrow> bool" where
  "limit_inv e \<longleftrightarrow> (sh_calls (en_left e) \<noteq> [] \<longrightarrow> cleared e) \<and> ((\<exists>r. en_task e = Finished r)
     \<or> (\<exists>y. keeps_limit (en_env e) (en_ctx e) y (standing e) \<and> (snd y \<longrightarrow> cleared e)))"

lemma limit_inv_started:
  assumes "sh_calls s = []"
  shows "limit_inv (started E c rq s)" and "common (en_left (started E c rq s)) = common s"
proof -
  let ?y = "(common s, check_of E c = None)"
  have l: "keeps_limit E c ?y (serve_task E c rq s)"
    using limited_serve [of "(?y, ?y)" s E c rq] assms by (auto intro: keeps_limitI)
  note s = keeps_limit_stands [OF l]
  then show "common (en_left (started E c rq s)) = common s" by (simp add: stands_def started_def)
  have "sh_calls (snd (serve_task E c rq s)) \<noteq> [] \<longrightarrow> check_of E c = None" using s unfolding stands_def snd_conv by blast
  with l show "limit_inv (started E c rq s)"
    unfolding limit_inv_def cleared_def by (auto simp: started_def simp del: not_None_eq split_paired_Ex)
qed

lemma limit_inv_advanced:
  assumes "limit_inv e" and "polled (standing e) (p, d, S) m"
  shows "limit_inv (advanced (p, d, S) m e)"
    and "common (snd m) = (if p = AtLimiter \<and> \<not> d then (opened S, snd (consulted (en_env e) (en_ctx e) (sh_limiter S)))
      else common S)"
    and "p = AtLimiter \<Longrightarrow> check_of (en_env e) (en_ctx e) \<noteq> None"
proof -
  let ?E = "en_env e" and ?c = "en_ctx e" and ?e = "advanced (p, d, S) m e"
  from assms(2) have "\<nexists>r. en_task e = Finished r" by auto
  with assms(1) obtain y where y: "keeps_limit ?E ?c y (standing e)" "snd y \<longrightarrow> cleared e"
    unfolding limit_inv_def by blast
  note m = keeps_limit_polled [OF y(1) assms(2)]
  show "common (snd m) = (if p = AtLimiter \<and> \<not> d then (opened S, snd (consulted ?E ?c (sh_limiter S))) else common S)"
    using m(1) by (auto simp: stands_def left_by_def reached_def split: if_splits)
  show "p = AtLimiter \<Longrightarrow> check_of ?E ?c \<noteq> None" by (rule m(3))
  have e: "standing ?e = m" "en_env ?e = ?E" "en_ctx ?e = ?c" "en_left ?e = snd m" by (simp_all add: advanced_def)
  have now: "cleared ?e" if "snd (left_by ?E ?c (p, d, S))"
  proof (cases "p = AtLimiter")
    case True
    with that show ?thesis by (cases d) (auto simp: left_by_def reached_def cleared_def advanced_def)
  qed (use m(4) y(2) in \<open>auto simp: cleared_def advanced_def\<close>)
  have fin: "d \<Longrightarrow> \<exists>r. en_task ?e = Finished r" using assms(2) by (auto simp: advanced_def elim: polled.cases)
  show "limit_inv ?e"
    unfolding limit_inv_def using m(1,2) now fin e by (metis stands_def)
qed

end
