(* ===== verification/Gateway_System.thy ===== *)
theory Gateway_System
  imports Clearance Health
begin

text \<open>
  The whole gateway under load: all routes of one \<^verbatim>\<open>GatewayState\<close>, with any number of requests
  in progress on each of them, and the health checks. A step is the arrival of a request (the
  handler runs to its first \<^verbatim>\<open>.await\<close>), a poll of a request that waits, the end of a request
  whose client has gone, or a probe. What one route sees of a run of the gateway is a run of the
  system of \<^verbatim>\<open>Concurrency\<close>, in which the other routes only use the metrics and the limiter.
\<close>

section \<open>The system\<close>

text \<open>The gauge of open connections, around the handler.\<close>

definition conn_open :: "'s gateway_state \<Rightarrow> 's gateway_state" where
  "conn_open g = g\<lparr>gs_metrics := (gs_metrics g)\<lparr>mt_active_connections := mt_active_connections (gs_metrics g) + 1\<rparr>\<rparr>"

definition conn_close :: "'s gateway_state \<Rightarrow> 's gateway_state" where
  "conn_close g = g\<lparr>gs_metrics := (gs_metrics g)\<lparr>mt_active_connections := mt_active_connections (gs_metrics g) - 1\<rparr>\<rparr>"

text \<open>The handler closes its connection when \<^verbatim>\<open>route_and_proxy\<close> has returned.\<close>

definition closed_if_answered :: "(('hm, 's) shared, 'hm response) task \<Rightarrow> 's gateway_state \<Rightarrow> 's gateway_state" where
  "closed_if_answered t g = (case t of Finished (Ret r) \<Rightarrow> conn_close g | _ \<Rightarrow> g)"

text \<open>The handler up to its first \<^verbatim>\<open>.await\<close>; a request that no route takes is answered at once.\<close>

definition handle_start ::
  "('hm, 's, 'b) env \<Rightarrow> ('hm, 'b) request \<Rightarrow> 's gateway_state
   \<Rightarrow> (string \<times> ('hm, 's, 'b) entry) option \<times> 's gateway_state" where
  "handle_start E rq g =
     (let g = conn_open g;
          host = (case header_str (e_http E) (rq_headers rq) ''host'' of Some s \<Rightarrow> s | None \<Rightarrow> [])
      in case match_route (gs_config g) (Some host) (rq_path rq) of
           None \<Rightarrow> (None, conn_close (g\<lparr>gs_metrics := (gs_metrics g)\<lparr>mt_requests :=
                 inc (mt_requests (gs_metrics g)) (''none'', rq_method rq, ''404'')\<rparr>\<rparr>))
         | Some route_cfg \<Rightarrow>
             (let name = rc_name route_cfg in
              case state_route g name of
                None \<Rightarrow> (None, conn_close g)
              | Some rt \<Rightarrow>
                  (let e = started E (request_context E (gs_config g) rt name rq) rq (shared_of g rt)
                   in (Some (name, e), closed_if_answered (en_task e) (write_back g name rt (en_left e))))))"

type_synonym ('hm, 's, 'b) gateway_system = "'s gateway_state \<times> (string \<times> ('hm, 's, 'b) entry) list"

inductive gateway_step ::
  "(('hm, 's, 'b) env \<Rightarrow> ('hm, 'b) request \<Rightarrow> bool) \<Rightarrow> ('hm, 's, 'b) gateway_system \<Rightarrow> ('hm, 's, 'b) gateway_system \<Rightarrow> bool"
  for J where
  unrouted: "J E rq \<Longrightarrow> handle_start E rq g = (None, g') \<Longrightarrow> gateway_step J (g, es) (g', es)"
| arrive: "J E rq \<Longrightarrow> handle_start E rq g = (Some x, g') \<Longrightarrow> gateway_step J (g, es) (g', es @ [x])"
| poll: "i < length es \<Longrightarrow> es ! i = (n, e) \<Longrightarrow> gs_routes g n = Some rt \<Longrightarrow> polled (standing e) (p, d, shared_of g rt) m \<Longrightarrow>
    gateway_step J (g, es) (closed_if_answered (fst m) (write_back g n rt (snd m)),
      es[i := (n, advanced (p, d, shared_of g rt) m e)])"
| probed: "gateway_step J (g, es) (g\<lparr>gs_routes := health_tick t pr (gs_routes g)\<rparr>, es)"

abbreviation gateway_runs ::
  "(('hm, 's, 'b) env \<Rightarrow> ('hm, 'b) request \<Rightarrow> bool) \<Rightarrow> 's gateway_state \<Rightarrow> ('hm, 's, 'b) gateway_system \<Rightarrow> bool" where
  "gateway_runs J g0 y \<equiv> (gateway_step J)\<^sup>*\<^sup>* (g0, []) y"

section \<open>The parts of a step\<close>

lemma conn_fields [simp]:
  "gs_config (conn_open g) = gs_config g" "gs_config (conn_close g) = gs_config g"
  "gs_routes (conn_open g) = gs_routes g" "gs_routes (conn_close g) = gs_routes g"
  "gs_limiter (conn_open g) = gs_limiter g" "gs_limiter (conn_close g) = gs_limiter g"
  by (simp_all add: conn_open_def conn_close_def)

lemma closed_if_answered_fields [simp]:
  "gs_config (closed_if_answered t g) = gs_config g" "gs_routes (closed_if_answered t g) = gs_routes g"
  "gs_limiter (closed_if_answered t g) = gs_limiter g"
  by (auto simp: closed_if_answered_def split: task.split res.split)

lemma write_back_fields [simp]:
  "gs_config (write_back g n rt s) = gs_config g" "gs_limiter (write_back g n rt s) = sh_limiter s"
  "gs_metrics (write_back g n rt s) = sh_metrics s"
  "gs_routes (write_back g n rt s) = (gs_routes g)(n \<mapsto> rt\<lparr>rt_balancer := sh_balancer s, rt_cache := sh_cache s\<rparr>)"
  by (simp_all add: write_back_def)

lemma shared_of_sel [simp]:
  "sh_metrics (shared_of g rt) = gs_metrics g" "sh_limiter (shared_of g rt) = gs_limiter g"
  "sh_balancer (shared_of g rt) = rt_balancer rt" "sh_cache (shared_of g rt) = rt_cache rt"
  "sh_calls (shared_of g rt) = []"
  by (simp_all add: shared_of_def)

lemma shared_of_write_back [simp]:
  "shared_of (write_back g n rt s) (rt\<lparr>rt_balancer := sh_balancer s, rt_cache := sh_cache s\<rparr>) = fresh s"
  by (simp add: shared_of_def fresh_def)

lemma fresh_shared_of [simp]: "fresh (shared_of g rt) = shared_of g rt"
  by (simp add: fresh_def shared_of_def)

text \<open>An arrival, routed or not.\<close>

lemma handle_start_Some:
  assumes "handle_start E rq g = (Some (n, e), g')"
  obtains r rt where "match_route (gs_config g)
      (Some (case header_str (e_http E) (rq_headers rq) ''host'' of Some s \<Rightarrow> s | None \<Rightarrow> [])) (rq_path rq) = Some r"
    and "n = rc_name r" and "gs_routes g n = Some rt"
    and "e = started E (request_context E (gs_config g) rt n rq) rq (shared_of (conn_open g) rt)"
    and "g' = closed_if_answered (en_task e) (write_back (conn_open g) n rt (en_left e))"
  using assms by (auto simp: handle_start_def Let_def state_route_def split: option.splits)

lemma handle_start_None:
  assumes "handle_start E rq g = (None, g')"
  shows "gs_config g' = gs_config g" "gs_routes g' = gs_routes g" "gs_limiter g' = gs_limiter g"
    "mt_active_connections (gs_metrics g') = mt_active_connections (gs_metrics g)"
  using assms by (auto simp: handle_start_def Let_def conn_open_def conn_close_def split: option.splits)

section \<open>Invariants of all entries\<close>

definition tended :: "('hm, 's, 'b) gateway_system \<Rightarrow> bool" where
  "tended y \<longleftrightarrow> list_all (\<lambda>(n, e). entry_inv e \<and> limit_inv e) (snd y)"

interpretation tending: machine "gateway_step J" tended for J
proof
  fix y z :: "('a, 'b, 'c) gateway_system"
  assume "gateway_step J y z" "tended y"
  then show "tended z"
  proof (cases rule: gateway_step.cases)
    case (arrive E rq g x g' es)
    obtain n e where x: "x = (n, e)" by (cases x)
    obtain c rt where e: "e = started E c rq (shared_of (conn_open g) rt)"
      using arrive(4) unfolding x by (rule handle_start_Some) blast
    have "entry_inv e" using entry_inv_started [of E c rq "shared_of (conn_open g) rt"] by (simp add: e)
    moreover have "limit_inv e" unfolding e by (rule limit_inv_started(1)) simp
    ultimately show ?thesis using \<open>tended y\<close> arrive by (simp add: tended_def x)
  next
    case (poll i es n e g rt p d m)
    then have "entry_inv e \<and> limit_inv e" using \<open>tended y\<close> by (auto simp: tended_def list_all_length)
    then have "entry_inv (advanced (p, d, shared_of g rt) m e) \<and> limit_inv (advanced (p, d, shared_of g rt) m e)"
      using poll by (auto intro: entry_inv_advanced limit_inv_advanced)
    with poll \<open>tended y\<close> show ?thesis by (auto simp: tended_def list_all_length nth_list_update)
  qed (simp_all add: tended_def)
qed

lemma runs_tended: "gateway_runs J g0 (g, es) \<Longrightarrow> (n, e) \<in> set es \<Longrightarrow> entry_inv e \<and> limit_inv e"
  using tending.reach_inv [of J "(g0, [])" "(g, es)"] by (auto simp: tended_def list_all_iff)

section \<open>What a route sees\<close>

definition mine :: "string \<Rightarrow> (string \<times> ('hm, 's, 'b) entry) list \<Rightarrow> ('hm, 's, 'b) entry list" where
  "mine n es = map snd (filter (\<lambda>x. fst x = n) es)"

lemma mine_append: "mine n (es @ [(n', e)]) = mine n es @ (if n' = n then [e] else [])"
  by (simp add: mine_def)

lemma mine_other: "i < length es \<Longrightarrow> fst (es ! i) \<noteq> n \<Longrightarrow> fst x \<noteq> n \<Longrightarrow> mine n (es[i := x]) = mine n es"
proof (induction es arbitrary: i)
  case (Cons a es)
  then show ?case by (cases i) (auto simp: mine_def)
qed simp

lemma mine_update:
  "i < length es \<Longrightarrow> es ! i = (n, e) \<Longrightarrow>
   \<exists>j < length (mine n es). mine n es ! j = e \<and> (\<forall>e'. mine n (es[i := (n, e')]) = (mine n es)[j := e'])"
proof (induction es arbitrary: i)
  case (Cons a es)
  show ?case
  proof (cases i)
    case 0
    with Cons.prems show ?thesis by (intro exI [of _ 0]) (simp add: mine_def)
  next
    case (Suc k)
    with Cons.prems obtain j where j: "j < length (mine n es)" "mine n es ! j = e"
      "\<And>e'. mine n (es[k := (n, e')]) = (mine n es)[j := e']"
      using Cons.IH [of k] by auto
    show ?thesis
    proof (cases "fst a = n")
      case True
      with j Suc show ?thesis by (intro exI [of _ "Suc j"]) (simp add: mine_def)
    next
      case False
      with j Suc show ?thesis by (intro exI [of _ j]) (simp add: mine_def)
    qed
  qed
qed simp

lemma mine_in: "(n, e) \<in> set es \<Longrightarrow> e \<in> set (mine n es)"
  by (force simp: mine_def)

text \<open>What the other routes do: they use the metrics and the limiter, and keep its lock sound.\<close>

lemma seen_elsewhere:
  assumes "limiter_ok (gs_limiter g) \<Longrightarrow> limiter_ok (gs_limiter g')"
  shows "sys_step J (shared_of g rt, es) (shared_of g' rt, es)"
proof -
  have eq: "shared_of g' rt = (shared_of g rt)\<lparr>sh_metrics := gs_metrics g', sh_limiter := gs_limiter g'\<rparr>"
    by (simp add: shared_of_def)
  show ?thesis unfolding eq by (rule sys_step.elsewhere) (simp add: assms)
qed

lemma limiter_ok_check: "limiter_ok l \<Longrightarrow> limiter_ok (snd (limiter_check R l k lim w now))"
  using limiter_returns [of l R k lim w now] by auto

lemma limiter_ok_advanced:
  assumes "limit_inv e" and "polled (standing e) (p, d, S) m" and "limiter_ok (sh_limiter S)"
  shows "limiter_ok (sh_limiter (snd m))"
  using limit_inv_advanced(2) [OF assms(1,2)] assms(3)
  by (auto simp: common_def consulted_def check_with_eq limiter_ok_check split: if_splits option.splits)

lemma start_limiter: "sh_calls s = [] \<Longrightarrow> sh_limiter (en_left (started E c rq s)) = sh_limiter s"
  using limit_inv_started(2) [of s E c rq] by (simp add: common_def)

lemma route_view:
  assumes "gateway_step J (g, es) (g', es')" and "tended (g, es)" and "gs_routes g n = Some rt"
    and J: "\<And>E c rq. J E rq \<Longrightarrow> J' E c rq"
  shows "\<exists>rt'. gs_routes g' n = Some rt' \<and> rt_config rt' = rt_config rt
     \<and> (sys_step J')\<^sup>*\<^sup>* (shared_of g rt, mine n es) (shared_of g' rt', mine n es')"
  using assms(1)
proof (cases rule: gateway_step.cases)
  case (unrouted E rq)
  then have "gs_routes g' n = Some rt" "gs_limiter g' = gs_limiter g"
    using handle_start_None [OF unrouted(3)] assms(3) by simp_all
  with unrouted seen_elsewhere [of g g' J' rt "mine n es"] show ?thesis by auto
next
  case (arrive E rq x)
  obtain n' e where x: "x = (n', e)" by (cases x)
  obtain c rt1 where n': "gs_routes g n' = Some rt1"
    and e: "e = started E c rq (shared_of (conn_open g) rt1)"
    and g': "g' = closed_if_answered (en_task e) (write_back (conn_open g) n' rt1 (en_left e))"
    using arrive(3) unfolding x by (rule handle_start_Some) blast
  have lim: "gs_limiter g' = gs_limiter g" by (simp add: g' e start_limiter)
  show ?thesis
  proof (cases "n' = n")
    case False
    with assms(3) have "gs_routes g' n = Some rt" by (simp add: g')
    moreover have "sys_step J' (shared_of g rt, mine n es) (shared_of g' rt, mine n es)"
      by (rule seen_elsewhere) (simp add: lim)
    ultimately show ?thesis using False arrive(1) by (auto simp: x mine_append)
  next
    case True
    let ?h = "write_back (conn_open g) n rt (en_left e)"
    let ?rt = "rt\<lparr>rt_balancer := sh_balancer (en_left e), rt_cache := sh_cache (en_left e)\<rparr>"
    have rt: "rt1 = rt" using True n' assms(3) by simp
    have "sys_step J' (shared_of g rt, mine n es) (shared_of (conn_open g) rt, mine n es)"
      by (rule seen_elsewhere) simp
    moreover have "sys_step J' (shared_of (conn_open g) rt, mine n es) (shared_of ?h ?rt, mine n es @ [e])"
      using sys_step.arrive [of J' E c rq e "shared_of (conn_open g) rt" "mine n es"] J arrive(2) e by (simp add: rt)
    moreover have "sys_step J' (shared_of ?h ?rt, mine n es @ [e]) (shared_of g' ?rt, mine n es @ [e])"
      by (rule seen_elsewhere) (simp add: g' rt True)
    ultimately have "(sys_step J')\<^sup>*\<^sup>* (shared_of g rt, mine n es) (shared_of g' ?rt, mine n es @ [e])"
      by (meson rtranclp.rtrancl_into_rtrancl rtranclp.rtrancl_refl)
    with True arrive(1) show ?thesis by (intro exI [of _ ?rt]) (simp add: x mine_append g' rt)
  qed
next
  case (poll i n' e rt1 p d m)
  have e: "limit_inv e" using poll(3,4) assms(2) by (auto simp: tended_def list_all_length)
  have ok: "limiter_ok (gs_limiter g) \<Longrightarrow> limiter_ok (gs_limiter g')"
    using limiter_ok_advanced [OF e poll(6)] by (simp add: poll(1))
  show ?thesis
  proof (cases "n' = n")
    case False
    with assms(3) have "gs_routes g' n = Some rt" by (simp add: poll(1))
    moreover have "sys_step J' (shared_of g rt, mine n es) (shared_of g' rt, mine n es)" using ok by (rule seen_elsewhere)
    ultimately show ?thesis using False poll by (auto simp: mine_other)
  next
    case True
    let ?h = "write_back g n rt (snd m)"
    let ?rt = "rt\<lparr>rt_balancer := sh_balancer (snd m), rt_cache := sh_cache (snd m)\<rparr>"
    let ?e = "advanced (p, d, shared_of g rt) m e"
    have rt: "rt1 = rt" using True poll(5) assms(3) by simp
    obtain j where j: "j < length (mine n es)" "mine n es ! j = e" "mine n es' = (mine n es)[j := ?e]"
      using mine_update [OF poll(3)] poll(2,4) True rt by blast
    have "sys_step J' (shared_of g rt, mine n es) (shared_of ?h ?rt, mine n es')"
      using sys_step.poll [of j "mine n es" p d "shared_of g rt" m J'] poll(6) j by (simp add: rt)
    moreover have "sys_step J' (shared_of ?h ?rt, mine n es') (shared_of g' ?rt, mine n es')"
      by (rule seen_elsewhere) (simp add: poll(1))
    ultimately have "(sys_step J')\<^sup>*\<^sup>* (shared_of g rt, mine n es) (shared_of g' ?rt, mine n es')"
      by (meson rtranclp.rtrancl_into_rtrancl rtranclp.rtrancl_refl)
    with True show ?thesis by (intro exI [of _ ?rt]) (simp add: poll(1) rt)
  qed
next
  case (probed t pr)
  show ?thesis
  proof (cases "hk_route t = n")
    case True
    let ?b = "upd_upstream (hk_upstream t) (set_healthy (probe_healthy pr)) (rt_balancer rt)"
    have "sys_step J' (shared_of g rt, mine n es) (shared_of g' (rt\<lparr>rt_balancer := ?b\<rparr>), mine n es)"
      using sys_step.flag [of J' "shared_of g rt" "mine n es" "hk_upstream t" "probe_healthy pr"]
      by (simp add: shared_of_def probed(1))
    with True assms(3) probed show ?thesis by (auto simp: health_tick_def)
  next
    case False
    with assms(3) probed show ?thesis
      by (auto simp: health_tick_def shared_of_def split: option.split)
  qed
qed

text \<open>So a run of the gateway is, for each route, a run of the system of \<^verbatim>\<open>Concurrency\<close>.\<close>

lemma route_runs:
  assumes "gateway_runs J g0 (g, es)" and "gs_routes g0 n = Some rt0" and "\<And>E c rq. J E rq \<Longrightarrow> J' E c rq"
  shows "\<exists>rt. gs_routes g n = Some rt \<and> rt_config rt = rt_config rt0
     \<and> runs_to J' (shared_of g0 rt0) (shared_of g rt, mine n es)"
  using assms(1)
proof (induction "(g, es)" arbitrary: g es rule: rtranclp_induct)
  case base
  with assms(2) show ?case by (simp add: mine_def)
next
  case (step y)
  obtain h fs where y: "y = (h, fs)" by (cases y)
  obtain rt where rt: "gs_routes h n = Some rt" "rt_config rt = rt_config rt0"
    "runs_to J' (shared_of g0 rt0) (shared_of h rt, mine n fs)"
    using step(3) [OF y] by blast
  have "tended (h, fs)" using tending.reach_inv [OF step(1) [unfolded y]] by (simp add: tended_def)
  from route_view [where J' = J', OF step(2) [unfolded y] this rt(1) assms(3)] rt(2,3) show ?case by force
qed

section \<open>Where a request comes from\<close>

text \<open>The gateway a request met when it arrived, and the route that took it.\<close>

definition came_from :: "'s gateway_state \<Rightarrow> string \<Rightarrow> route_runtime \<Rightarrow> ('hm, 's, 'b) entry \<Rightarrow> bool" where
  "came_from g n rt e \<longleftrightarrow> gs_routes g n = Some rt
     \<and> (\<exists>r. match_route (gs_config g) (Some (case header_str (e_http (en_env e)) (rq_headers (en_request e)) ''host'' of
            Some s \<Rightarrow> s | None \<Rightarrow> [])) (rq_path (en_request e)) = Some r \<and> n = rc_name r)
     \<and> en_ctx e = request_context (en_env e) (gs_config g) rt n (en_request e) \<and> en_start e = shared_of (conn_open g) rt"

lemma came_from_advanced [simp]: "came_from g n rt (advanced x m e) = came_from g n rt e"
  by (simp add: came_from_def advanced_def)

lemma runs_came_from:
  assumes "gateway_runs J g0 (g, es)" and "(n, e) \<in> set es"
  shows "\<exists>g1 es1 rt. gateway_runs J g0 (g1, es1) \<and> came_from g1 n rt e"
  using assms
proof (induction "(g, es)" arbitrary: g es n e rule: rtranclp_induct)
  case (step y)
  obtain h fs where y: "y = (h, fs)" by (cases y)
  have old: ?case if "(n, e) \<in> set fs" using step(3) [OF y that] .
  from step(2) [unfolded y] show ?case
  proof (cases rule: gateway_step.cases)
    case (arrive E rq x)
    show ?thesis
    proof (cases "(n, e) = x")
      case True
      with arrive(3) have "handle_start E rq h = (Some (n, e), g)" by simp
      then have "\<exists>rt. came_from h n rt e"
        by (rule handle_start_Some) (auto simp: came_from_def started_def)
      with step(1) y show ?thesis by blast
    qed (use old step(4) arrive in auto)
  next
    case (poll i n' e' rt p d m)
    show ?thesis
    proof (cases "(n, e) \<in> set fs")
      case False
      then have e: "(n, e) = (n', advanced (p, d, shared_of h rt) m e')"
        using step(4) poll(2) set_update_subset_insert [of fs i] by auto
      have "(n', e') \<in> set fs" using poll(3,4) nth_mem by fastforce
      from step(3) [OF y this] e show ?thesis by simp
    qed (rule old)
  qed (use old step(4) in auto)
qed simp

lemma step_static:
  assumes "gateway_step J (g, es) (g', es')"
  shows "gs_config g' = gs_config g" and "dom (gs_routes g') = dom (gs_routes g)"
proof -
  from assms have "gs_config g' = gs_config g \<and> dom (gs_routes g') = dom (gs_routes g)"
  proof (cases rule: gateway_step.cases)
    case (arrive E rq x)
    then show ?thesis by (cases x) (auto elim!: handle_start_Some split: if_splits)
  next
    case (probed t pr)
    then show ?thesis by (auto simp: health_tick_def dom_def split: option.splits)
  qed (auto dest: handle_start_None split: if_splits)
  then show "gs_config g' = gs_config g" and "dom (gs_routes g') = dom (gs_routes g)" by auto
qed

lemma runs_static:
  assumes "gateway_runs J g0 (g, es)"
  shows "gs_config g = gs_config g0" and "dom (gs_routes g) = dom (gs_routes g0)"
proof -
  from assms have "gs_config g = gs_config g0 \<and> dom (gs_routes g) = dom (gs_routes g0)"
  proof (induction "(g, es)" arbitrary: g es rule: rtranclp_induct)
    case (step y)
    obtain h fs where y: "y = (h, fs)" by (cases y)
    with step(3) [OF y] step_static [OF step(2) [unfolded y]] show ?case by simp
  qed simp
  then show "gs_config g = gs_config g0" and "dom (gs_routes g) = dom (gs_routes g0)" by auto
qed

text \<open>The handler, in an environment that does what the trace of a request says.\<close>

lemma handle_came_from:
  assumes "came_from g n rt e" and "entry_inv e" and "en_task e = Finished r"
  shows "handle (replay (en_env e) (en_trace e)) g (en_request e)
     = (r, closed_if_answered (en_task e) (write_back (conn_open g) n rt (en_left e)))"
proof -
  let ?E = "replay (en_env e) (en_trace e)" and ?g = "conn_open g"
  obtain ra where m: "match_route (gs_config g) (Some (case header_str (e_http (en_env e)) (rq_headers (en_request e)) ''host'' of
      Some s \<Rightarrow> s | None \<Rightarrow> [])) (rq_path (en_request e)) = Some ra" "n = rc_name ra" "gs_routes g n = Some rt"
    "en_ctx e = request_context (en_env e) (gs_config g) rt n (en_request e)" "en_start e = shared_of ?g rt"
    using assms(1) by (auto simp: came_from_def)
  have E: "e_http ?E = e_http (en_env e)" "correlation_of ?E = correlation_of (en_env e)"
    "request_context ?E = request_context (en_env e)"
    by (simp_all add: replay_def fun_eq_iff correlation_of_def request_context_def Let_def cong: option.case_cong)
  have "polls (serve_task (en_env e) (en_ctx e) (en_request e) (en_start e)) (en_trace e) (Finished r, en_left e)"
    using assms(2,3) by (simp add: entry_inv_def)
  from serve_task_adequate [OF this]
  have "serve_route ?E (request_context (en_env e) (gs_config g) rt n (en_request e)) (en_request e) (shared_of ?g rt)
      = (r, en_left e)"
    using m(4,5) by simp
  then have "route_and_proxy ?E ?g (en_request e) = (r, write_back ?g n rt (en_left e))"
    using m(1-3) by (simp add: route_and_proxy_def Let_def E state_route_def)
  then show ?thesis
    by (simp add: handle_def Let_def conn_open_def [symmetric] assms(3) closed_if_answered_def)
      (cases r; simp add: conn_close_def)
qed

section \<open>Soundness of the limiter\<close>

lemma runs_limiter_ok:
  assumes "gateway_runs J g0 (g, es)" and "limiter_ok (gs_limiter g0)"
  shows "limiter_ok (gs_limiter g)"
  using assms(1)
proof (induction "(g, es)" arbitrary: g es rule: rtranclp_induct)
  case (step y)
  obtain h fs where y: "y = (h, fs)" by (cases y)
  have ok: "limiter_ok (gs_limiter h)" using step(3) [OF y] .
  have all: "tended (h, fs)" using tending.reach_inv [OF step(1) [unfolded y]] by (simp add: tended_def)
  from step(2) [unfolded y] show ?case
  proof (cases rule: gateway_step.cases)
    case (arrive E rq x)
    with ok show ?thesis by (cases x) (auto simp: start_limiter elim!: handle_start_Some)
  next
    case (poll i n e rt p d m)
    then have "limit_inv e" using all by (auto simp: tended_def list_all_length)
    with poll ok show ?thesis by (auto dest: limiter_ok_advanced)
  qed (use ok in \<open>auto dest: handle_start_None\<close>)
qed (use assms(2) in simp)

section \<open>The gauge\<close>

text \<open>A request that waits, and one that has ended without a response.\<close>

definition waits :: "('hm, 's, 'b) entry \<Rightarrow> bool" where
  "waits e \<longleftrightarrow> (case en_task e of Suspended p c k \<Rightarrow> True | Finished r \<Rightarrow> False)"

definition lost :: "('hm, 's, 'b) entry \<Rightarrow> bool" where
  "lost e \<longleftrightarrow> (case en_task e of Finished Panic \<Rightarrow> True | _ \<Rightarrow> False)"

definition unanswered :: "(string \<times> ('hm, 's, 'b) entry) list \<Rightarrow> nat" where
  "unanswered es = length (filter (\<lambda>x. waits (snd x)) es) + length (filter (\<lambda>x. lost (snd x)) es)"

lemma unanswered_append: "unanswered (es @ [x]) = unanswered es + of_bool (waits (snd x) \<or> lost (snd x))"
  by (auto simp: unanswered_def waits_def lost_def split: task.splits)

lemma unanswered_update:
  "i < length es \<Longrightarrow> unanswered (es[i := x]) + of_bool (waits (snd (es ! i)) \<or> lost (snd (es ! i)))
     = unanswered es + of_bool (waits (snd x) \<or> lost (snd x))"
proof -
  assume "i < length es"
  moreover have "\<not> (waits e \<and> lost e)" for e :: "('a, 'b, 'c) entry"
    by (auto simp: waits_def lost_def split: task.splits)
  ultimately show ?thesis
    using length_filter_update [of i es "\<lambda>x. waits (snd x)" x] length_filter_update [of i es "\<lambda>x. lost (snd x)" x]
    by (auto simp: unanswered_def)
qed

definition gauge_inv :: "int \<Rightarrow> ('hm, 's, 'b) gateway_system \<Rightarrow> bool" where
  "gauge_inv b y \<longleftrightarrow> tended y \<and> mt_active_connections (gs_metrics (fst y)) = b + int (unanswered (snd y))"

lemma gauge_closed_if_answered:
  "mt_active_connections (gs_metrics (closed_if_answered (en_task e) g))
     = mt_active_connections (gs_metrics g) - 1 + of_bool (waits e \<or> lost e)"
  by (auto simp: closed_if_answered_def conn_close_def waits_def lost_def split: task.split res.split)

interpretation gauge: machine "gateway_step J" "gauge_inv b" for J b
proof
  fix y z :: "('a, 'b, 'c) gateway_system"
  assume s: "gateway_step J y z" and i: "gauge_inv b y"
  have "tended z" using tending.step_inv [OF s] i by (simp add: gauge_inv_def)
  from s have "mt_active_connections (gs_metrics (fst z)) = b + int (unanswered (snd z))"
  proof (cases rule: gateway_step.cases)
    case (unrouted E rq g g' es)
    with i show ?thesis by (auto simp: gauge_inv_def handle_start_None)
  next
    case (arrive E rq g x g' es)
    obtain n e where x: "x = (n, e)" by (cases x)
    obtain c rt where e: "e = started E c rq (shared_of (conn_open g) rt)"
      and g': "g' = closed_if_answered (en_task e) (write_back (conn_open g) n rt (en_left e))"
      using arrive(4) unfolding x by (rule handle_start_Some) blast
    have "opened (en_left e) = mt_active_connections (gs_metrics g) + 1"
      using limit_inv_started(2) [of "shared_of (conn_open g) rt" E c rq] by (simp add: e common_def) (simp add: conn_open_def)
    with i arrive show ?thesis
      by (simp add: gauge_inv_def g' gauge_closed_if_answered unanswered_append x)
  next
    case (poll j es n e g rt p d m)
    let ?e = "advanced (p, d, shared_of g rt) m e"
    have t: "en_task ?e = fst m" by (simp add: advanced_def)
    have w: "waits e \<and> \<not> lost e" using poll(6) by (auto simp: waits_def lost_def elim: polled.cases)
    have "limit_inv e" using i poll(3,4) \<open>y = (g, es)\<close> by (auto simp: gauge_inv_def tended_def list_all_length)
    from limit_inv_advanced(2) [OF this poll(6)] have "opened (snd m) = mt_active_connections (gs_metrics g)"
      by (auto simp: common_def split: if_splits)
    with i poll w unanswered_update [of j es "(n, ?e)"] gauge_closed_if_answered [of ?e] show ?thesis
      by (auto simp: gauge_inv_def t)
  next
    case (probed g es t pr)
    with i show ?thesis by (simp add: gauge_inv_def)
  qed
  with \<open>tended z\<close> show "gauge_inv b z" by (simp add: gauge_inv_def)
qed

end
