(* ===== verification/Gateway_Load.thy ===== *)
theory Gateway_Load
  imports Gateway_System
begin

text \<open>
  What holds of the gateway under any load and any order of steps: every request runs the handler,
  the counts and the gauge tell the truth, nothing breaks, and every request comes to its end.
\<close>

section \<open>Lemmas\<close>

lemma runs_ok:
  fixes es :: "(string \<times> ('hm, 's, 'b) entry) list"
  assumes "gateway_runs (\<lambda>E rq. env_fits (calm E) g0) g0 (g, es)" and "gateway_ok g0"
    and "r \<in> set (gc_routes (gs_config g0))"
  shows "\<exists>rt. gs_routes g (rc_name r) = Some rt \<and> runtime_ok rt
     \<and> (\<forall>e \<in> set (mine (rc_name r) es). en_task e = Finished Panic \<longrightarrow> was_dropped e)"
proof -
  obtain rt0 where rt0: "gs_routes g0 (rc_name r) = Some rt0" "runtime_ok rt0"
    using assms(2,3) by (auto simp: gateway_ok_def)
  let ?J = "\<lambda>(E :: ('hm, 's, 'b) env) (c :: 'hm req_ctx) (rq :: ('hm, 'b) request). env_ok (calm E) (static_view (shared_of g0 rt0 :: ('hm, 's) shared))"
  have "gateway_static g0 (rc_name r) = Some (runtime_static rt0)" using rt0(1) by (simp add: gateway_static_def)
  then have J: "env_fits E g0 \<Longrightarrow> env_ok E (static_view (shared_of g0 rt0 :: ('hm, 's) shared))" for E :: "('hm, 's, 'b) env"
    unfolding env_fits_def shared_of_ok by blast
  obtain rt where rt: "gs_routes g (rc_name r) = Some rt"
    "runs_to ?J (shared_of g0 rt0) (shared_of g rt, mine (rc_name r) es)"
    using route_runs [OF assms(1) rt0(1), of ?J] J by blast
  have "shared_ok (shared_of g0 rt0 :: ('hm, 's) shared)" using assms(2) rt0(2) by (simp add: shared_of_ok gateway_ok_def)
  from concurrent_requests_do_not_panic [OF rt(2) this] rt(1) show ?thesis by (auto simp: shared_of_ok)
qed

lemma runs_no_panic:
  fixes e :: "('hm, 's, 'b) entry"
  assumes "gateway_runs (\<lambda>E rq. env_fits (calm E) g0) g0 (g, es)" and "gateway_ok g0"
    and "(n, e) \<in> set es" and "en_task e = Finished Panic"
  shows "was_dropped e"
proof -
  obtain g1 rt and es1 :: "(string \<times> ('hm, 's, 'b) entry) list"
    where g1: "gateway_runs (\<lambda>E rq. env_fits (calm E) g0) g0 (g1, es1)" "came_from g1 n rt e"
    using runs_came_from [OF assms(1,3)] by blast
  then obtain r where "r \<in> set (gc_routes (gs_config g0))" "n = rc_name r"
    using match_route_SomeD runs_static(1) [OF g1(1)] by (fastforce simp: came_from_def)
  with runs_ok [OF assms(1,2)] mine_in [OF assms(3)] assms(4) show ?thesis by blast
qed

lemma runs_gauge:
  fixes es :: "(string \<times> ('hm, 's, 'b) entry) list"
  assumes "gateway_runs J g0 (g, es)"
  shows "mt_active_connections (gs_metrics g) = mt_active_connections (gs_metrics g0) + int (unanswered es)"
proof -
  have "gauge_inv (mt_active_connections (gs_metrics g0)) (g0, [] :: (string \<times> ('hm, 's, 'b) entry) list)"
    by (simp add: gauge_inv_def tended_def unanswered_def)
  from gauge.reach_inv [OF assms this] show ?thesis by (simp add: gauge_inv_def)
qed

lemma runs_counts:
  fixes es :: "(string \<times> ('hm, 's, 'b) entry) list"
  assumes "gateway_runs J g0 (g, es)" and "gs_routes g0 n = Some rt0"
  shows "\<exists>rt. gs_routes g n = Some rt \<and> counts_inv (actives (rt_balancer rt0)) (shared_of g rt, mine n es)"
proof -
  obtain rt where rt: "gs_routes g n = Some rt" "runs_to (\<lambda>_ _ _. True) (shared_of g0 rt0) (shared_of g rt, mine n es)"
    using route_runs [OF assms, of "\<lambda>_ _ _. True"] by blast
  have "counts_inv (actives (rt_balancer rt0)) (shared_of g0 rt0, [] :: ('hm, 's, 'b) entry list)"
    by (simp add: counts_inv_def in_flight_def)
  from counts.reach_inv [OF rt(2) this] rt(1) show ?thesis by blast
qed

lemma runs_idle_counts:
  assumes "gateway_runs J g0 (g, es)" and "gs_routes g0 n = Some rt0" and "\<forall>x \<in> set es. \<not> waits (snd x)"
  shows "\<exists>rt. gs_routes g n = Some rt \<and> actives (rt_balancer rt) = actives (rt_balancer rt0)"
proof -
  have "\<not> waits e \<Longrightarrow> guard_of (standing e) = None" for e :: "('b, 'a, 'c) entry"
    by (cases "en_task e") (simp_all add: waits_def)
  then have "in_flight i (mine n es) = 0" for i
    using assms(3) by (force simp: in_flight_def mine_def filter_empty_conv)
  with runs_counts [OF assms(1,2)] show ?thesis
    by (auto simp: counts_inv_def list_eq_iff_nth_eq)
qed

text \<open>Steps of a gateway to which no more requests come, and polling one request until it has ended.\<close>

abbreviation quiet_step :: "('hm, 's, 'b) gateway_system \<Rightarrow> ('hm, 's, 'b) gateway_system \<Rightarrow> bool" where
  "quiet_step \<equiv> gateway_step (\<lambda>_ _. False)"

lemma quiet_steps: "quiet_step\<^sup>*\<^sup>* y z \<Longrightarrow> (gateway_step J)\<^sup>*\<^sup>* y z"
proof (induction rule: rtranclp_induct)
  case (step y z)
  from step(2) have "gateway_step J y z"
    by (cases rule: gateway_step.cases) (auto intro: gateway_step.intros)
  with step(3) show ?case by (rule rtranclp.rtrancl_into_rtrancl)
qed simp

lemma poll_once:
  assumes "gs_routes g (fst (es ! i)) \<noteq> None" and "i < length es" and "waits (snd (es ! i))"
  shows "\<exists>g' e'. quiet_step (g, es) (g', es[i := (fst (es ! i), e')])
     \<and> length (en_trace e') = Suc (length (en_trace (snd (es ! i)))) \<and> \<not> was_dropped e' \<and> en_ctx e' = en_ctx (snd (es ! i))"
proof -
  obtain n e where e: "es ! i = (n, e)" by (cases "es ! i")
  obtain rt where rt: "gs_routes g n = Some rt" using assms(1) e by auto
  obtain p c k where t: "en_task e = Suspended p c k" using assms(3) e by (auto simp: waits_def split: task.splits)
  let ?S = "shared_of g rt"
  let ?m = "k (?S\<lparr>sh_calls := sh_calls (en_left e)\<rparr>)"
  have "polled (standing e) (p, False, ?S) ?m" using polled.resumed [of p c k "en_left e" ?S] t by simp
  from gateway_step.poll [OF assms(2) e rt this] e rt show ?thesis
    by (intro exI [of _ "closed_if_answered (fst ?m) (write_back g n rt (snd ?m))"]
        exI [of _ "advanced (p, False, ?S) ?m e"]) (auto simp: advanced_def was_dropped_def)
qed

lemma runs_routed:
  assumes "gateway_runs J g0 (g, es)" and "(n, e) \<in> set es"
  shows "gs_routes g n \<noteq> None"
proof -
  obtain g1 es1 rt where "gateway_runs J g0 (g1, es1)" "gs_routes g1 n = Some rt"
    using runs_came_from [OF assms] by (auto simp: came_from_def)
  with runs_static(2) [OF assms(1)] runs_static(2) [of J g0 g1 es1] show ?thesis by (metis domD domI option.distinct(1))
qed

lemma finish_one:
  assumes "gateway_runs J g0 (g, es)" and "i < length es"
  shows "\<exists>g' e'. quiet_step\<^sup>*\<^sup>* (g, es) (g', es[i := (fst (es ! i), e')]) \<and> \<not> waits e'
     \<and> (if waits (snd (es ! i)) then \<not> was_dropped e' else e' = snd (es ! i))"
  using assms
proof (induction "unat (rc_retries (cx_config (en_ctx (snd (es ! i))))) + 4 - length (en_trace (snd (es ! i)))"
    arbitrary: g es rule: less_induct)
  case (less es g)
  obtain n e where e: "es ! i = (n, e)" by (cases "es ! i")
  have inn: "(n, e) \<in> set es" using less.prems(2) e nth_mem by fastforce
  show ?case
  proof (cases "waits e")
    case False
    then show ?thesis using e list_update_id [of es i] by (intro exI [of _ g] exI [of _ e]) simp
  next
    case True
    have "entry_inv e" using runs_tended [OF less.prems(1) inn] ..
    then have b: "length (en_trace e) < unat (rc_retries (cx_config (en_ctx e))) + 4"
      using serve_task_polls [of "en_env e" "en_ctx e" "en_request e" "en_start e" "en_trace e" "standing e"] True
      by (auto simp: entry_inv_def waits_def le_less split: task.splits)
    have "gs_routes g (fst (es ! i)) \<noteq> None" using runs_routed [OF less.prems(1) inn] e by simp
    from poll_once [OF this less.prems(2)] True obtain h e1 where
      h: "quiet_step (g, es) (h, es[i := (n, e1)])" "\<not> was_dropped e1" "en_ctx e1 = en_ctx e"
        "length (en_trace e1) = Suc (length (en_trace e))" by (auto simp: e)
    let ?es = "es[i := (n, e1)]"
    have nth: "?es ! i = (n, e1)" "length ?es = length es" "i < length ?es" using less.prems(2) by simp_all
    have run: "gateway_runs J g0 (h, ?es)" 
      using less.prems(1) quiet_steps [OF r_into_rtranclp [of quiet_step, OF h(1)]] by (rule rtranclp_trans)
    have dec: "unat (rc_retries (cx_config (en_ctx (snd (?es ! i))))) + 4 - length (en_trace (snd (?es ! i)))
        < unat (rc_retries (cx_config (en_ctx (snd (es ! i))))) + 4 - length (en_trace (snd (es ! i)))"
      using b h(3,4) nth(1) e by simp
    obtain g' e' where g': "quiet_step\<^sup>*\<^sup>* (h, ?es) (g', es[i := (n, e')])" "\<not> waits e'"
      "if waits e1 then \<not> was_dropped e' else e' = e1"
      using less.hyps [OF dec run nth(3)] by (auto simp: nth(1))
    have "quiet_step\<^sup>*\<^sup>* (g, es) (g', es[i := (n, e')])"
      using h(1) g'(1) by (rule converse_rtranclp_into_rtranclp)
    with g'(2,3) h(2) e True show ?thesis
      by (intro exI [of _ g'] exI [of _ e']) (auto split: if_splits)
  qed
qed

lemma finish_all:
  assumes "gateway_runs J g0 (g, es)" and "k \<le> length es"
  shows "\<exists>g' es'. quiet_step\<^sup>*\<^sup>* (g, es) (g', es') \<and> length es' = length es
     \<and> (\<forall>i < length es. fst (es' ! i) = fst (es ! i) \<and> (i < k \<longrightarrow> \<not> waits (snd (es' ! i)))
          \<and> (if i < k \<and> waits (snd (es ! i)) then \<not> was_dropped (snd (es' ! i)) else es' ! i = es ! i))"
  using assms(2)
proof (induction k)
  case 0
  then show ?case by (intro exI [of _ g] exI [of _ es]) auto
next
  case (Suc k)
  then obtain h fs where h: "quiet_step\<^sup>*\<^sup>* (g, es) (h, fs)" "length fs = length es"
    "\<forall>i < length es. fst (fs ! i) = fst (es ! i) \<and> (i < k \<longrightarrow> \<not> waits (snd (fs ! i)))
          \<and> (if i < k \<and> waits (snd (es ! i)) then \<not> was_dropped (snd (fs ! i)) else fs ! i = es ! i)"
    by auto
  have r: "gateway_runs J g0 (h, fs)" using assms(1) quiet_steps [OF h(1)] by (rule rtranclp_trans)
  have k: "k < length fs" "fs ! k = es ! k" using Suc.prems h(2,3) by auto
  obtain g' e' where g': "quiet_step\<^sup>*\<^sup>* (h, fs) (g', fs[k := (fst (fs ! k), e')])" "\<not> waits e'"
    "if waits (snd (fs ! k)) then \<not> was_dropped e' else e' = snd (fs ! k)"
    using finish_one [OF r k(1)] by blast
  have "quiet_step\<^sup>*\<^sup>* (g, es) (g', fs[k := (fst (fs ! k), e')])" using h(1) g'(1) by (rule rtranclp_trans)
  with g'(2,3) h(2,3) k show ?case
    by (intro exI [of _ g'] exI [of _ "fs[k := (fst (fs ! k), e')]"])
      (auto simp: nth_list_update less_Suc_eq prod_eq_iff split: if_splits)
qed

section \<open>Properties\<close>


text \<open>C5. Active counts are exact on every route: in every state the gateway reaches, the count of each
  upstream is its initial count plus the number of requests of its route that wait for that
  upstream's answer or read it, through retries, dropped clients and health checks.\<close>

theorem loaded_active_counts_exact:
  assumes "gateway_runs J g0 (g, es)" and "gs_routes g0 n = Some rt0" and "i < length (bal_upstreams (rt_balancer rt0))"
  shows "\<exists>rt. gs_routes g n = Some rt \<and> up_active (bal_upstreams (rt_balancer rt) ! i)
       = up_active (bal_upstreams (rt_balancer rt0) ! i) + of_nat (in_flight i (mine n es))"
  using runs_counts [OF assms(1,2)] assms(3) by (auto simp: counts_inv_def actives_def)

text \<open>C3. Load does not break the gateway: from a usable gateway, with requests whose clocks are not about to
  overflow, every reachable state is usable (every configured route has a runtime, no lock is
  poisoned, balancers and caches are well formed), and a request ends without a response only when
  its client went away.\<close>

theorem loaded_gateway_does_not_panic:
  assumes "gateway_runs (\<lambda>E rq. env_fits (calm E) g0) g0 (g, es)" and "gateway_ok g0"
  shows "gateway_ok g \<and> (\<forall>(n, e) \<in> set es. en_task e = Finished Panic \<longrightarrow> was_dropped e)"
proof -
  have "limiter_ok (gs_limiter g0)" using assms(2) by (simp add: gateway_ok_def)
  then have "limiter_ok (gs_limiter g)" by (rule runs_limiter_ok [OF assms(1)])
  then have "gateway_ok g" using runs_ok [OF assms] runs_static(1) [OF assms(1)] by (fastforce simp: gateway_ok_def)
  with runs_no_panic [OF assms] show ?thesis by blast
qed

text \<open>C7. The gauge of open connections counts the requests in progress and every request that ever ended
  without a response: in each reachable state it is its initial value plus the number of requests
  that wait plus the number of those that were dropped or panicked. Dropped connections are never
  taken off.\<close>

theorem gauge_counts_open_and_lost:
  assumes "gateway_runs J g0 (g, es)"
  shows "mt_active_connections (gs_metrics g) = mt_active_connections (gs_metrics g0)
     + int (length (filter (\<lambda>(n, e). waits e) es)) + int (length (filter (\<lambda>(n, e). lost e) es))"
  using runs_gauge [OF assms] by (simp add: unanswered_def case_prod_unfold)


text \<open>C4. A loaded gateway drains: from every state it reaches, polls alone bring every waiting request to a
  response, leave what has ended as it is, return every active count to
  its initial value, and take the gauge down to its initial value plus the requests that had been
  lost before.\<close>

theorem loaded_gateway_drains:
  assumes "gateway_runs (\<lambda>E rq. env_fits (calm E) g0) g0 (g, es)" and "gateway_ok g0"
  shows "\<exists>g' es'. quiet_step\<^sup>*\<^sup>* (g, es) (g', es') \<and> length es' = length es
     \<and> (\<forall>i < length es. if waits (snd (es ! i)) then \<exists>r. en_task (snd (es' ! i)) = Finished (Ret r) else es' ! i = es ! i)
     \<and> (\<forall>n rt0. gs_routes g0 n = Some rt0 \<longrightarrow> (\<exists>rt. gs_routes g' n = Some rt \<and> actives (rt_balancer rt) = actives (rt_balancer rt0)))
     \<and> mt_active_connections (gs_metrics g') = mt_active_connections (gs_metrics g0) + int (length (filter (\<lambda>(n, e). lost e) es))"
proof -
  let ?J = "\<lambda>E rq. env_fits (calm E) g0"
  obtain g' es' where d: "quiet_step\<^sup>*\<^sup>* (g, es) (g', es')" and len: "length es' = length es"
    and es': "\<forall>i < length es. fst (es' ! i) = fst (es ! i) \<and> \<not> waits (snd (es' ! i))
          \<and> (if waits (snd (es ! i)) then \<not> was_dropped (snd (es' ! i)) else es' ! i = es ! i)"
    using finish_all [OF assms(1) order_refl] by auto
  have run: "gateway_runs ?J g0 (g', es')" using assms(1) quiet_steps [OF d] by (rule rtranclp_trans)
  have ans: "\<exists>r. en_task (snd (es' ! i)) = Finished (Ret r)" if "i < length es" "waits (snd (es ! i))" for i
  proof -
    have "(fst (es' ! i), snd (es' ! i)) \<in> set es'" using that(1) len by simp
    then have "en_task (snd (es' ! i)) \<noteq> Finished Panic"
      using runs_no_panic [OF run assms(2)] es' that by meson
    moreover have "\<not> waits (snd (es' ! i))" using es' that(1) by blast
    ultimately show ?thesis by (auto simp: waits_def split: task.splits) (metis res.exhaust)
  qed
  have "lost (snd (es' ! i)) \<longleftrightarrow> lost (snd (es ! i))" if "i < length es" for i
    using ans [OF that] es' that by (cases "waits (snd (es ! i))") (auto simp: lost_def waits_def split: task.splits)
  then have "length (filter (\<lambda>x. lost (snd x)) es') = length (filter (\<lambda>x. lost (snd x)) es)"
    using len by (simp add: length_filter_conv_card) (metis (no_types, lifting))
  moreover have idle: "\<forall>x \<in> set es'. \<not> waits (snd x)"
    using es' len by (metis (no_types, lifting) in_set_conv_nth)
  ultimately have "mt_active_connections (gs_metrics g') = mt_active_connections (gs_metrics g0)
      + int (length (filter (\<lambda>x. lost (snd x)) es))"
    using runs_gauge [OF run] by (simp add: unanswered_def)
  moreover have "\<exists>rt. gs_routes g' n = Some rt \<and> actives (rt_balancer rt) = actives (rt_balancer rt0)"
    if "gs_routes g0 n = Some rt0" for n rt0
    using runs_idle_counts [OF run that idle] .
  ultimately show ?thesis using d len ans es' by (intro exI [of _ g'] exI [of _ es']) (auto simp: case_prod_unfold)
qed

section \<open>Examples\<close>

text \<open>A gateway with the sample route; a request arrives, waits for its first upstream, its client goes away.\<close>

definition loaded_state :: "(string \<Rightarrow> nat) gateway_state" where
  "loaded_state = \<lparr>gs_config = one_route, gs_routes = [''r'' \<mapsto> sample_runtime], gs_limiter = InMemory in_memory_new,
     gs_metrics = zero_metrics\<rparr>"

lemma loaded_state_built: "gateway_build (\<lambda>_. None) True one_route zero_metrics = Some loaded_state"
  by (simp add: gateway_build_def loaded_state_def one_route_def insert_routes_def sample_runtime_def sample_target_def
      route_with_defaults_def choose_limiter_def server_config_default_def)

lemma loaded_state_ok: "gateway_ok loaded_state" "env_fits (calm sample_env) loaded_state"
proof -
  show "gateway_ok loaded_state" using built_gateway_ok [OF one_route_valid loaded_state_built] .
  have "calm sample_env = sample_env" by (simp add: calm_def sample_env_def)
  with one_route_fits [OF loaded_state_built] show "env_fits (calm sample_env) loaded_state" by simp
qed

lemma sample_arrived:
  "\<exists>k. serve_task sample_env (sample_ctx ''POST'') (sample_request ''POST'') (sample_shared\<lparr>sh_metrics := m\<rparr>)
       = (Suspended AtBody (\<lambda>s. s) k, sample_shared\<lparr>sh_metrics := m\<rparr>)
     \<and> (\<forall>m'. \<exists>c k' s. k (sample_shared\<lparr>sh_metrics := m'\<rparr>) = (Suspended (AtSend 0) c k', s) \<and> fst (last (sh_calls s)) = 0)"
proof -
  let ?c = "sample_ctx ''POST''" and ?rq = "sample_request ''POST''"
  let ?f = "forward_of sample_env ?c ?rq ''body''" and ?s = "\<lambda>m. sample_shared\<lparr>sh_metrics := m\<rparr>"
  have f: "fw_max_attempts ?f = Suc (Suc 0)"
    by (simp add: forward_of_def sample_defs saturating_add_u32_def Let_def)
  have "serve_task sample_env ?c ?rq (?s m)
      = andthen (suspend AtBody (?s m)) (\<lambda>_ s. attempts_task sample_env ?c ?f (Suc (Suc 0)) [] s)"
  proof -
    have "authorize (e_http sample_env) (e_decode sample_env) (rc_auth (cx_config ?c)) (cx_headers ?c) = Inr ()"
      "rc_rate_limit (cx_config ?c) = None" "\<not> cx_cache_enabled ?c"
      "e_to_bytes sample_env (rq_body ?rq) (sc_max_body_bytes (cx_server ?c)) = Some ''body''"
      by (simp_all add: sample_defs Let_def)
    then show ?thesis
      by (simp add: serve_task_def unless_done_def auth_stage_def rate_task_def cache_stage_def forward_task_def
          atomic_def f Let_def del: attempts_task.simps)
  qed
  moreover have "\<exists>c k' s. attempts_task sample_env ?c ?f (Suc (Suc 0)) [] (?s m') = (Suspended (AtSend 0) c k', s)
      \<and> fst (last (sh_calls s)) = 0" for m'
    using bal_steps(1) by (simp add: on_balancer_def sample_shared_def atomic_def f attempt_task_def call_task_def
        suspend_def Let_def)
  ultimately show ?thesis by (simp add: suspend_def sample_shared_def)
qed

lemma poll_only:
  assumes "gateway_runs J g0 (g, [(n, e)])" and "gs_routes g n = Some rt"
    and "polled (standing e) (p, d, shared_of g rt) m"
  shows "gateway_runs J g0 (closed_if_answered (fst m) (write_back g n rt (snd m)), [(n, advanced (p, d, shared_of g rt) m e)])"
proof (rule rtranclp.rtrancl_into_rtrancl [OF assms(1)])
  show "gateway_step J (g, [(n, e)]) (closed_if_answered (fst m) (write_back g n rt (snd m)), [(n, advanced (p, d, shared_of g rt) m e)])"
    using gateway_step.poll [OF _ _ assms(2,3), of 0 "[(n, e)]" J] by simp
qed

lemma sample_load:
  assumes "J sample_env (sample_request ''POST'')"
  obtains g e g' e' where "gateway_runs J loaded_state (g, [(''r'', e)])" and "guard_of (standing e) = Some 0"
    and "length (en_trace e) = 1" and "waits e" and "en_ctx e = sample_ctx ''POST''"
    and "gateway_runs J loaded_state (g', [(''r'', e')])" and "en_task e' = Finished Panic"
proof -
  let ?rq = "sample_request ''POST''" and ?g0 = "conn_open loaded_state"
  let ?S0 = "shared_of ?g0 sample_runtime :: (header_list, string \<Rightarrow> nat) shared"
  have s0: "?S0 = sample_shared\<lparr>sh_metrics := gs_metrics ?g0\<rparr>"
    by (simp add: shared_of_def loaded_state_def sample_shared_def sample_runtime_def runtime_from_config_def bal0_def
        sample_target_def route_with_defaults_def)
  obtain k where a: "serve_task sample_env (sample_ctx ''POST'') ?rq ?S0
      = (Suspended AtBody (\<lambda>s. s) k, ?S0)"
    and k: "\<And>m. \<exists>c k' s. k (sample_shared\<lparr>sh_metrics := m\<rparr>) = (Suspended (AtSend 0) c k', s) \<and> fst (last (sh_calls s)) = 0"
    using sample_arrived [of "gs_metrics ?g0"] unfolding s0 by blast
  obtain c k' s where k0: "k ?S0 = (Suspended (AtSend 0) c k', s)" "fst (last (sh_calls s)) = 0"
    using k [of "gs_metrics ?g0"] unfolding s0 by blast
  let ?e = "started sample_env (sample_ctx ''POST'') ?rq ?S0"
  have e: "standing ?e = (Suspended AtBody (\<lambda>s. s) k, ?S0)" using a by (simp add: started_def)
  let ?g1 = "write_back ?g0 ''r'' sample_runtime ?S0"
  have hs: "handle_start sample_env ?rq loaded_state = (Some (''r'', ?e), ?g1)"
  proof -
    have "match_route one_route (Some ''h'') ''/p'' = Some sample_target" by code_simp
    moreover have "header_str (e_http sample_env) (rq_headers ?rq) ''host'' = Some ''h''" "rq_path ?rq = ''/p''"
      by (simp_all add: sample_env_def sample_request_def header_str_def visible_ascii_def)
    moreover have "request_context sample_env one_route sample_runtime ''r'' ?rq = sample_ctx ''POST''"
      by (simp add: sample_ctx_def request_context_def one_route_def sample_config_def)
    moreover have "rc_name sample_target = ''r''" "gs_config loaded_state = one_route"
      "gs_routes loaded_state ''r'' = Some sample_runtime"
      by (simp_all add: sample_target_def route_with_defaults_def loaded_state_def)
    ultimately show ?thesis using e by (simp add: handle_start_def Let_def state_route_def closed_if_answered_def)
  qed
  have "gateway_runs J loaded_state (?g1, [(''r'', ?e)])"
    using gateway_step.arrive [of J, OF assms hs, of "[]"] by simp
  moreover have "gs_routes ?g1 ''r'' = Some sample_runtime" by simp
  moreover have s1: "shared_of ?g1 sample_runtime = ?S0" by (simp add: shared_of_def)
  have "polled (standing ?e) (AtBody, False, shared_of ?g1 sample_runtime) (k ?S0)"
    using e polled.resumed [of AtBody "\<lambda>s. s" k ?S0 ?S0] by (simp add: s1 shared_of_def)
  ultimately obtain g2 e1 where run: "gateway_runs J loaded_state (g2, [(''r'', e1)])"
    and g2: "gs_routes g2 ''r'' \<noteq> None" and e1: "standing e1 = (Suspended (AtSend 0) c k', s)"
      "length (en_trace e1) = 1" "en_ctx e1 = sample_ctx ''POST''"
    using poll_only [of J loaded_state ?g1 "''r''" ?e sample_runtime AtBody False "k ?S0"] k0(1)
    by (auto simp: advanced_def started_def)
  then obtain rt where rt: "gs_routes g2 ''r'' = Some rt" by blast
  let ?m2 = "(Finished Panic, c ((shared_of g2 rt)\<lparr>sh_calls := sh_calls s\<rparr>))"
  have "polled (standing e1) (AtSend 0, True, shared_of g2 rt) ?m2" unfolding e1(1) by (rule polled.dropped)
  note drop = poll_only [OF run rt this]
  show ?thesis
    by (rule that [OF run _ _ _ _ drop]) (use e1 k0(2) in \<open>simp_all add: advanced_def waits_def\<close>)
qed


theorem loaded_active_counts_exact_witness:
  "\<exists>g rt (es :: (string \<times> (header_list, string \<Rightarrow> nat, string) entry) list).
     gateway_runs (\<lambda>_ _. True) loaded_state (g, es) \<and> gs_routes g ''r'' = Some rt
     \<and> in_flight 0 (mine ''r'' es) = 1 \<and> up_active (bal_upstreams (rt_balancer rt) ! 0) = 1"
proof -
  obtain g and e :: "(header_list, string \<Rightarrow> nat, string) entry"
    where r: "gateway_runs (\<lambda>_ _. True) loaded_state (g, [(''r'', e)])" "guard_of (standing e) = Some 0"
    by (rule sample_load [of "\<lambda>_ _. True"]) simp
  have "gs_routes loaded_state ''r'' = Some sample_runtime" by (simp add: loaded_state_def)
  moreover have "0 < length (bal_upstreams (rt_balancer sample_runtime))"
    "up_active (bal_upstreams (rt_balancer sample_runtime) ! 0) = 0"
    by (simp_all add: sample_runtime_def runtime_from_config_def sample_target_def route_with_defaults_def from_route_def
        upstream_from_def)
  moreover have "in_flight 0 (mine ''r'' [(''r'', e)]) = 1" using r(2) by (simp add: in_flight_def mine_def)
  ultimately show ?thesis using loaded_active_counts_exact [OF r(1), of "''r''" sample_runtime 0] r(1)
    by (metis add_0 of_nat_1)
qed

theorem loaded_gateway_does_not_panic_witness:
  "\<exists>g (e :: (header_list, string \<Rightarrow> nat, string) entry).
     gateway_runs (\<lambda>E rq. env_fits (calm E) loaded_state) loaded_state (g, [(''r'', e)])
     \<and> gateway_ok g \<and> en_task e = Finished Panic \<and> was_dropped e"
proof -
  obtain g and e :: "(header_list, string \<Rightarrow> nat, string) entry"
    where "gateway_runs (\<lambda>E rq. env_fits (calm E) loaded_state) loaded_state (g, [(''r'', e)])" "en_task e = Finished Panic"
    by (rule sample_load [of "\<lambda>E rq. env_fits (calm E) loaded_state"]) (use loaded_state_ok in simp)
  with loaded_gateway_does_not_panic [OF _ loaded_state_ok(1), of g "[(''r'', e)]"] show ?thesis by auto
qed

theorem gauge_counts_open_and_lost_witness:
  "\<exists>g (e :: (header_list, string \<Rightarrow> nat, string) entry). gateway_runs (\<lambda>_ _. True) loaded_state (g, [(''r'', e)])
     \<and> lost e \<and> mt_active_connections (gs_metrics g) = mt_active_connections (gs_metrics loaded_state) + 1"
proof -
  obtain g and e :: "(header_list, string \<Rightarrow> nat, string) entry"
    where r: "gateway_runs (\<lambda>_ _. True) loaded_state (g, [(''r'', e)])" "en_task e = Finished Panic"
    by (rule sample_load [of "\<lambda>_ _. True"]) simp
  then have "lost e" "\<not> waits e" by (simp_all add: lost_def waits_def)
  with gauge_counts_open_and_lost [OF r(1)] r(1) show ?thesis by auto
qed


theorem loaded_gateway_drains_witness:
  "\<exists>g g' n (e :: (header_list, string \<Rightarrow> nat, string) entry) e' r. gateway_runs (\<lambda>E rq. env_fits (calm E) loaded_state) loaded_state (g, [(''r'', e)])
     \<and> waits e \<and> quiet_step\<^sup>*\<^sup>* (g, [(''r'', e)]) (g', [(n, e')]) \<and> en_task e' = Finished (Ret r)"
proof -
  obtain g and e :: "(header_list, string \<Rightarrow> nat, string) entry"
    where r: "gateway_runs (\<lambda>E rq. env_fits (calm E) loaded_state) loaded_state (g, [(''r'', e)])" "waits e"
    by (rule sample_load [of "\<lambda>E rq. env_fits (calm E) loaded_state"]) (use loaded_state_ok in simp)
  obtain g' es' where d: "quiet_step\<^sup>*\<^sup>* (g, [(''r'', e)]) (g', es')" "length es' = 1"
    "\<exists>r. en_task (snd (es' ! 0)) = Finished (Ret r)"
    using loaded_gateway_drains [OF r(1) loaded_state_ok(1)] r(2) by auto
  then obtain n e' where "es' = [(n, e')]" by (cases es') (auto simp: length_Suc_conv)
  with d r show ?thesis by (metis nth_Cons_0 snd_conv)
qed

end
