(* ===== verification/Load_Limits.thy ===== *)
theory Load_Limits
  imports Gateway_Load
begin

text \<open>
  The rate limit of a gateway under load: the in-memory limiter of
  \<^verbatim>\<open>crates/gateway/src/ratelimit.rs\<close> sees the checks of all requests, of all routes, in the order
  of their polls; what it grants is what may reach an upstream.
\<close>

section \<open>The checks of a run\<close>

definition limiter_at :: "in_memory_limiter \<Rightarrow> rate_request list \<Rightarrow> in_memory_limiter" where
  "limiter_at l rs = foldl (\<lambda>l r. snd (mem_check l r)) l rs"

lemma limiter_at_snoc: "limiter_at l (rs @ [r]) = snd (mem_check (limiter_at l rs) r)"
  by (simp add: limiter_at_def)

lemma admitted_snoc:
  "admitted k l (rs @ [r]) = admitted k l rs + of_bool (key_of r = k \<and> granted (fst (mem_check (limiter_at l rs) r)))"
  by (induction rs arbitrary: l) (simp_all add: admitted_simps limiter_at_def)

text \<open>The requests of a bucket, and those among them that have asked the limiter.\<close>

definition keyed :: "string \<Rightarrow> ('hm, 's, 'b) entry \<Rightarrow> bool" where
  "keyed k e \<longleftrightarrow> map_option key_of (check_of (en_env e) (en_ctx e)) = Some k"

definition asked :: "('hm, 's, 'b) entry \<Rightarrow> bool" where
  "asked e \<longleftrightarrow> (\<exists>S. (AtLimiter, False, S) \<in> set (en_trace e))"

definition how_many :: "(('hm, 's, 'b) entry \<Rightarrow> bool) \<Rightarrow> (string \<times> ('hm, 's, 'b) entry) list \<Rightarrow> nat" where
  "how_many P es = length (filter (\<lambda>x. P (snd x)) es)"

lemma how_many_simps [simp]: "how_many P [] = 0" "how_many P (es @ [x]) = how_many P es + of_bool (P (snd x))"
  by (simp_all add: how_many_def)

lemma how_many_update:
  "i < length es \<Longrightarrow> how_many P (es[i := x]) + of_bool (P (snd (es ! i))) = how_many P es + of_bool (P (snd x))"
  unfolding how_many_def by (rule length_filter_update)

text \<open>A request asks the limiter at most once.\<close>

lemma asked_once:
  assumes "entry_inv e" and "polled (standing e) (AtLimiter, d, S) m"
  shows "\<not> asked e"
proof -
  have "polls (serve_task (en_env e) (en_ctx e) (en_request e) (en_start e)) (en_trace e @ [(AtLimiter, d, S)]) m"
    using assms by (auto simp: entry_inv_def intro: polls_snoc)
  from distinct_trace [OF this order_serve] show ?thesis by (force simp: asked_def)
qed

lemma keyed_advanced [simp]: "keyed k (advanced x m e) = keyed k e"
  by (simp add: keyed_def advanced_def)

lemma asked_advanced: "asked (advanced (p, d, S) m e) \<longleftrightarrow> asked e \<or> p = AtLimiter \<and> \<not> d"
  by (auto simp: asked_def advanced_def)

lemma cleared_advanced:
  "keyed k e \<Longrightarrow> cleared (advanced (p, d, S) m e) \<longleftrightarrow>
   cleared e \<or> p = AtLimiter \<and> \<not> d \<and> fst (consulted (en_env e) (en_ctx e) (sh_limiter S))"
  by (auto simp: keyed_def cleared_def advanced_def)

lemma cleared_asked: "keyed k e \<Longrightarrow> cleared e \<Longrightarrow> asked e"
  by (auto simp: keyed_def cleared_def asked_def)

definition limits_inv :: "string \<Rightarrow> in_memory_limiter \<Rightarrow> ('hm, 's, 'b) gateway_system \<Rightarrow> bool" where
  "limits_inv k l y \<longleftrightarrow> tended y \<and> (\<exists>rs. gs_limiter (fst y) = InMemory (limiter_at l rs)
     \<and> how_many (\<lambda>e. keyed k e \<and> cleared e) (snd y) = admitted k l rs
     \<and> how_many (\<lambda>e. keyed k e \<and> asked e) (snd y) = length (filter (\<lambda>r. key_of r = k) rs)
     \<and> (\<forall>r \<in> set rs. \<exists>x \<in> set (snd y). check_of (en_env (snd x)) (en_ctx (snd x)) = Some r))"

lemma limits_inv_poll:
  assumes "limits_inv k l (g, es)" and i: "i < length es" and e: "es ! i = (n, e)" and "gs_routes g n = Some rt"
    and p: "polled (standing e) (p, d, shared_of g rt) m"
  shows "\<exists>rs. sh_limiter (snd m) = InMemory (limiter_at l rs)
     \<and> how_many (\<lambda>e. keyed k e \<and> cleared e) (es[i := (n, advanced (p, d, shared_of g rt) m e)]) = admitted k l rs
     \<and> how_many (\<lambda>e. keyed k e \<and> asked e) (es[i := (n, advanced (p, d, shared_of g rt) m e)]) = length (filter (\<lambda>r. key_of r = k) rs)
     \<and> (\<forall>r \<in> set rs. \<exists>x \<in> set (es[i := (n, advanced (p, d, shared_of g rt) m e)]). check_of (en_env (snd x)) (en_ctx (snd x)) = Some r)"
proof -
  let ?e = "advanced (p, d, shared_of g rt) m e"
  let ?es = "es[i := (n, ?e)]"
  obtain rs where rs: "gs_limiter g = InMemory (limiter_at l rs)"
    "how_many (\<lambda>e. keyed k e \<and> cleared e) es = admitted k l rs"
    "how_many (\<lambda>e. keyed k e \<and> asked e) es = length (filter (\<lambda>r. key_of r = k) rs)"
    "\<forall>r \<in> set rs. \<exists>x \<in> set es. check_of (en_env (snd x)) (en_ctx (snd x)) = Some r"
    using assms(1) by (auto simp: limits_inv_def)
  have inv: "entry_inv e" "limit_inv e" using assms(1) i e by (auto simp: limits_inv_def tended_def list_all_length)
  have eq: "en_env ?e = en_env e" "en_ctx ?e = en_ctx e" by (simp_all add: advanced_def)
  have src: "\<exists>x \<in> set ?es. check_of (en_env (snd x)) (en_ctx (snd x)) = Some r"
    if "r \<in> set rs \<or> check_of (en_env e) (en_ctx e) = Some r" for r
  proof -
    have "\<exists>x \<in> set es. check_of (en_env (snd x)) (en_ctx (snd x)) = Some r"
      using that rs(4) i e nth_mem [OF i] by force
    then obtain j where "j < length es" "check_of (en_env (snd (es ! j))) (en_ctx (snd (es ! j))) = Some r"
      by (metis in_set_conv_nth)
    then have "j < length ?es" "check_of (en_env (snd (?es ! j))) (en_ctx (snd (?es ! j))) = Some r"
      using e i by (auto simp: nth_list_update eq)
    then show ?thesis using nth_mem by blast
  qed
  note lim = limit_inv_advanced(2,3) [OF inv(2) p]
  show ?thesis
  proof (cases "p = AtLimiter \<and> \<not> d")
    case False
    then have "sh_limiter (snd m) = gs_limiter g" using lim(1) by (auto simp: common_def)
    moreover have "keyed k ?e \<and> cleared ?e \<longleftrightarrow> keyed k e \<and> cleared e" "keyed k ?e \<and> asked ?e \<longleftrightarrow> keyed k e \<and> asked e"
      using False cleared_advanced [of k e p d "shared_of g rt" m] asked_advanced [of p d "shared_of g rt" m e] by auto
    ultimately show ?thesis
      using how_many_update [OF i, of "\<lambda>e. keyed k e \<and> cleared e" "(n, ?e)"]
        how_many_update [OF i, of "\<lambda>e. keyed k e \<and> asked e" "(n, ?e)"] rs e src
      by (intro exI [of _ rs]) simp
  next
    case True
    then obtain r where r: "check_of (en_env e) (en_ctx e) = Some r" using lim(2) by auto
    have c: "consulted (en_env e) (en_ctx e) (gs_limiter g)
        = (granted (fst (mem_check (limiter_at l rs) r)), InMemory (snd (mem_check (limiter_at l rs) r)))"
      using consulted_memory [OF r] rs(1) by simp
    have "sh_limiter (snd m) = InMemory (limiter_at l (rs @ [r]))"
      using lim(1) True c by (simp add: common_def limiter_at_snoc)
    moreover have "\<not> asked e" "\<not> (keyed k e \<and> cleared e)"
      using asked_once [OF inv(1)] p True cleared_asked [of k e] by blast+
    moreover have k: "keyed k e \<longleftrightarrow> key_of r = k" by (simp add: keyed_def r)
    moreover have "keyed k e \<Longrightarrow> cleared ?e \<longleftrightarrow> cleared e \<or> granted (fst (mem_check (limiter_at l rs) r))"
      using cleared_advanced [of k e p d "shared_of g rt" m] True c by simp
    ultimately show ?thesis
      using how_many_update [OF i, of "\<lambda>e. keyed k e \<and> cleared e" "(n, ?e)"]
        how_many_update [OF i, of "\<lambda>e. keyed k e \<and> asked e" "(n, ?e)"] rs(2,3) e src r True
      by (intro exI [of _ "rs @ [r]"]) (auto simp: admitted_snoc asked_advanced)
  qed
qed

interpretation limits: machine "gateway_step J" "limits_inv k l" for J k l
proof
  fix y z :: "('a, 'b, 'c) gateway_system"
  assume s: "gateway_step J y z" and i: "limits_inv k l y"
  have t: "tended z" using tending.step_inv [OF s] i by (simp add: limits_inv_def)
  from s show "limits_inv k l z"
  proof (cases rule: gateway_step.cases)
    case (unrouted E rq g g' es)
    with i t show ?thesis by (auto simp: limits_inv_def handle_start_None)
  next
    case (arrive E rq g x g' es)
    obtain n e where x: "x = (n, e)" by (cases x)
    obtain c rt where e: "e = started E c rq (shared_of (conn_open g) rt)"
      and g': "g' = closed_if_answered (en_task e) (write_back (conn_open g) n rt (en_left e))"
      using arrive(4) unfolding x by (rule handle_start_Some) blast
    have "\<not> asked e" by (simp add: e started_def asked_def)
    moreover from this have "\<not> (keyed k e \<and> cleared e)" using cleared_asked by blast
    moreover have "gs_limiter g' = gs_limiter g" by (simp add: g' e start_limiter)
    ultimately show ?thesis using i t arrive by (auto simp: limits_inv_def x)
  next
    case (poll j es n e g rt p d m)
    from limits_inv_poll [OF i [unfolded poll(1)] poll(3-6)] t poll show ?thesis by (auto simp: limits_inv_def)
  next
    case (probed g es t pr)
    with i t show ?thesis by (auto simp: limits_inv_def)
  qed
qed

section \<open>Property\<close>


section \<open>Example\<close>

text \<open>The sample route with a limit of one request in ten seconds; a request passes the limiter and calls an upstream.\<close>

definition limited_target :: route_config where
  "limited_target = sample_target\<lparr>rc_rate_limit := Some \<lparr>rl_scope = ScopeRoute, rl_limit = 1, rl_window_secs = 10\<rparr>\<rparr>"

definition limited_state :: "(string \<Rightarrow> nat) gateway_state" where
  "limited_state = loaded_state\<lparr>gs_config := one_route\<lparr>gc_routes := [limited_target]\<rparr>,
     gs_routes := [''r'' \<mapsto> sample_runtime\<lparr>rt_config := limited_target\<rparr>]\<rparr>"

lemma limited_check: "check_of sample_env limited_ctx = Some (''r:route'', 1, 10000000000, 0)"
  by (simp add: check_of_def limited_ctx_def sample_ctx_def request_context_def rate_key_def from_secs_def nanos_per_sec_def
      sample_env_def sample_target_def route_with_defaults_def Let_def)

lemma limited_arrived:
  "\<exists>k1 k2. serve_task sample_env limited_ctx (sample_request ''POST'') (sample_shared\<lparr>sh_metrics := m\<rparr>)
       = (Suspended AtLimiter (\<lambda>s. s) k1, sample_shared\<lparr>sh_metrics := m\<rparr>)
     \<and> (\<forall>m. \<exists>l. k1 (sample_shared\<lparr>sh_metrics := m\<rparr>) = (Suspended AtBody (\<lambda>s. s) k2, sample_shared\<lparr>sh_metrics := m, sh_limiter := l\<rparr>))
     \<and> (\<forall>m l. \<exists>c k' s. k2 (sample_shared\<lparr>sh_metrics := m, sh_limiter := l\<rparr>) = (Suspended (AtSend 0) c k', s) \<and> sh_calls s \<noteq> [])"
proof -
  let ?c = limited_ctx and ?rq = "sample_request ''POST''" and ?s = "\<lambda>m. sample_shared\<lparr>sh_metrics := m\<rparr>"
  let ?f = "forward_of sample_env ?c ?rq ''body''"
  let ?k2 = "\<lambda>s. attempts_task sample_env ?c ?f (Suc (Suc 0)) [] (s\<lparr>sh_calls := []\<rparr>)"
  have f: "fw_max_attempts ?f = Suc (Suc 0)"
    by (simp add: forward_of_def limited_ctx_def sample_defs saturating_add_u32_def Let_def)
  have c: "authorize (e_http sample_env) (e_decode sample_env) (rc_auth (cx_config ?c)) (cx_headers ?c) = Inr ()"
    "rc_rate_limit (cx_config ?c) = Some \<lparr>rl_scope = ScopeRoute, rl_limit = 1, rl_window_secs = 10\<rparr>"
    "\<not> cx_cache_enabled ?c"
    "e_to_bytes sample_env (rq_body ?rq) (sc_max_body_bytes (cx_server ?c)) = Some ''body''"
    by (simp_all add: limited_ctx_def sample_defs Let_def)
  let ?key = "rate_key (e_http sample_env) ScopeRoute (cx_route ?c) (cx_client_ip ?c) (cx_headers ?c)"
  obtain D l where D: "in_memory_check in_memory_new ?key 1 (from_secs 10) (e_rate_now sample_env) = (Ret D, l)" "rd_allowed D"
    by (simp add: in_memory_check_eq in_memory_new_def mem_usable_def in_memory_check_body_def window_entry_def Let_def case_prod_beta)
  have "\<exists>c k' s. ?k2 (sample_shared\<lparr>sh_metrics := m, sh_limiter := l\<rparr>) = (Suspended (AtSend 0) c k', s) \<and> sh_calls s \<noteq> []" for m l
    using bal_steps(1) by (simp add: on_balancer_def sample_shared_def atomic_def f attempt_task_def call_task_def
        suspend_def Let_def)
  moreover have "\<exists>k1. serve_task sample_env ?c ?rq (?s m) = (Suspended AtLimiter (\<lambda>s. s) k1, ?s m)
      \<and> (\<forall>m. \<exists>l. k1 (?s m) = (Suspended AtBody (\<lambda>s. s) ?k2, sample_shared\<lparr>sh_metrics := m, sh_limiter := l\<rparr>))"
    using c D
    by (simp add: serve_task_def unless_done_def auth_stage_def rate_task_def cache_stage_def forward_task_def
          atomic_def f suspend_def Let_def sample_shared_def case_prod_beta del: attempts_task.simps)
  ultimately show ?thesis by blast
qed

lemma limited_load:
  obtains g e where "gateway_runs (\<lambda>_ _. True) limited_state (g, [(''r'', e)])" and "en_env e = sample_env"
    and "en_ctx e = limited_ctx" and "sh_calls (en_left e) \<noteq> []"
proof -
  let ?rq = "sample_request ''POST''" and ?g0 = "conn_open limited_state"
  let ?rt = "sample_runtime\<lparr>rt_config := limited_target\<rparr>"
  let ?S = "\<lambda>l. sample_shared\<lparr>sh_metrics := gs_metrics ?g0, sh_limiter := l\<rparr>"
  have s0: "shared_of ?g0 ?rt = sample_shared\<lparr>sh_metrics := gs_metrics ?g0\<rparr>"
    by (simp add: shared_of_def limited_state_def loaded_state_def sample_shared_def sample_runtime_def runtime_from_config_def
        bal0_def sample_target_def route_with_defaults_def)
  obtain k1 k2 where a: "serve_task sample_env limited_ctx ?rq (shared_of ?g0 ?rt) = (Suspended AtLimiter (\<lambda>s. s) k1, shared_of ?g0 ?rt)"
    and k1: "\<exists>l. k1 (shared_of ?g0 ?rt) = (Suspended AtBody (\<lambda>s. s) k2, ?S l)"
    and k2: "\<And>l. \<exists>c k' s. k2 (?S l) = (Suspended (AtSend 0) c k', s) \<and> sh_calls s \<noteq> []"
    using limited_arrived [of "gs_metrics ?g0"] unfolding s0 by blast
  let ?e = "started sample_env limited_ctx ?rq (shared_of ?g0 ?rt)"
  have e: "standing ?e = (Suspended AtLimiter (\<lambda>s. s) k1, shared_of ?g0 ?rt)" using a by (simp add: started_def)
  let ?g1 = "write_back ?g0 ''r'' ?rt (shared_of ?g0 ?rt :: (header_list, string \<Rightarrow> nat) shared)"
  have hs: "handle_start sample_env ?rq limited_state = (Some (''r'', ?e), ?g1)"
  proof -
    have "match_route (one_route\<lparr>gc_routes := [limited_target]\<rparr>) (Some ''h'') ''/p'' = Some limited_target" by code_simp
    moreover have "header_str (e_http sample_env) (rq_headers ?rq) ''host'' = Some ''h''" "rq_path ?rq = ''/p''"
      by (simp_all add: sample_env_def sample_request_def header_str_def visible_ascii_def)
    moreover have "request_context sample_env (one_route\<lparr>gc_routes := [limited_target]\<rparr>) ?rt ''r'' ?rq = limited_ctx"
      by (simp add: limited_ctx_def limited_target_def sample_ctx_def request_context_def one_route_def sample_config_def Let_def)
    moreover have "rc_name limited_target = ''r''" "gs_config limited_state = one_route\<lparr>gc_routes := [limited_target]\<rparr>"
      "gs_routes limited_state ''r'' = Some ?rt"
      by (simp_all add: limited_target_def sample_target_def route_with_defaults_def limited_state_def)
    ultimately show ?thesis using e by (simp add: handle_start_def Let_def state_route_def closed_if_answered_def)
  qed
  obtain l where l: "k1 (shared_of ?g0 ?rt) = (Suspended AtBody (\<lambda>s. s) k2, ?S l)" using k1 by blast
  have r0: "gateway_runs (\<lambda>_ _. True) limited_state (?g1, [(''r'', ?e)])"
    using gateway_step.arrive [of "\<lambda>_ _. True", OF _ hs, of "[]"] by simp
  have "gs_routes ?g1 ''r'' = Some ?rt" by simp
  moreover have "polled (standing ?e) (AtLimiter, False, shared_of ?g1 ?rt) (Suspended AtBody (\<lambda>s. s) k2, ?S l)"
    using e l polled.resumed [of AtLimiter "\<lambda>s. s" k1 "shared_of ?g0 ?rt" "shared_of ?g0 ?rt"]
    by (simp add: shared_of_def)
  note r1 = poll_only [OF r0 calculation this]
  define e1 where "e1 = advanced (AtLimiter, False, shared_of ?g1 ?rt) (Suspended AtBody (\<lambda>s. s) k2, ?S l) ?e"
  define g2 where "g2 = write_back ?g1 ''r'' ?rt (?S l)"
  have r1: "gateway_runs (\<lambda>_ _. True) limited_state (g2, [(''r'', e1)])"
    using r1 by (simp add: e1_def g2_def closed_if_answered_def)
  obtain c k' s where s: "k2 (?S l) = (Suspended (AtSend 0) c k', s)" "sh_calls s \<noteq> []" using k2 by blast
  let ?rt2 = "?rt\<lparr>rt_balancer := sh_balancer (?S l), rt_cache := sh_cache (?S l)\<rparr>"
  have g2: "gs_routes g2 ''r'' = Some ?rt2" "shared_of g2 ?rt2 = ?S l"
    by (simp_all add: g2_def fresh_def shared_of_def sample_shared_def)
  have "polled (standing e1) (AtBody, False, shared_of g2 ?rt2) (Suspended (AtSend 0) c k', s)"
    using s polled.resumed [of AtBody "\<lambda>s. s" k2 "?S l" "?S l"] unfolding g2(2)
    by (simp add: e1_def advanced_def sample_shared_def)
  note r2 = poll_only [OF r1 g2(1) this]
  show ?thesis
    by (rule that [OF r2]) (simp_all add: e1_def advanced_def started_def s(2))
qed


end
