(* ===== verification/Containment.thy ===== *)
theory Containment
  imports Enforcement
begin

text \<open>
  The circuit breaker, end to end: from the breaker of \<^verbatim>\<open>crates/gateway/src/breaker.rs\<close>
  through the balancer and the retry loop of \<^verbatim>\<open>crates/gateway/src/proxy.rs\<close> to the calls
  that a sequence of requests makes to an upstream that fails.
\<close>

section \<open>Calls to one upstream\<close>

definition hits :: "nat \<Rightarrow> ('hm, 's) shared \<Rightarrow> nat" where
  "hits i sh = length (filter (\<lambda>x. fst x = i) (sh_calls sh))"

text \<open>The calls to upstream \<open>i\<close> of a sequence of requests served one after the other.\<close>

fun calls_to :: "nat \<Rightarrow> ('hm, 's) shared \<Rightarrow> ('hm, 's, 'b) job list \<Rightarrow> nat" where
  "calls_to i sh [] = 0"
| "calls_to i sh ((E, c, rq) # jobs) =
     (let sh' = snd (serve_route E c rq (sh\<lparr>sh_calls := []\<rparr>)) in hits i sh' + calls_to i sh' jobs)"

definition brk :: "nat \<Rightarrow> ('hm, 's) shared \<Rightarrow> circuit_breaker" where
  "brk i sh = up_breaker (bal_upstreams (sh_balancer sh) ! i)"

text \<open>Every call to an address fails, with an error or a server error.\<close>

fun failing :: "'hm send_result \<Rightarrow> bool" where
  "failing (SendErr e) \<longleftrightarrow> True"
| "failing (SendOk resp) \<longleftrightarrow> is_server_error (us_status resp)"

definition fails_at :: "string \<Rightarrow> ('hm, 's, 'b) env \<Rightarrow> bool" where
  "fails_at url E \<longleftrightarrow> (\<forall>n q p. ur_url q = url @ p \<longrightarrow> failing (e_send E n q))"

section \<open>What the breaker still admits\<close>

text \<open>The failures a closed breaker still counts before it opens; an open one admits nothing before \<open>D\<close>.\<close>

definition credit :: "circuit_breaker \<Rightarrow> nat" where
  "credit cb = (if st cb = Closed then unat (cb_threshold cb) - unat (fails cb) else 0)"

definition counting :: "instant \<Rightarrow> circuit_breaker \<Rightarrow> bool" where
  "counting D cb \<longleftrightarrow> st cb = Closed \<and> fails cb < cb_threshold cb
     \<or> st cb = Open \<and> (\<exists>u. until cb = Some u \<and> D \<le> u)"

lemma failure_spends:
  assumes "breaker_ok cb" and "clock_fits cb now" and "st cb = Closed" and "counting D cb" and "D \<le> now + cb_open_for cb"
  shows "counting D (snd (record_failure_at cb now)) \<and> credit (snd (record_failure_at cb now)) + 1 = credit cb"
proof -
  have "unat (fails cb) < unat (cb_threshold cb)" using assms(3,4) by (simp add: counting_def word_less_nat_alt)
  moreover from this have "unat (fails cb + 1) = unat (fails cb) + 1"
    using unsigned_less [of "cb_threshold cb", where 'a = nat] by (simp add: unat_word_ariths)
  ultimately show ?thesis
    using record_failure_trip [OF assms(1,2)] record_failure_count [OF assms(1)] assms(3,5)
    by (cases "cb_threshold cb \<le> fails cb + 1") (auto simp: counting_def credit_def word_le_nat_alt word_less_nat_alt)
qed

section \<open>The stages\<close>

lemma brk_simps [simp]:
  "brk i (metric g sh) = brk i sh" "brk i (record_request E r m code sh) = brk i sh"
  "brk i (sh\<lparr>sh_calls := l\<rparr>) = brk i sh" "brk i (sh\<lparr>sh_limiter := lim\<rparr>) = brk i sh"
  "brk i (sh\<lparr>sh_cache := ca\<rparr>) = brk i sh" "brk i (snd (store_in_cache E k code ps b sh)) = brk i sh"
  by (simp_all add: brk_def)

lemma brk_interfere: "others_keep (brk i) E \<Longrightarrow> brk i (interfere E a sh) = brk i sh"
  by (simp add: others_keep_def interfere_def)

lemmas brk_bindr = keeps_bindr [where v = "brk i" for i]

lemma brk_drop_guard [simp]: "i < length (bal_upstreams (sh_balancer sh)) \<Longrightarrow> brk i (drop_guard j sh) = brk i sh"
  by (simp add: brk_def guard_drop_nth)

lemma brk_on_breaker:
  "i < length (bal_upstreams (sh_balancer sh)) \<Longrightarrow>
   brk i (snd (on_balancer (on_breaker j m) sh)) = (if j = i then snd (m (brk i sh)) else brk i sh)"
  by (auto simp: brk_def on_balancer_def on_breaker_def case_prod_beta upd_upstream_nth)

lemma brk_finish: "others_keep (brk i) E \<Longrightarrow> brk i (snd (finish_response E c resp sh)) = brk i sh"
  by (auto simp: finish_response_def Let_def brk_interfere intro!: brk_bindr split: option.splits)

lemma brk_return: "others_keep (brk i) E \<Longrightarrow> brk i (snd (return_response E c resp sh)) = brk i sh"
  unfolding return_response_def by (rule brk_bindr) (auto simp: brk_finish)

lemma get_state_keeps: "breaker_ok cb \<Longrightarrow> snd (breaker_get_state cb) = cb"
  by (simp add: breaker_get_state_def breaker_ok_def lock_simps)

text \<open>
  \<open>contained\<close>: the state is usable, upstream \<open>i\<close> is closed or open until \<open>D\<close>, and its calls so far
  and the failures it may still count are at most \<open>N\<close>.
\<close>

definition contained ::
  "nat \<Rightarrow> instant \<Rightarrow> (string \<times> duration) list \<times> duration option \<Rightarrow> nat \<Rightarrow> ('hm, 's) shared \<Rightarrow> bool" where
  "contained i D x N sh \<longleftrightarrow> shared_ok sh \<and> static_view sh = x \<and> i < length (fst x)
     \<and> counting D (brk i sh) \<and> hits i sh + credit (brk i sh) \<le> N"

lemma contained_keeps:
  assumes "contained i D x N sh" and "shared_ok s" and "static_view s = x" and "brk i s = brk i sh" and "hits i s = hits i sh"
  shows "contained i D x N s"
  using assms by (simp add: contained_def)

lemma contained_pick:
  assumes "contained i D x N sh" and "\<And>k. clk k < D" and "on_balancer (pick ex clk) sh = (r, t)"
  shows "\<exists>sel. r = Ret sel \<and> contained i D x N t \<and> (sel = Some i \<longrightarrow> st (brk i t) = Closed)
     \<and> (\<forall>j. sel = Some j \<longrightarrow> j < length (fst x))"
proof -
  have ok: "shared_ok sh" "static_view sh = x" "bal_ok (sh_balancer sh)" and i: "i < length (bal_upstreams (sh_balancer sh))"
    using assms(1) by (auto simp: contained_def shared_ok_def in_range)
  obtain sel where t: "r = Ret sel" "shared_ok t" "static_view t = x"
    using pick_returns [OF ok(1), of ex clk] assms(3) ok(2) by (auto simp: returns_def)
  from assms(3) obtain b where p: "pick ex clk (sh_balancer sh) = (Ret sel, b)" and tb: "t = sh\<lparr>sh_balancer := b\<rparr>"
    by (auto simp: on_balancer_def t(1) split: prod.splits)
  have hits: "hits i t = hits i sh" by (simp add: tb hits_def)
  have sel: "\<forall>j. sel = Some j \<longrightarrow> j < length (fst x)"
    using pick_any [OF p] ok(2) by (auto simp: static_view_def)
  show ?thesis
  proof (cases "st (brk i sh) = Closed")
    case True
    obtain b1 where b1: "bal_frame (sh_balancer sh) b1" "b = b1 \<or> (\<exists>j. b = guard_new j b1)"
      using p pick_none [OF ok(3)] pick_some [OF ok(3)] by (cases sel) metis+
    have "up_breaker (bal_upstreams b ! i) = up_breaker (bal_upstreams b1 ! i)"
      using b1 i by (auto simp: guard_new_nth bal_frame_length)
    with bal_frame_nth [OF b1(1) i] True have "st (brk i t) = Closed" "fails (brk i t) = fails (brk i sh)"
      "cb_threshold (brk i t) = cb_threshold (brk i sh)"
      by (auto simp: probed_def brk_def tb)
    with True assms(1) t hits sel show ?thesis by (auto simp: contained_def counting_def credit_def)
  next
    case False
    then obtain u where "st (brk i sh) = Open" "until (brk i sh) = Some u" "D \<le> u"
      using assms(1) by (auto simp: contained_def counting_def)
    then have "\<not> admits (bal_upstreams (sh_balancer sh) ! i) (clk k)" for k
      using assms(2) [of k] by (auto simp: admits_def blocked_def brk_def)
    from pick_untouched [where clk = clk, OF i this, of ex] p have "brk i t = brk i sh" "sel \<noteq> Some i"
      by (auto simp: untouched_def brk_def tb)
    with contained_keeps [OF assms(1) t(2,3) _ hits] t(1) sel show ?thesis by simp
  qed
qed

lemma brk_call:
  fixes sh :: "('hm, 's) shared"
  assumes "others_keep (brk i) E" and "shared_ok sh" and "env_ok E x" and "static_view sh = x" and "i < length (fst x)"
  shows "brk i (snd (call_upstream E c f n j sh)) = brk i sh"
proof -
  have "brk i (snd (on_balancer (on_breaker j breaker_get_state) s)) = brk i s"
    if "shared_ok s" "static_view s = x" for s :: "('hm, 's) shared"
    using in_range [OF that(2) assms(5)] shared_ok_breaker [OF that(1) in_range [OF that(2) assms(5)]]
    by (simp add: brk_on_breaker get_state_keeps flip: brk_def)
  moreover have "shared_ok (interfere E (AtSend n) (sh\<lparr>sh_calls := l\<rparr>))"
    "static_view (interfere E (AtSend n) (sh\<lparr>sh_calls := l\<rparr>)) = x" for l
    using interfere_ok [OF assms(3), of "sh\<lparr>sh_calls := l\<rparr>" "AtSend n"] assms(2,4) by simp_all
  ultimately show ?thesis
    unfolding call_upstream_def Let_def using env_ok_dropped [OF assms(3)] brk_interfere [OF assms(1)]
    by (auto intro!: brk_bindr)
qed

lemma brk_attempt_other:
  assumes "others_keep (brk i) E" and "env_ok E x" and "shared_ok sh" and "static_view sh = x"
    and "i < length (fst x)" and "j < length (fst x)" and "j \<noteq> i"
  shows "brk i (snd (attempt_once E c f n j sh)) = brk i sh"
proof -
  obtain a s where a: "call_upstream E c f n j sh = (Ret a, s)" "shared_ok s" "static_view s = x"
    using call_upstream_returns [OF assms(2-4,6), of c f n] by (auto simp: returns_def)
  have "brk i s = brk i sh" using brk_call [OF assms(1,3,2,4,5), of c f n j] a(1) by simp
  moreover have "brk i (snd (note_failure E c n j s)) = brk i s"
    unfolding note_failure_def using in_range [OF a(3) assms(5)] assms(7)
    by (intro brk_bindr) (simp_all add: brk_on_breaker)
  moreover have "brk i (snd (on_balancer (on_breaker j record_success) s)) = brk i s"
    using in_range [OF a(3) assms(5)] assms(7) by (simp add: brk_on_breaker)
  ultimately show ?thesis
    using brk_return [OF assms(1)] by (auto simp: attempt_once_def a(1) Let_def intro!: brk_bindr split: send_result.split)
qed

lemma attempt_spends:
  assumes "others_keep (brk i) E" and "env_ok E x" and "shared_ok sh" and "static_view sh = x" and "i < length (fst x)"
    and "fails_at (fst (fst x ! i)) E"
  shows "brk i (snd (attempt_once E c f n i sh)) = snd (record_failure_at (brk i sh) (e_fail_now E n))"
proof -
  obtain a s where a: "call_upstream E c f n i sh = (Ret a, s)" "shared_ok s" "static_view s = x"
    using call_upstream_returns [OF assms(2-5), of c f n] by (auto simp: returns_def)
  have s: "brk i s = brk i sh" using brk_call [OF assms(1,3,2,4,5), of c f n i] a(1) by simp
  have "up_url (bal_upstreams (sh_balancer sh) ! i) = fst (fst x ! i)"
    using assms(4) in_range [OF assms(4,5)] by (auto simp: static_view_def)
  then have "failing a"
    using call_upstream_result [of E c f n i sh a] a(1) assms(6) by (simp add: fails_at_def upstream_request_def)
  moreover have "brk i (snd (note_failure E c n i s)) = snd (record_failure_at (brk i s) (e_fail_now E n))"
    unfolding note_failure_def using in_range [OF a(3) assms(5)]
    by (intro brk_bindr) (simp_all add: brk_on_breaker)
  ultimately show ?thesis
    using brk_return [OF assms(1)] s
    by (auto simp: attempt_once_def a(1) Let_def intro!: brk_bindr split: send_result.split)
qed

lemma contained_attempt:
  assumes "contained i D x N sh" and "env_ok E x" and "others_keep (brk i) E" and "fails_at (fst (fst x ! i)) E"
    and "D \<le> e_fail_now E n + snd (fst x ! i)" and "j < length (fst x)" and "j = i \<longrightarrow> st (brk i sh) = Closed"
    and "attempt_once E c f n j sh = (r, s)"
  shows "(\<exists>out. r = Ret out) \<and> contained i D x N (drop_guard j s)"
proof -
  have sh: "shared_ok sh" "static_view sh = x" "i < length (fst x)" using assms(1) by (auto simp: contained_def)
  obtain out where s: "r = Ret out" "shared_ok s" "static_view s = x"
    using attempt_once_returns [OF assms(2) sh(1,2) assms(6), of c f n] assms(8) by (auto simp: returns_def)
  have calls: "hits i s = hits i sh + (if j = i then 1 else 0)"
    using calls_attempt_once [of E c f n j sh] assms(8) by (simp add: hits_def)
  have i: "i < length (bal_upstreams (sh_balancer sh))" using in_range [OF sh(2,3)] .
  have c: "contained i D x N s"
  proof (cases "j = i")
    case True
    have open_for: "cb_open_for (brk i sh) = snd (fst x ! i)" using sh(2) i by (auto simp: static_view_def brk_def)
    have "breaker_ok (brk i sh)" using shared_ok_breaker [OF sh(1) i] by (simp add: brk_def)
    moreover have "clock_fits (brk i sh) (e_fail_now E n)" using failure_fits [OF assms(2) sh(2) i] by (simp add: brk_def)
    ultimately have "counting D (brk i s) \<and> credit (brk i s) + 1 = credit (brk i sh)"
      using failure_spends [of "brk i sh" "e_fail_now E n" D] attempt_spends [OF assms(3,2) sh assms(4), of c f n]
        True assms(1,5,7,8) open_for by (simp add: contained_def)
    with assms(1) s sh(3) calls True show ?thesis by (simp add: contained_def)
  next
    case False
    have "brk i s = brk i sh" using brk_attempt_other [OF assms(3,2) sh assms(6) False, of c f n] assms(8) by simp
    with contained_keeps [OF assms(1) s(2,3)] calls False show ?thesis by simp
  qed
  have "contained i D x N (drop_guard j s)"
    using drop_guard_ok [OF s(2) in_range [OF s(3) assms(6)]] s(3) in_range [OF s(3) sh(3)]
    by (intro contained_keeps [OF c]) (simp_all add: hits_def)
  with s(1) show ?thesis by simp
qed

lemma contained_attempts:
  assumes "env_ok E x" and "others_keep (brk i) E" and "fails_at (fst (fst x ! i)) E"
    and "\<And>n k. e_pick_now E n k < D" and "\<And>n. D \<le> e_fail_now E n + snd (fst x ! i)" and "contained i D x N sh"
  shows "contained i D x N (snd (attempts E c f k ex sh))"
  using assms(6)
proof (induction k arbitrary: ex sh)
  case 0
  then show ?case by (simp add: contained_def hits_def)
next
  case (Suc k)
  let ?n = "fw_max_attempts f - Suc k"
  obtain r t where p: "on_balancer (pick ex (e_pick_now E ?n)) sh = (r, t)" by (rule prod.exhaust)
  then obtain sel where t: "r = Ret sel" "contained i D x N t" "sel = Some i \<longrightarrow> st (brk i t) = Closed"
    "\<forall>j. sel = Some j \<longrightarrow> j < length (fst x)"
    using contained_pick [OF Suc.prems assms(4) p] by blast
  show ?case
  proof (cases sel)
    case None
    with p t show ?thesis by (simp add: contained_def hits_def)
  next
    case (Some j)
    obtain out s where a: "attempt_once E c f ?n j t = (out, s)" by (rule prod.exhaust)
    have "(\<exists>o'. out = Ret o') \<and> contained i D x N (drop_guard j s)"
      by (rule contained_attempt [OF t(2) assms(1-3,5) _ _ a]) (use Some t(3,4) in auto)
    with Suc.IH [of "drop_guard j s" "ex @ [j]"] p t(1) Some a show ?thesis
      by (auto simp: Let_def split: outcome.split)
  qed
qed

lemma contained_serve:
  assumes "env_ok E x" and "others_keep (brk i) E" and "fails_at (fst (fst x ! i)) E"
    and "\<And>n k. e_pick_now E n k < D" and "\<And>n. D \<le> e_fail_now E n + snd (fst x ! i)" and "contained i D x N sh"
  shows "contained i D x N (snd (serve_route E c rq sh))"
proof -
  note keep = brk_interfere [OF assms(2)]
  have fwd: "contained i D x N (snd (forward_stage E c rq s))" if "contained i D x N s" for s
  proof -
    have s: "contained i D x N (interfere E AtBody s)"
      using interfere_ok [OF assms(1), of s AtBody] that keep
      by (intro contained_keeps [OF that]) (simp_all add: contained_def hits_def)
    then have "contained i D x N (record_request E r m code (interfere E AtBody s))" for r m code
      by (simp add: contained_def hits_def)
    with s contained_attempts [OF assms(1-5)] env_ok_dropped [OF assms(1)] show ?thesis
      by (simp add: forward_stage_def Let_def split: option.split)
  qed
  have stage: "contained i D x N (snd (unless_answered m g))"
    if "contained i D x N s" "returns x m" "brk i (snd m) = brk i s" "sh_calls (snd m) = sh_calls s"
      "\<And>s. contained i D x N s \<Longrightarrow> contained i D x N (snd (g s))" for m g s
  proof -
    from that(2) obtain a t where m: "m = (Ret a, t)" "shared_ok t" "static_view t = x" by (auto simp: returns_def)
    have "contained i D x N t"
      using m that(3,4) by (intro contained_keeps [OF that(1)]) (simp_all add: hits_def)
    with m(1) that(5) show ?thesis by (cases a) simp_all
  qed
  have brks: "brk i (snd (auth_stage E c s)) = brk i s" "brk i (snd (rate_stage E c s)) = brk i s"
    "brk i (snd (cache_stage E c s)) = brk i s" for s
    by (auto simp: auth_stage_def rate_stage_def cache_stage_def Let_def case_prod_beta keep
        intro!: brk_bindr split: sum.splits option.splits)
  have ok: "shared_ok s" "static_view s = x" if "contained i D x N s" for s using that by (simp_all add: contained_def)
  show ?thesis
    unfolding serve_route_def
  proof (rule stage [OF assms(6) auth_stage_returns [OF ok [OF assms(6)]]])
    show "contained i D x N (snd (unless_answered (rate_stage E c s) (\<lambda>s. unless_answered (cache_stage E c s) (forward_stage E c rq))))"
      if "contained i D x N s" for s
    proof (rule stage [OF that rate_stage_returns [OF assms(1) ok [OF that]]])
      show "contained i D x N (snd (unless_answered (cache_stage E c s) (forward_stage E c rq)))"
        if "contained i D x N s" for s
        by (rule stage [OF that cache_stage_returns [OF ok [OF that]]]) (simp_all add: brks fwd)
    qed (simp_all add: brks)
  qed (simp_all add: brks)
qed

section \<open>Property\<close>

lemma calls_to_le:
  assumes "\<forall>(E, c, rq) \<in> set jobs. env_ok E x \<and> others_keep (brk i) E \<and> fails_at (fst (fst x ! i)) E
         \<and> (\<forall>n k. e_pick_now E n k < D) \<and> (\<forall>n. D \<le> e_fail_now E n + snd (fst x ! i))"
    and "contained i D x N (sh\<lparr>sh_calls := []\<rparr>)"
  shows "calls_to i sh jobs \<le> N"
  using assms
proof (induction jobs arbitrary: sh N)
  case (Cons job jobs)
  obtain E c rq where job: "job = (E, c, rq)" by (cases job)
  let ?sh = "snd (serve_route E c rq (sh\<lparr>sh_calls := []\<rparr>))"
  have c: "contained i D x N ?sh"
    using Cons.prems job by (intro contained_serve) auto
  then have "contained i D x (N - hits i ?sh) (?sh\<lparr>sh_calls := []\<rparr>)"
    by (auto simp: contained_def hits_def)
  with Cons.IH [of "N - hits i ?sh" ?sh] Cons.prems(1) have "calls_to i ?sh jobs \<le> N - hits i ?sh" by simp
  moreover have "hits i ?sh \<le> N" using c by (simp add: contained_def)
  ultimately show ?case by (simp add: job Let_def)
qed simp

text \<open>C12. The breaker contains a failing upstream: of any sequence of requests to a route, whatever their
  retries, the strategy and the answers of the other upstreams, at most as many calls reach an
  upstream that fails every time as its breaker has failures left to its threshold, until the
  cooldown after its first failure is over.\<close>

theorem failing_upstream_contained:
  assumes "shared_ok sh" and "i < length (bal_upstreams (sh_balancer sh))"
    and "st (brk i sh) = Closed" and "fails (brk i sh) < cb_threshold (brk i sh)"
    and "\<forall>(E, c, rq) \<in> set jobs. env_ok E (static_view sh) \<and> others_keep (brk i) E
         \<and> fails_at (up_url (bal_upstreams (sh_balancer sh) ! i)) E
         \<and> (\<forall>n k. e_pick_now E n k < D) \<and> (\<forall>n. D \<le> e_fail_now E n + cb_open_for (brk i sh))"
  shows "calls_to i sh jobs + unat (fails (brk i sh)) \<le> unat (cb_threshold (brk i sh))"
proof -
  have x: "fst (fst (static_view sh) ! i) = up_url (bal_upstreams (sh_balancer sh) ! i)"
    "snd (fst (static_view sh) ! i) = cb_open_for (brk i sh)" "i < length (fst (static_view sh))"
    using assms(2) by (simp_all add: static_view_def brk_def)
  let ?N = "unat (cb_threshold (brk i sh)) - unat (fails (brk i sh))"
  have "contained i D (static_view sh) ?N (sh\<lparr>sh_calls := []\<rparr>)"
    using assms(1,3,4) x(3) by (simp add: contained_def counting_def credit_def hits_def)
  from calls_to_le [OF _ this, of jobs] assms(5) x have "calls_to i sh jobs \<le> ?N" by simp
  moreover have "unat (fails (brk i sh)) \<le> unat (cb_threshold (brk i sh))"
    using assms(4) by (simp add: word_less_nat_alt)
  ultimately show ?thesis by simp
qed

theorem failing_upstream_contained_witness:
  "calls_to 0 sample_shared (replicate 9 (sample_env, sample_ctx ''POST'', sample_request ''POST'')) \<le> 5"
proof -
  have b: "0 < length (bal_upstreams (sh_balancer sample_shared))"
    "brk 0 sample_shared = breaker_new 5 10"
    by (simp_all add: brk_def sample_shared_def bal0_def sample_target_def route_with_defaults_def from_route_def
        upstream_from_def circuit_breaker_config_default_def default_cb_threshold_def default_cb_open_secs_def)
  have t: "cb_threshold (breaker_new 5 10) = 5" "1 \<le> cb_open_for (breaker_new 5 10)"
    by (simp_all add: breaker_new_def from_secs_def nanos_per_sec_def max_def word_le_nat_alt)
  have "env_ok sample_env (static_view sample_shared) \<and> others_keep (brk 0) sample_env
      \<and> fails_at (up_url (bal_upstreams (sh_balancer sample_shared) ! 0)) sample_env
      \<and> (\<forall>n k. e_pick_now sample_env n k < 1) \<and> (\<forall>n. 1 \<le> e_fail_now sample_env n + cb_open_for (brk 0 sample_shared))"
    using sample_env_ok t(2) by (simp add: others_keep_def fails_at_def b(2))
  with failing_upstream_contained [OF sample_shared_ok b(1), of
      "replicate 9 (sample_env, sample_ctx ''POST'', sample_request ''POST'')" 1]
  show ?thesis by (simp add: b(2) t(1))
qed

end
