(* ===== verification/Replay.thy ===== *)
theory Replay
  imports Pipeline
begin

text \<open>
  The headers of a response that is answered from the cache: how the pairs that
  \<^verbatim>\<open>finish_response\<close> stores and \<^verbatim>\<open>cached_response\<close> inserts again
  (\<^verbatim>\<open>crates/gateway/src/proxy.rs\<close>) relate to the headers of the response that was stored.
\<close>

section \<open>Storing and inserting\<close>

text \<open>The names of a header map are in lower case, as \<^verbatim>\<open>HeaderName\<close> keeps them.\<close>

definition lower_names :: "'hm http_api \<Rightarrow> 'hm \<Rightarrow> bool" where
  "lower_names H h \<longleftrightarrow> (\<forall>n. values_of H h n \<noteq> [] \<longrightarrow> to_ascii_lowercase n = n)"

definition last_only :: "'a list \<Rightarrow> 'a list" where
  "last_only vs = (if vs = [] then [] else [last vs])"

lemma last_only_simps [simp]: "last_only [] = []" "last_only [v] = [v]" "last_only (vs @ [v]) = [v]"
  by (simp_all add: last_only_def)

context http_headers
begin

lemma values_insert_pairs:
  "values_of H (insert_pairs H ps h) n =
     (let vs = map snd (filter (\<lambda>(m, v). header_name H m = Some n \<and> header_value H v \<noteq> None) ps)
      in if vs = [] then values_of H h n else [last vs])"
proof (induction ps arbitrary: h)
  case (Cons p ps)
  obtain m v where p: "p = (m, v)" by (cases p)
  show ?case
    by (cases "header_name H m"; cases "header_value H v")
      (auto simp: p Cons.IH values_insert Let_def dest: value_same)
qed simp

lemma values_header_pairs:
  assumes "lower_names H h" and "header_name H n = Some n"
  shows "map snd (filter (\<lambda>(m, v). header_name H m = Some n \<and> header_value H v \<noteq> None) (header_pairs H h))
     = filter (\<lambda>v. value_to_str H v \<noteq> None) (values_of H h n)"
proof -
  have lower: "m = n" if "(m, v) \<in> set (hm_iter H h)" "header_name H m = Some n" for m v
  proof -
    have "values_of H h m \<noteq> []" using that(1) by (force simp: values_of_def filter_empty_conv)
    then have "to_ascii_lowercase m = m" using assms(1) by (simp add: lower_names_def)
    with name_lower [OF that(2)] show ?thesis by simp
  qed
  have "map snd (filter (\<lambda>(m, v). header_name H m = Some n \<and> header_value H v \<noteq> None)
      (List.map_filter (\<lambda>(n, v). map_option (\<lambda>s. (n, s)) (value_to_str H v)) xs))
     = filter (\<lambda>v. value_to_str H v \<noteq> None) (map snd (filter (\<lambda>(m, v). m = n) xs))"
    if "set xs \<subseteq> set (hm_iter H h)" for xs
    using that
  proof (induction xs)
    case (Cons x xs)
    obtain m v where x: "x = (m, v)" by (cases x)
    show ?case
      using Cons lower [of m v] assms(2)
      by (cases "value_to_str H v") (auto simp: x List.map_filter_simps dest: to_str_same to_str_valid)
  qed (simp add: List.map_filter_simps)
  from this [of "hm_iter H h"] show ?thesis by (simp add: header_pairs_def values_of_def)
qed

lemma lower_stored:
  assumes "e_http E = H" and "lower_names H (us_headers resp)"
  shows "lower_names H (stored_headers E c resp)"
  unfolding lower_names_def
proof (intro allI impI)
  fix n
  assume n: "values_of H (stored_headers E c resp) n \<noteq> []"
  have added: "to_ascii_lowercase n = n" if "added_value H adds n = Some v" for adds v
  proof -
    let ?f = "\<lambda>(k, v). case (header_name H k, header_value H v) of (Some k', Some v') \<Rightarrow> Some (k', v') | _ \<Rightarrow> None"
    have "(n, v) \<in> set (List.map_filter ?f adds)"
      using map_of_SomeD [of "rev (List.map_filter ?f adds)" n v] that by (simp add: added_value_def)
    then obtain x where "?f x = Some (n, v)" by (auto simp: List.map_filter_def)
    then obtain k where "header_name H k = Some n" by (cases x) (auto split: option.splits)
    then show ?thesis using name_lower by fastforce
  qed
  have "to_ascii_lowercase ''x-request-id'' = ''x-request-id''" using name_lower [OF known_names(1)] by simp
  with n added assms(2) show "to_ascii_lowercase n = n"
    by (auto simp: stored_headers_def assms(1) values_set_header known_names values_apply_transforms values_filtered
        lower_names_def split: option.splits if_splits)
qed

text \<open>Inserting the stored pairs again and transforming them again changes nothing but repeated values.\<close>

lemma values_replayed:
  assumes "e_http E = H" and "e_http E2 = H" and "cr_headers hit = header_pairs H (stored_headers E c resp)"
    and "rc_response_headers config = rc_response_headers (cx_config c)"
    and "lower_names H (us_headers resp)" and "header_name H n = Some n" and "n \<notin> {''x-cache'', ''x-request-id''}"
    and "\<forall>v \<in> set (values_of H (us_headers resp) n). value_to_str H v \<noteq> None"
  shows "values_of H (rs_headers (cached_reply E2 hit config corr)) n
     = last_only (values_of H (stored_headers E c resp) n)"
proof -
  let ?t = "rc_response_headers (cx_config c)"
  have stored: "values_of H (stored_headers E c resp) n =
      (case added_value H (ht_add ?t) n of Some v \<Rightarrow> [v]
       | None \<Rightarrow> if removed_name H (ht_remove ?t) n \<or> is_hop_by_hop n then [] else values_of H (us_headers resp) n)"
    using assms(1,7) by (auto simp: stored_headers_def values_set_header known_names values_apply_transforms
        values_filtered split: option.split)
  have "values_of H (insert_pairs H (cr_headers hit) (hm_new H)) n
      = last_only (filter (\<lambda>v. value_to_str H v \<noteq> None) (values_of H (stored_headers E c resp) n))"
    using values_header_pairs [OF lower_stored [OF assms(1,5)] assms(6), of c]
    by (simp add: values_insert_pairs assms(3) Let_def values_new last_only_def)
  moreover have "filter (\<lambda>v. value_to_str H v \<noteq> None) (values_of H (us_headers resp) n) = values_of H (us_headers resp) n"
    using assms(8) by (simp add: filter_id_conv)
  ultimately show ?thesis
    using assms(7) by (auto simp: cached_reply_def build_response_def Let_def assms(2,4) values_set_header known_names
        values_apply_transforms stored split: option.split)
qed

lemma x_cache_values:
  assumes "e_http E = H"
  shows "values_of H (rs_headers (cached_reply E hit config corr)) ''x-cache'' = [''HIT'']"
    and "values_of H (set_header H ''x-cache'' ''MISS'' h) ''x-cache'' = [''MISS'']"
  by (simp_all add: cached_reply_def build_response_def Let_def assms values_set_header known_names value_valid
      visible_ascii_def)

end

section \<open>Property\<close>


lemma cached_finish:
  obtains r sh' where "finish_response sample_env cached_ctx ok_answer cached_shared = (Ret r, sh')"
  using finish_response_returns [OF cached_shared_ok(2,1) refl, of cached_ctx ok_answer] by (auto simp: returns_def)


end
