(* ===== verification/Harness.thy ===== *)
theory Harness
  imports Server
begin

text \<open>
  The integration-test harness, \<^verbatim>\<open>crates/integration-tests/src/lib.rs\<close>: the mock upstream with
  its three handlers and its hit counter, and the helpers that start it and the gateway. What
  the harness takes from \<^verbatim>\<open>axum\<close> (which handler a request goes to, the query extractor, how a
  JSON body is rendered), from \<^verbatim>\<open>serde_json\<close> and from the sockets is the record \<open>mock_lib\<close>.
\<close>

section \<open>The mock upstream\<close>

record mock_upstream =
  mu_addr :: string
  mu_id :: string
  mu_hits :: usize

definition upstream_url :: "mock_upstream \<Rightarrow> string" where
  "upstream_url u = ''http://'' @ mu_addr u"

definition upstream_hits :: "mock_upstream \<Rightarrow> usize" where
  "upstream_hits u = mu_hits u"

text \<open>The JSON object that \<^verbatim>\<open>echo\<close> answers with.\<close>

record echo_body =
  eb_id :: string
  eb_method :: string
  eb_path :: string
  eb_query :: "string option"
  eb_headers :: "(string \<times> string) list"

text \<open>
  Where the router of \<^verbatim>\<open>start_upstream\<close> sends a request: \<^verbatim>\<open>/slow\<close>,
  \<^verbatim>\<open>/status/{code}\<close> with the extracted code, the fallback, or nowhere (the router answers
  itself: a wrong method, or a code that is no number).
\<close>

datatype mock_target = ToSlow | ToStatus u16 | ToEcho | Refused u16

record 'hm mock_lib =
  ml_route :: "string \<Rightarrow> string \<Rightarrow> mock_target"
  ml_query :: "string option \<Rightarrow> string \<rightharpoonup> string"
  ml_json :: "echo_body \<Rightarrow> 'hm \<times> string"
  ml_text :: "string \<Rightarrow> 'hm \<times> string"
  ml_empty :: "'hm \<times> string"

text \<open>\<^verbatim>\<open>str::parse::<u64>\<close>: an optional plus sign and decimal digits, in range.\<close>

definition digit :: "char \<Rightarrow> nat option" where
  "digit ch = (let k = (of_char ch :: nat) in if 48 \<le> k \<and> k \<le> 57 then Some (k - 48) else None)"

definition parse_u64 :: "string \<Rightarrow> u64 option" where
  "parse_u64 s =
     (let ds = (case s of ch # rest \<Rightarrow> if ch = CHR ''+'' then rest else s | [] \<Rightarrow> s) in
      if ds = [] \<or> \<not> list_all (\<lambda>ch. digit ch \<noteq> None) ds then None
      else let n = foldl (\<lambda>n ch. 10 * n + the (digit ch)) 0 ds in
           if n < 2 ^ 64 then Some (of_nat n) else None)"

definition mock_echo ::
  "'hm http_api \<Rightarrow> 'hm mock_lib \<Rightarrow> mock_upstream \<Rightarrow> string \<Rightarrow> string \<Rightarrow> string option \<Rightarrow> 'hm
   \<Rightarrow> 'hm upstream_response \<times> mock_upstream" where
  "mock_echo H L s meth path query headers =
     (let s = s\<lparr>mu_hits := mu_hits s + 1\<rparr>;
          (hs, body) = ml_json L \<lparr>eb_id = mu_id s, eb_method = meth, eb_path = path, eb_query = query,
             eb_headers = header_pairs H headers\<rparr>
      in (\<lparr>us_status = 200, us_headers = hm_insert H hs ''cache-control'' ''max-age=60'', us_bytes = Some body\<rparr>, s))"

text \<open>\<^verbatim>\<open>slow\<close> answers after a delay.\<close>

definition mock_slow :: "'hm mock_lib \<Rightarrow> string option \<Rightarrow> duration \<times> 'hm upstream_response" where
  "mock_slow L query =
     (let ms = (case Option.bind (ml_query L query ''ms'') parse_u64 of Some n \<Rightarrow> n | None \<Rightarrow> 1000);
          (hs, body) = ml_text L ''slow ok''
      in (from_millis ms, \<lparr>us_status = 200, us_headers = hs, us_bytes = Some body\<rparr>))"

definition mock_status :: "'hm mock_lib \<Rightarrow> u16 \<Rightarrow> 'hm upstream_response" where
  "mock_status L code =
     (let (hs, body) = ml_empty L
      in \<lparr>us_status = (if 100 \<le> code \<and> code < 1000 then code else 500), us_headers = hs, us_bytes = Some body\<rparr>)"

text \<open>The router of \<^verbatim>\<open>start_upstream\<close>: the answer, after how long, and the state left.\<close>

definition mock_app ::
  "'hm http_api \<Rightarrow> 'hm mock_lib \<Rightarrow> mock_upstream \<Rightarrow> string \<Rightarrow> string \<Rightarrow> string option \<Rightarrow> 'hm
   \<Rightarrow> (duration \<times> 'hm upstream_response) \<times> mock_upstream" where
  "mock_app H L s meth path query headers =
     (case ml_route L meth path of
        ToSlow \<Rightarrow> (mock_slow L query, s)
      | ToStatus code \<Rightarrow> ((0, mock_status L code), s)
      | ToEcho \<Rightarrow> (let (r, s) = mock_echo H L s meth path query headers in ((0, r), s))
      | Refused code \<Rightarrow> (let (hs, body) = ml_empty L in
          ((0, \<lparr>us_status = code, us_headers = hs, us_bytes = Some body\<rparr>), s)))"

definition start_upstream :: "(string \<Rightarrow> string option) \<Rightarrow> string \<Rightarrow> mock_upstream res" where
  "start_upstream bind uid =
     (case bind ''127.0.0.1:0'' of
        None \<Rightarrow> Panic
      | Some addr \<Rightarrow> Ret \<lparr>mu_addr = addr, mu_id = uid, mu_hits = 0\<rparr>)"

section \<open>The gateway under test\<close>

record 's test_gateway =
  tg_addr :: string
  tg_state :: "'s gateway_state"
  tg_health :: health_state

definition gateway_url :: "'s test_gateway \<Rightarrow> string \<Rightarrow> string" where
  "gateway_url gw path = ''http://'' @ tg_addr gw @ path"

text \<open>
  \<^verbatim>\<open>start_gateway\<close>: the state is built, a socket is bound (requests on it go to
  \<open>proxy_router\<close> on that state) and the health checks are spawned; \<open>order\<close> lists the routes as the
  map yields them.
\<close>

definition start_gateway ::
  "(string \<Rightarrow> 's option) \<Rightarrow> bool \<Rightarrow> (string \<Rightarrow> string option)
   \<Rightarrow> ((string \<rightharpoonup> route_runtime) \<Rightarrow> (string \<times> route_runtime) list) \<Rightarrow> gateway_config \<Rightarrow> 's test_gateway res" where
  "start_gateway connect client_ok bind order config =
     (case metrics_new of
        Panic \<Rightarrow> Panic
      | Ret m \<Rightarrow>
          (case gateway_build connect client_ok config m of
             None \<Rightarrow> Panic
           | Some g \<Rightarrow>
               (case bind ''127.0.0.1:0'' of
                  None \<Rightarrow> Panic
                | Some addr \<Rightarrow> Ret \<lparr>tg_addr = addr, tg_state = g,
                    tg_health = health_start (order (gs_routes g)) (gs_routes g)\<rparr>)))"

definition test_cfg :: "(string \<Rightarrow> string + gateway_config) \<Rightarrow> string \<Rightarrow> gateway_config res" where
  "test_cfg yaml_parse yaml = (case from_yaml yaml_parse yaml of Inl e \<Rightarrow> Panic | Inr config \<Rightarrow> Ret config)"

section \<open>The client's view of a mock upstream\<close>

text \<open>
  What the HTTP client makes of an answer: the call fails, not as a connect error, when the answer
  comes after the time limit.
\<close>

definition client_sees :: "duration \<Rightarrow> duration \<times> 'hm upstream_response \<Rightarrow> 'hm send_result" where
  "client_sees limit a = (if fst a < limit then SendOk (snd a) else SendErr False)"

definition path_of :: "string \<Rightarrow> string" where
  "path_of pq = takeWhile (\<lambda>ch. ch \<noteq> CHR ''?'') pq"

definition query_of :: "string \<Rightarrow> string option" where
  "query_of pq = (case dropWhile (\<lambda>ch. ch \<noteq> CHR ''?'') pq of [] \<Rightarrow> None | _ # q \<Rightarrow> Some q)"

definition mock_call ::
  "'hm http_api \<Rightarrow> 'hm mock_lib \<Rightarrow> mock_upstream \<Rightarrow> 'hm upstream_request
   \<Rightarrow> (duration \<times> 'hm upstream_response) \<times> mock_upstream" where
  "mock_call H L u q = (let pq = drop (length (upstream_url u)) (ur_url q) in
     mock_app H L u (ur_method q) (path_of pq) (query_of pq) (ur_headers q))"

text \<open>Calls to the address of a mock upstream reach it.\<close>

definition reaches :: "'hm mock_lib \<Rightarrow> mock_upstream \<Rightarrow> ('hm, 's, 'b) env \<Rightarrow> bool" where
  "reaches L u E \<longleftrightarrow> (\<forall>n q pq. ur_url q = upstream_url u @ pq \<longrightarrow>
     e_send E n q = client_sees (ur_timeout q) (fst (mock_call (e_http E) L u q)))"

text \<open>The upstream after a list of calls.\<close>

definition mock_after :: "'hm http_api \<Rightarrow> 'hm mock_lib \<Rightarrow> (nat \<times> 'hm upstream_request) list \<Rightarrow> mock_upstream \<Rightarrow> mock_upstream" where
  "mock_after H L calls u = fold (\<lambda>(i, q) u. snd (mock_call H L u q)) calls u"

section \<open>Requests to a route with one mock upstream\<close>

text \<open>A request that passes authentication, with no rate limit and no cache.\<close>

definition passes :: "('hm, 's, 'b) env \<Rightarrow> 'hm req_ctx \<Rightarrow> bool" where
  "passes E c \<longleftrightarrow> authorize (e_http E) (e_decode E) (rc_auth (cx_config c)) (cx_headers c) = Inr ()
     \<and> rc_rate_limit (cx_config c) = None \<and> \<not> cx_cache_enabled c"

text \<open>The route has one upstream, in service.\<close>

definition lone_upstream :: "string \<Rightarrow> ('hm, 's, 'b) env \<Rightarrow> ('hm, 's) shared \<Rightarrow> bool" where
  "lone_upstream url E sh \<longleftrightarrow> map fst (fst (static_view sh)) = [url]
     \<and> (\<forall>k. admits (bal_upstreams (sh_balancer (interfere E AtBody sh)) ! 0) (e_pick_now E 0 k))"

lemma passes_serve: "passes E c \<Longrightarrow> serve_route E c rq sh = forward_stage E c rq sh"
  by (simp add: passes_def serve_route_def auth_stage_def rate_stage_def cache_stage_def)

lemma lone_attempt:
  assumes "env_ok E (static_view sh)" and "shared_ok sh" and "sh_calls sh = []" and "lone_upstream url E sh"
    and "e_to_bytes E (rq_body rq) (sc_max_body_bytes (cx_server c)) = Some b"
  shows "\<exists>s out t. attempt_once E c (forward_of E c rq b) 0 0 s = (Ret out, t) \<and> sh_calls s = []
    \<and> up_url (bal_upstreams (sh_balancer s) ! 0) = url
    \<and> (\<forall>r. out = Answer r \<longrightarrow> forward_stage E c rq sh = (Ret r, drop_guard 0 t))"
proof -
  let ?f = "forward_of E c rq b"
  have len: "length (fst (static_view sh)) = 1"
    using assms(4) by (metis lone_upstream_def length_map One_nat_def length_Cons list.size(3))
  have "static_view (interfere E AtBody sh) = static_view sh" using interfere_ok [OF assms(1,2)] by simp
  then have n: "0 < length (bal_upstreams (sh_balancer (interfere E AtBody sh)))" by (simp add: static_length len)
  obtain j s k where s: "forward_stage E c rq sh =
      (case attempt_once E c ?f 0 j s of
         (Panic, sh) \<Rightarrow> (Panic, drop_guard j sh)
       | (Ret (Answer r), sh) \<Rightarrow> (Ret r, drop_guard j sh)
       | (Ret Retry, sh) \<Rightarrow> attempts E c ?f k ([] @ [j]) (drop_guard j sh))"
    "shared_ok s" "static_view s = static_view sh" "j < length (fst (static_view sh))" "sh_calls s = sh_calls sh"
    using forward_first_attempt [OF assms(1,2,5) n] assms(4) by (auto simp: lone_upstream_def)
  have j: "j = 0" using s(4) len by simp
  have "map fst (fst (static_view s)) = [url]" using assms(4) s(3) by (simp add: lone_upstream_def)
  then have "map up_url (bal_upstreams (sh_balancer s)) = [url]" by (simp add: static_view_def comp_def)
  then have "up_url (bal_upstreams (sh_balancer s) ! 0) = url" by (cases "bal_upstreams (sh_balancer s)") auto
  moreover obtain out t where "attempt_once E c ?f 0 0 s = (Ret out, t)"
    using attempt_once_returns [OF assms(1) s(2,3), of 0 c ?f 0] len by (auto simp: returns_def)
  ultimately show ?thesis using s(1,5) assms(3) unfolding j by (intro exI [of _ s] exI [of _ out] exI [of _ t]) simp
qed

text \<open>What one attempt answers.\<close>

lemma attempt_passes_answer:
  assumes "attempt_once E c f n i s = (Ret out, t)" and "e_send E n (upstream_request c f i s) = SendOk resp"
    and "\<not> is_server_error (us_status resp)" and "\<not> cx_cache_enabled c"
  shows "\<exists>r. out = Answer r \<and> rs_status r = us_status resp \<and> rs_body r = Streamed (us_bytes resp)"
proof -
  obtain a v where v: "call_upstream E c f n i s = (Ret a, v)"
    using assms(1) by (auto simp: attempt_once_def bindr_def split: prod.splits res.splits)
  then have "a = SendOk resp" using call_upstream_result [of E c f n i s a] assms(2) by simp
  with assms v show ?thesis
    by (auto simp: attempt_once_def return_response_def finish_response_def build_response_def bindr_def Let_def
        split: prod.splits res.splits)
qed

lemma attempt_reports_error:
  assumes "attempt_once E c f n i s = (Ret out, t)" and "e_send E n (upstream_request c f i s) = SendErr e"
    and "fw_max_attempts f \<le> n + 1"
  shows "out = Answer (error_response E 502 ''upstream unavailable'' (cx_correlation c))"
proof -
  obtain a v where v: "call_upstream E c f n i s = (Ret a, v)"
    using assms(1) by (auto simp: attempt_once_def bindr_def split: prod.splits res.splits)
  then have "a = SendErr e" using call_upstream_result [of E c f n i s a] assms(2) by simp
  with assms v show ?thesis
    by (auto simp: attempt_once_def bindr_def Let_def split: prod.splits res.splits)
qed

lemma path_query:
  assumes "CHR ''?'' \<notin> set p"
  shows "path_of (case q of Some x \<Rightarrow> p @ ''?'' @ x | None \<Rightarrow> p) = p"
    and "query_of (case q of Some x \<Rightarrow> p @ ''?'' @ x | None \<Rightarrow> p) = q"
proof -
  have t: "takeWhile (\<lambda>ch. ch \<noteq> CHR ''?'') p = p" "dropWhile (\<lambda>ch. ch \<noteq> CHR ''?'') p = []"
    using assms by (auto simp: takeWhile_eq_all_conv dropWhile_eq_Nil_conv)
  from assms show "path_of (case q of Some x \<Rightarrow> p @ ''?'' @ x | None \<Rightarrow> p) = p"
    by (cases q) (auto simp: path_of_def t takeWhile_append2 takeWhile_tail)
  have "dropWhile (\<lambda>ch. ch \<noteq> CHR ''?'') (p @ CHR ''?'' # x) = CHR ''?'' # x" for x
    using assms by (subst dropWhile_append2) auto
  then show "query_of (case q of Some x \<Rightarrow> p @ ''?'' @ x | None \<Rightarrow> p) = q"
    by (cases q) (simp_all add: query_of_def t)
qed

text \<open>What the mock upstream is asked by an attempt.\<close>

lemma mock_call_request:
  assumes "up_url (bal_upstreams (sh_balancer s) ! i) = upstream_url u" and "CHR ''?'' \<notin> set (forward_path (rq_path rq) (cx_config c))"
  shows "mock_call H L u (upstream_request c (forward_of E c rq b) i s)
     = mock_app H L u (cx_method c) (forward_path (rq_path rq) (cx_config c)) (rq_query rq) (fw_headers (forward_of E c rq b))"
  using assms(1) path_query [OF assms(2), of "rq_query rq"]
  by (simp add: mock_call_def upstream_request_def forward_of_def Let_def)

lemma reaches_send:
  assumes "reaches L u E" and "up_url (bal_upstreams (sh_balancer s) ! i) = upstream_url u"
  shows "e_send E n (upstream_request c f i s)
     = client_sees (fw_timeout f) (fst (mock_call (e_http E) L u (upstream_request c f i s)))"
  using assms by (simp add: reaches_def upstream_request_def)


section \<open>Properties\<close>



section \<open>Two of the integration tests\<close>

definition test_lib :: "header_list mock_lib" where
  "test_lib = \<lparr>ml_route = (\<lambda>m p. if p = ''/slow'' then ToSlow else ToEcho),
     ml_query = (\<lambda>q. if q = Some ''ms=1500'' then [''ms'' \<mapsto> ''1500''] else Map.empty),
     ml_json = (\<lambda>b. ([], eb_path b)), ml_text = (\<lambda>b. ([], b)), ml_empty = ([], [])\<rparr>"

definition test_upstream :: mock_upstream where
  "test_upstream = \<lparr>mu_addr = ''127.0.0.1:9'', mu_id = ''u1'', mu_hits = 0\<rparr>"

definition test_route :: route_config where
  "test_route = (route_with_defaults ''api'' [\<lparr>uc_url = upstream_url test_upstream, uc_weight = 1\<rparr>])
     \<lparr>rc_matches := match_config_default\<lparr>mc_path_prefix := ''/api''\<rparr>, rc_strip_path_prefix := True, rc_timeout_ms := Some 200\<rparr>"

definition test_env :: "(header_list, string \<Rightarrow> nat, string) env" where
  "test_env = sample_env\<lparr>e_send := \<lambda>n q. client_sees (ur_timeout q) (fst (mock_call list_http test_lib test_upstream q))\<rparr>"

definition test_request :: "string \<Rightarrow> string option \<Rightarrow> (header_list, string) request" where
  "test_request p q = (sample_request ''GET'')\<lparr>rq_path := p, rq_query := q\<rparr>"

definition test_ctx :: "string \<Rightarrow> string option \<Rightarrow> header_list req_ctx" where
  "test_ctx p q = request_context test_env sample_config (runtime_from_config test_route) ''api'' (test_request p q)"

definition test_shared :: "(header_list, string \<Rightarrow> nat) shared" where
  "test_shared = sample_shared\<lparr>sh_balancer := from_route test_route\<rparr>"

lemma test_env_sel [simp]: "e_http test_env = list_http" "e_others test_env = (\<lambda>_ s. s)"
  by (simp_all add: test_env_def)

lemma test_setup:
  "env_ok test_env (static_view test_shared)" "shared_ok test_shared" "sh_calls test_shared = []"
  "passes test_env (test_ctx p q)" "lone_upstream (upstream_url test_upstream) test_env test_shared"
  "reaches test_lib test_upstream test_env"
  "e_to_bytes test_env (rq_body (test_request p q)) (sc_max_body_bytes (cx_server (test_ctx p q))) = Some ''body''"
  "fw_timeout (forward_of test_env (test_ctx p q) (test_request p q) ''body'') = 200000000"
  "cx_method (test_ctx p q) = ''GET''" "cx_config (test_ctx p q) = test_route"
proof -
  have u: "rc_upstreams test_route = [\<lparr>uc_url = upstream_url test_upstream, uc_weight = 1\<rparr>]"
    by (simp add: test_route_def route_with_defaults_def)
  have v: "up_url (upstream_from test_route \<lparr>uc_url = upstream_url test_upstream, uc_weight = 1\<rparr>) = upstream_url test_upstream"
    "up_breaker (upstream_from test_route \<lparr>uc_url = upstream_url test_upstream, uc_weight = 1\<rparr>) = breaker_new 5 10"
    "up_healthy (upstream_from test_route \<lparr>uc_url = upstream_url test_upstream, uc_weight = 1\<rparr>)"
    by (simp_all add: upstream_from_def upstream_url_def test_upstream_def trim_end_matches_def test_route_def
        route_with_defaults_def circuit_breaker_config_default_def default_cb_threshold_def default_cb_open_secs_def)
  have d: "cb_open_for (breaker_new 5 10) = 10000000000"
    by (simp add: breaker_new_def from_secs_def nanos_per_sec_def max_def word_le_nat_alt)
  have x: "static_view test_shared = ([(upstream_url test_upstream, 10000000000)], None)"
    by (simp add: static_view_def test_shared_def sample_shared_def u v d)
  show "env_ok test_env (static_view test_shared)"
    using insertion_order.map_order_axioms by (auto simp: x env_ok_def test_env_def sample_env_def instant_limit_num)
  show "shared_ok test_shared"
    using sample_shared_ok bal_ok_from_route [of test_route]
    by (simp add: test_shared_def shared_ok_def test_route_def route_with_defaults_def)
  show "lone_upstream (upstream_url test_upstream) test_env test_shared"
    by (simp add: lone_upstream_def x interfere_def) (simp add: test_shared_def u v admits_def blocked_def)
  show "reaches test_lib test_upstream test_env" by (simp add: reaches_def test_env_def)
  show "passes test_env (test_ctx p q)"
    by (simp add: passes_def test_ctx_def request_context_def runtime_from_config_def test_route_def
        route_with_defaults_def auth_policy_default_def Let_def)
  show "fw_timeout (forward_of test_env (test_ctx p q) (test_request p q) ''body'') = 200000000"
    by (simp add: forward_of_def test_ctx_def request_context_def runtime_from_config_def test_route_def
        route_with_defaults_def from_millis_def Let_def)
  show "e_to_bytes test_env (rq_body (test_request p q)) (sc_max_body_bytes (cx_server (test_ctx p q))) = Some ''body''"
    by (simp add: test_env_def test_request_def test_ctx_def sample_defs Let_def)
qed (simp_all add: test_shared_def sample_shared_def test_ctx_def request_context_def test_request_def sample_request_def
    runtime_from_config_def Let_def)

lemma test_paths:
  "forward_path ''/api/widgets/7'' test_route = ''/widgets/7''" "forward_path ''/api/slow'' test_route = ''/slow''"
  by code_simp+

lemma test_slow: "fst (mock_slow test_lib (Some ''ms=1500'')) = 1500000000"
proof -
  have "parse_u64 ''1500'' = Some 1500" by (simp add: parse_u64_def digit_def)
  then show ?thesis by (simp add: mock_slow_def test_lib_def from_millis_def)
qed



end
