(* ===== verification/Integration_Tests.thy ===== *)
theory Integration_Tests
  imports Harness "HOL-Library.Code_Target_Nat"
begin

text \<open>
  The integration tests, \<^verbatim>\<open>crates/integration-tests/tests/proxy.rs\<close>: each test is a function
  with the test's name that starts mock upstreams and a gateway with the test's configuration
  (given as what its YAML parses to), sends requests through the router of the gateway, and says
  whether all assertions hold; a panic is a failure. What a test uses of other crates is the
  record \<open>world\<close>: the HTTP client and server, JSON, sockets, clocks. The client's own limit of 5 s
  is left out. All tests pass on a concrete world, by evaluation of the whole model.
\<close>

section \<open>The world of a test\<close>

record ('hm, 's) world =
  wd_env :: "('hm, 's, string) env"
  wd_lib :: "'hm mock_lib"
  wd_json :: "string \<Rightarrow> echo_body option"
  wd_layer :: "usize \<Rightarrow> ('hm, string) request \<Rightarrow> 'hm response + ('hm, string) request"
  wd_bind :: "nat \<Rightarrow> string \<Rightarrow> string option"
  wd_order :: "(string \<rightharpoonup> route_runtime) \<Rightarrow> (string \<times> route_runtime) list"
  wd_client_headers :: "(string \<times> string) list"
  wd_encode :: "metrics \<Rightarrow> string option"

text \<open>The network: a call goes to the mock upstream whose address it names; nothing listens elsewhere.\<close>

definition addressed :: "'hm upstream_request \<Rightarrow> mock_upstream \<Rightarrow> bool" where
  "addressed q u \<longleftrightarrow> starts_with (ur_url q) (upstream_url u @ ''/'')"

definition net_send :: "('hm, 's) world \<Rightarrow> mock_upstream list \<Rightarrow> nat \<Rightarrow> 'hm upstream_request \<Rightarrow> 'hm send_result" where
  "net_send W ups n q =
     (case find (addressed q) ups of
        None \<Rightarrow> SendErr True
      | Some u \<Rightarrow> client_sees (ur_timeout q) (fst (mock_call (e_http (wd_env W)) (wd_lib W) u q)))"

definition wired :: "('hm, 's) world \<Rightarrow> mock_upstream list \<Rightarrow> ('hm, 's, string) env" where
  "wired W ups = (wd_env W)\<lparr>e_send := net_send W ups\<rparr>"

text \<open>The upstream calls a request to the gateway makes, and what they leave of the upstreams.\<close>

definition opened :: "'s gateway_state \<Rightarrow> 's gateway_state" where
  "opened g = g\<lparr>gs_metrics := (gs_metrics g)\<lparr>mt_active_connections := mt_active_connections (gs_metrics g) + 1\<rparr>\<rparr>"

definition calls_made :: "('hm, 's, 'b) env \<Rightarrow> 's gateway_state \<Rightarrow> ('hm, 'b) request \<Rightarrow> (nat \<times> 'hm upstream_request) list" where
  "calls_made E g rq =
     (let g = opened g;
          host = (case header_str (e_http E) (rq_headers rq) ''host'' of Some s \<Rightarrow> s | None \<Rightarrow> []) in
      case match_route (gs_config g) (Some host) (rq_path rq) of
        None \<Rightarrow> []
      | Some r \<Rightarrow>
          (case state_route g (rc_name r) of
             None \<Rightarrow> []
           | Some rt \<Rightarrow> sh_calls (snd (serve_route E (request_context E (gs_config g) rt (rc_name r) rq) rq (shared_of g rt)))))"

definition called :: "('hm, 's) world \<Rightarrow> (nat \<times> 'hm upstream_request) list \<Rightarrow> mock_upstream \<Rightarrow> mock_upstream" where
  "called W calls u = mock_after (e_http (wd_env W)) (wd_lib W) (filter (\<lambda>(i, q). addressed q u) calls) u"

section \<open>The client\<close>

definition client_request :: "('hm, 's) world \<Rightarrow> 's test_gateway \<Rightarrow> string \<Rightarrow> string \<Rightarrow> (string \<times> string) list \<Rightarrow> string \<Rightarrow> ('hm, string) request" where
  "client_request W gw meth target headers body =
     (let H = e_http (wd_env W)
      in \<lparr>rq_method = meth, rq_path = path_of target, rq_query = query_of target, rq_path_and_query = Some target,
          rq_headers = fold (\<lambda>(n, v) h. hm_insert H h n v) ((''host'', tg_addr gw) # wd_client_headers W @ headers) (hm_new H),
          rq_body = body\<rparr>)"

definition send ::
  "('hm, 's) world \<Rightarrow> string \<Rightarrow> string \<Rightarrow> (string \<times> string) list \<Rightarrow> string \<Rightarrow> 's test_gateway \<times> mock_upstream list
   \<Rightarrow> 'hm response res \<times> 's test_gateway \<times> mock_upstream list" where
  "send W meth target headers body s =
     (case s of (gw, ups) \<Rightarrow>
        (let E = wired W ups;
             rq = client_request W gw meth target headers body;
             calls = (case wd_layer W (sc_max_body_bytes (gc_server (gs_config (tg_state gw)))) rq of
                        Inl resp \<Rightarrow> []
                      | Inr rq \<Rightarrow> calls_made E (tg_state gw) rq);
             (r, g) = proxy_router (wd_layer W) E (tg_state gw) rq
         in (r, gw\<lparr>tg_state := g\<rparr>, map (called W calls) ups)))"

abbreviation client_get where
  "client_get W target headers s \<equiv> send W ''GET'' target headers [] s"

fun status :: "'hm response res \<Rightarrow> u16 option" where
  "status (Ret r) = Some (rs_status r)"
| "status Panic = None"

fun json :: "('hm, 's) world \<Rightarrow> 'hm response res \<Rightarrow> echo_body option" where
  "json W (Ret r) = (case rs_body r of Bytes b \<Rightarrow> wd_json W b | Streamed (Some b) \<Rightarrow> wd_json W b | Streamed None \<Rightarrow> None)"
| "json W Panic = None"

fun response_header :: "('hm, 's) world \<Rightarrow> 'hm response res \<Rightarrow> string \<Rightarrow> string option" where
  "response_header W (Ret r) n = hm_get (e_http (wd_env W)) (rs_headers r) n"
| "response_header W Panic n = None"

text \<open>Repeated requests: what each gives, in order.\<close>

fun repeat_get ::
  "('hm, 's) world \<Rightarrow> nat \<Rightarrow> string \<Rightarrow> 's test_gateway \<times> mock_upstream list \<Rightarrow> 'hm response res list" where
  "repeat_get W 0 target s = []"
| "repeat_get W (Suc k) target s = (let (r, s) = client_get W target [] s in r # repeat_get W k target s)"

text \<open>Starting the upstreams and the gateway of a test.\<close>

fun start_upstreams :: "('hm, 's) world \<Rightarrow> nat \<Rightarrow> string list \<Rightarrow> mock_upstream list option" where
  "start_upstreams W k [] = Some []"
| "start_upstreams W k (uid # uids) =
     (case start_upstream (wd_bind W k) uid of
        Panic \<Rightarrow> None
      | Ret u \<Rightarrow> map_option (\<lambda>us. u # us) (start_upstreams W (Suc k) uids))"

definition scenario ::
  "('hm, 's) world \<Rightarrow> string list \<Rightarrow> (string list \<Rightarrow> gateway_config) \<Rightarrow> ('s test_gateway \<times> mock_upstream list) option" where
  "scenario W uids config =
     (case start_upstreams W 0 uids of
        None \<Rightarrow> None
      | Some ups \<Rightarrow>
          (case validate (config (map upstream_url ups)) of
             Inl e \<Rightarrow> None
           | Inr u \<Rightarrow>
               (case start_gateway (\<lambda>_. None) True (wd_bind W (length ups)) (wd_order W) (config (map upstream_url ups)) of
                  Panic \<Rightarrow> None
                | Ret gw \<Rightarrow> Some (gw, ups))))"

section \<open>The configurations\<close>

definition test_routes :: "route_config list \<Rightarrow> gateway_config" where
  "test_routes rs = \<lparr>gc_server = server_config_default, gc_routes = rs\<rparr>"

definition up_at :: "string \<Rightarrow> upstream_config" where
  "up_at url = \<lparr>uc_url = url, uc_weight = default_weight\<rparr>"

definition plain_route :: "string \<Rightarrow> string list \<Rightarrow> route_config" where
  "plain_route name urls = (route_with_defaults name (map up_at urls))\<lparr>rc_matches := match_config_default\<lparr>mc_path_prefix := ''/''\<rparr>\<rparr>"

section \<open>The tests\<close>

definition path_routing_strips_prefix :: "('hm, 's) world \<Rightarrow> bool" where
  "path_routing_strips_prefix W =
     (case scenario W [''u1''] (\<lambda>urls. test_routes [(plain_route ''api'' urls)
         \<lparr>rc_matches := match_config_default\<lparr>mc_path_prefix := ''/api''\<rparr>, rc_strip_path_prefix := True\<rparr>]) of
        None \<Rightarrow> False
      | Some s \<Rightarrow>
       let (resp, s) = client_get W ''/api/widgets/7'' [] s
       in status resp = Some 200
          \<and> (case json W resp of None \<Rightarrow> False | Some body \<Rightarrow> eb_id body = ''u1'' \<and> eb_path body = ''/widgets/7''))"

definition host_routing_selects_upstream :: "('hm, 's) world \<Rightarrow> bool" where
  "host_routing_selects_upstream W =
     (case scenario W [''hostA'', ''hostB''] (\<lambda>urls. test_routes
         [(plain_route ''a'' [urls ! 0])\<lparr>rc_matches := \<lparr>mc_host = Some ''a.example.com'', mc_path_prefix = ''/''\<rparr>\<rparr>,
          (plain_route ''b'' [urls ! 1])\<lparr>rc_matches := \<lparr>mc_host = Some ''b.example.com'', mc_path_prefix = ''/''\<rparr>\<rparr>]) of
        None \<Rightarrow> False
      | Some s \<Rightarrow>
       let (resp, s) = client_get W ''/anything'' [(''host'', ''b.example.com'')] s
       in map_option eb_id (json W resp) = Some ''hostB'')"

definition forwards_headers_and_adds_x_forwarded_for :: "('hm, 's) world \<Rightarrow> bool" where
  "forwards_headers_and_adds_x_forwarded_for W =
     (case scenario W [''u1''] (\<lambda>urls. test_routes
         [(plain_route ''r'' urls)\<lparr>rc_request_headers := header_transforms_default\<lparr>ht_add := [(''x-gateway'', ''rust-gw'')]\<rparr>\<rparr>]) of
        None \<Rightarrow> False
      | Some s \<Rightarrow>
       let (resp, s) = client_get W ''/x'' [(''x-test'', ''hello'')] s
       in case json W resp of
            None \<Rightarrow> False
          | Some body \<Rightarrow> map_of (eb_headers body) ''x-test'' = Some ''hello''
              \<and> map_of (eb_headers body) ''x-gateway'' = Some ''rust-gw''
              \<and> map_of (eb_headers body) ''x-forwarded-for'' \<noteq> None)"

definition round_robin_distributes_across_upstreams :: "('hm, 's) world \<Rightarrow> bool" where
  "round_robin_distributes_across_upstreams W =
     (case scenario W [''A'', ''B''] (\<lambda>urls. test_routes [(plain_route ''r'' urls)\<lparr>rc_strategy := RoundRobin\<rparr>]) of
        None \<Rightarrow> False
      | Some s \<Rightarrow>
       let ids = map (\<lambda>r. map_option eb_id (json W r)) (repeat_get W 4 ''/p'' s)
       in list_all (\<lambda>i. i = Some ''A'' \<or> i = Some ''B'') ids
          \<and> count_list ids (Some ''A'') = 2 \<and> count_list ids (Some ''B'') = 2)"

definition retries_past_a_dead_upstream :: "('hm, 's) world \<Rightarrow> bool" where
  "retries_past_a_dead_upstream W =
     (case scenario W [''good''] (\<lambda>urls. test_routes
         [(plain_route ''r'' (''http://127.0.0.1:1'' # urls))\<lparr>rc_strategy := RoundRobin, rc_retries := 2\<rparr>]) of
        None \<Rightarrow> False
      | Some s \<Rightarrow>
       list_all (\<lambda>resp. status resp = Some 200 \<and> map_option eb_id (json W resp) = Some ''good'') (repeat_get W 3 ''/p'' s))"

definition circuit_breaker_opens_after_failures :: "('hm, 's) world \<Rightarrow> bool" where
  "circuit_breaker_opens_after_failures W =
     (case scenario W [''u''] (\<lambda>urls. test_routes [(plain_route ''r'' urls)
         \<lparr>rc_retries := 0, rc_circuit_breaker := \<lparr>cb_failure_threshold = 3, cb_open_secs = 10\<rparr>\<rparr>]) of
        None \<Rightarrow> False
      | Some s \<Rightarrow>
       let statuses = map status (repeat_get W 5 ''/status/500'' s)
       in take 3 statuses = [Some 500, Some 500, Some 500] \<and> statuses ! 4 = Some 503)"

definition rate_limit_blocks_excess :: "('hm, 's) world \<Rightarrow> bool" where
  "rate_limit_blocks_excess W =
     (case scenario W [''u''] (\<lambda>urls. test_routes
         [(plain_route ''r'' urls)\<lparr>rc_rate_limit := Some \<lparr>rl_scope = ScopeIp, rl_limit = 2, rl_window_secs = 60\<rparr>\<rparr>]) of
        None \<Rightarrow> False
      | Some s \<Rightarrow>
       case repeat_get W 3 ''/a'' s of
         [first, second, third] \<Rightarrow> status first = Some 200 \<and> status second = Some 200 \<and> status third = Some 429
           \<and> response_header W third ''x-ratelimit-limit'' \<noteq> None
       | _ \<Rightarrow> False)"

definition api_key_auth_is_enforced :: "('hm, 's) world \<Rightarrow> bool" where
  "api_key_auth_is_enforced W =
     (case scenario W [''u''] (\<lambda>urls. test_routes [(plain_route ''r'' urls)\<lparr>rc_auth := ApiKey [''secret'']\<rparr>]) of
        None \<Rightarrow> False
      | Some s \<Rightarrow>
       let (first, s) = client_get W ''/x'' [] s;
           (ok, s) = client_get W ''/x'' [(''x-api-key'', ''secret'')] s
       in status first = Some 401 \<and> status ok = Some 200)"

definition upstream_timeout_returns_502 :: "('hm, 's) world \<Rightarrow> bool" where
  "upstream_timeout_returns_502 W =
     (case scenario W [''u''] (\<lambda>urls. test_routes [(plain_route ''r'' urls)\<lparr>rc_retries := 0, rc_timeout_ms := Some 200\<rparr>]) of
        None \<Rightarrow> False
      | Some s \<Rightarrow>
       let (resp, s) = client_get W ''/slow?ms=1500'' [] s in status resp = Some 502)"

definition oversized_body_is_rejected :: "('hm, 's) world \<Rightarrow> bool" where
  "oversized_body_is_rejected W =
     (case scenario W [''u''] (\<lambda>urls. \<lparr>gc_server = server_config_default\<lparr>sc_max_body_bytes := 100\<rparr>, gc_routes = [plain_route ''r'' urls]\<rparr>) of
        None \<Rightarrow> False
      | Some s \<Rightarrow>
       let (resp, s) = send W ''POST'' ''/x'' [] (replicate 1000 (CHR ''x'')) s in status resp = Some 413)"

definition get_responses_are_cached :: "('hm, 's) world \<Rightarrow> bool" where
  "get_responses_are_cached W =
     (case scenario W [''u''] (\<lambda>urls. test_routes
         [(plain_route ''r'' urls)\<lparr>rc_cache := Some \<lparr>cc_ttl_secs = 30, cc_max_entries = default_cache_cap\<rparr>\<rparr>]) of
        None \<Rightarrow> False
      | Some s \<Rightarrow>
       let (first, s) = client_get W ''/cacheable'' [] s;
           (second, s) = client_get W ''/cacheable'' [] s
       in response_header W first ''x-cache'' = Some ''MISS'' \<and> response_header W second ''x-cache'' = Some ''HIT''
          \<and> upstream_hits (snd s ! 0) = 1)"

definition metrics_are_recorded :: "('hm, 's) world \<Rightarrow> bool" where
  "metrics_are_recorded W =
     (case scenario W [''u''] (\<lambda>urls. test_routes [plain_route ''r'' urls]) of
        None \<Rightarrow> False
      | Some s \<Rightarrow>
       let (resp, s) = client_get W ''/x'' [] s;
           rendered = metrics_render (wd_encode W) Some (gs_metrics (tg_state (fst s)))
       in sublist ''gw_requests_total'' rendered \<and> sublist ''gw_gateway_latency_seconds'' rendered)"

section \<open>All tests pass\<close>

text \<open>
  Evaluation keeps an updated function as its updates, with the new value computed, and enters the
  continuation of a step only with the step's result.
\<close>

declare fun_upd_apply [code]

declare bindr_def [code_unfold] unless_answered_def [code_unfold]

text \<open>The handler's result and its calls from one run of the route.\<close>

definition handle_with_calls ::
  "('hm, 's, 'b) env \<Rightarrow> 's gateway_state \<Rightarrow> ('hm, 'b) request
   \<Rightarrow> ('hm response res \<times> 's gateway_state) \<times> (nat \<times> 'hm upstream_request) list" where
  "handle_with_calls E g rq =
     (let g1 = opened g;
          host = (case header_str (e_http E) (rq_headers rq) ''host'' of Some s \<Rightarrow> s | None \<Rightarrow> [])
      in case match_route (gs_config g1) (Some host) (rq_path rq) of
           None \<Rightarrow> (handle E g rq, [])
         | Some r \<Rightarrow>
             (case state_route g1 (rc_name r) of
                None \<Rightarrow> (handle E g rq, [])
              | Some rt \<Rightarrow>
                  (case serve_route E (request_context E (gs_config g1) rt (rc_name r) rq) rq (shared_of g1 rt) of
                     (a, sh) \<Rightarrow>
                       (bindr (a, write_back g1 (rc_name r) rt sh) (\<lambda>response g. (Ret response,
                          g\<lparr>gs_metrics := (gs_metrics g)\<lparr>mt_active_connections := mt_active_connections (gs_metrics g) - 1\<rparr>\<rparr>)),
                        sh_calls sh))))"

lemma handle_with_calls: "handle_with_calls E g rq = (handle E g rq, calls_made E g rq)"
  by (simp add: handle_with_calls_def calls_made_def handle_def route_and_proxy_def Let_def flip: opened_def
      split: option.split prod.split)

lemma send_code [code]:
  "send W meth target headers body (gw, ups) =
     (let E = wired W ups;
          rq = client_request W gw meth target headers body
      in case wd_layer W (sc_max_body_bytes (gc_server (gs_config (tg_state gw)))) rq of
           Inl resp \<Rightarrow> (Ret resp, gw, map (called W []) ups)
         | Inr rq \<Rightarrow>
             (case handle_with_calls E (tg_state gw) rq of
                ((r, g), calls) \<Rightarrow> (r, gw\<lparr>tg_state := g\<rparr>, map (called W calls) ups)))"
  by (simp add: send_def proxy_router_def handle_with_calls Let_def split: sum.split prod.split)

text \<open>
  A concrete world: header maps are lists, a JSON object is written line by line, the body limit
  looks at the length of the body, sockets get ports in the order they are bound, and the encoder
  writes the families that have a series.
\<close>

definition newline :: char where
  "newline = CHR 0x0A"

fun text_lines :: "string \<Rightarrow> string list" where
  "text_lines [] = []"
| "text_lines (ch # s) =
     (if ch = newline then [] # text_lines s
      else case text_lines s of [] \<Rightarrow> [[ch]] | l # ls \<Rightarrow> (ch # l) # ls)"

fun pair_up :: "string list \<Rightarrow> (string \<times> string) list" where
  "pair_up (n # v # ls) = (n, v) # pair_up ls"
| "pair_up _ = []"

definition echo_lines :: "echo_body \<Rightarrow> string" where
  "echo_lines b = concat (map (\<lambda>l. l @ [newline])
     ([eb_id b, eb_method b, eb_path b, (case eb_query b of None \<Rightarrow> [] | Some q \<Rightarrow> ''?'' @ q)]
      @ concat (map (\<lambda>(n, v). [n, v]) (eb_headers b))))"

definition read_echo :: "string \<Rightarrow> echo_body option" where
  "read_echo s =
     (case text_lines s of
        i # m # p # q # hs \<Rightarrow> Some \<lparr>eb_id = i, eb_method = m, eb_path = p,
          eb_query = (case q of [] \<Rightarrow> None | _ # q \<Rightarrow> Some q), eb_headers = pair_up hs\<rparr>
      | _ \<Rightarrow> None)"

definition list_route :: "string \<Rightarrow> string \<Rightarrow> mock_target" where
  "list_route m p = (if p = ''/slow'' then ToSlow else if p = ''/status/500'' then ToStatus 500 else ToEcho)"

definition list_query :: "string option \<Rightarrow> string \<Rightarrow> string option" where
  "list_query q = (if q = Some ''ms=1500'' then [''ms'' \<mapsto> ''1500''] else Map.empty)"

definition list_json :: "echo_body \<Rightarrow> header_list \<times> string" where
  "list_json b = ([(''content-type'', ''application/json'')], echo_lines b)"

definition list_lib :: "header_list mock_lib" where
  "list_lib =
     \<lparr>ml_route = list_route, ml_query = list_query, ml_json = list_json,
      ml_text = Pair [(''content-type'', ''text/plain; charset=utf-8'')], ml_empty = ([], [])\<rparr>"

definition list_layer :: "usize \<Rightarrow> (header_list, string) request \<Rightarrow> header_list response + (header_list, string) request" where
  "list_layer n rq =
     (if n < of_nat (length (rq_body rq))
      then Inl \<lparr>rs_status = 413, rs_headers = [], rs_body = Bytes ''length limit exceeded''\<rparr> else Inr rq)"

definition list_bind :: "nat \<Rightarrow> string \<Rightarrow> string option" where
  "list_bind k s = Some (''127.0.0.1:900'' @ [''012'' ! k])"

definition list_encode :: "metrics \<Rightarrow> string option" where
  "list_encode m = Some (
     (if 0 < mt_requests m (''r'', ''GET'', ''200'') then ''gw_requests_total'' else [])
     @ (if mt_gateway_latency m ''r'' \<noteq> [] then ''gw_gateway_latency_seconds'' else []))"

definition list_world :: "(header_list, string \<Rightarrow> nat) world" where
  "list_world =
     \<lparr>wd_env = sample_env, wd_lib = list_lib, wd_json = read_echo, wd_layer = list_layer, wd_bind = list_bind,
      wd_order = (\<lambda>_. []), wd_client_headers = [(''accept'', ''*/*'')], wd_encode = list_encode\<rparr>"

lemma path_routing_strips_prefix_passes: "path_routing_strips_prefix list_world"
  by code_simp

lemma host_routing_selects_upstream_passes: "host_routing_selects_upstream list_world"
  by code_simp

lemma forwards_headers_and_adds_x_forwarded_for_passes: "forwards_headers_and_adds_x_forwarded_for list_world"
  by code_simp

lemma round_robin_distributes_across_upstreams_passes: "round_robin_distributes_across_upstreams list_world"
  by code_simp

lemma retries_past_a_dead_upstream_passes: "retries_past_a_dead_upstream list_world"
  by code_simp

lemma circuit_breaker_opens_after_failures_passes: "circuit_breaker_opens_after_failures list_world"
  by code_simp

lemma rate_limit_blocks_excess_passes: "rate_limit_blocks_excess list_world"
  by code_simp

lemma api_key_auth_is_enforced_passes: "api_key_auth_is_enforced list_world"
  by code_simp

lemma upstream_timeout_returns_502_passes: "upstream_timeout_returns_502 list_world"
  by code_simp

lemma scenario_config:
  assumes "scenario W uids config = Some (gw, ups)"
  shows "gs_config (tg_state gw) = config (map upstream_url ups)"
  using assms
  by (auto simp: scenario_def start_gateway_def gateway_build_def split: option.splits sum.splits res.splits if_splits)

lemma oversized_body_is_rejected_passes: "oversized_body_is_rejected list_world"
proof -
  let ?config = "\<lambda>urls. \<lparr>gc_server = server_config_default\<lparr>sc_max_body_bytes := 100\<rparr>, gc_routes = [plain_route ''r'' urls]\<rparr>"
  have "scenario list_world [''u''] ?config \<noteq> None" by code_simp
  then obtain gw ups where s: "scenario list_world [''u''] ?config = Some (gw, ups)" by auto
  have "status (fst (send list_world ''POST'' ''/x'' [] (replicate 1000 (CHR ''x'')) (gw, ups))) = Some 413"
    using scenario_config [OF s]
    by (simp add: send_def proxy_router_def list_world_def list_layer_def client_request_def Let_def case_prod_beta)
  then show ?thesis by (simp only: oversized_body_is_rejected_def s option.case case_prod_beta Let_def)
qed

lemma get_responses_are_cached_passes: "get_responses_are_cached list_world"
  by code_simp

lemma metrics_are_recorded_passes: "metrics_are_recorded list_world"
  by code_simp

end
