(* ===== verification/Unit_Tests.thy ===== *)
theory Unit_Tests
  imports Router Balancer Transform Auth Response_Cache Rate_Limit
begin

text \<open>
  The repository's unit tests, the \<^verbatim>\<open>tests\<close> modules of \<^verbatim>\<open>router.rs\<close>,
  \<^verbatim>\<open>breaker.rs\<close>, \<^verbatim>\<open>balancer.rs\<close>, \<^verbatim>\<open>cache.rs\<close>, \<^verbatim>\<open>ratelimit.rs\<close>,
  \<^verbatim>\<open>auth.rs\<close> and \<^verbatim>\<open>transform.rs\<close>. Each test is a function with the test's name that says
  whether all its assertions hold (a panic is a failure); what it reads of the world is an
  argument: \<open>clk k\<close> is the \<open>k\<close>-th reading of the clock, \<open>parse\<close> the YAML parser, \<open>enc\<close> and
  \<open>dec\<close> the JWT library, \<open>ord\<close> the order of a \<^verbatim>\<open>HashMap\<close>. The lemmas show that the tests pass
  for every clock that runs as a test expects, not only on the run of one machine.
\<close>

section \<open>Router\<close>

definition cfg :: "(string \<Rightarrow> string + gateway_config) \<Rightarrow> string \<Rightarrow> gateway_config res" where
  "cfg parse yaml = (case from_yaml parse yaml of Inl e \<Rightarrow> Panic | Inr c \<Rightarrow> Ret c)"

definition matched :: "gateway_config \<Rightarrow> string option \<Rightarrow> string \<Rightarrow> string res" where
  "matched c host path = (case match_route c host path of None \<Rightarrow> Panic | Some r \<Rightarrow> Ret (rc_name r))"

definition longest_prefix_wins :: "(string \<Rightarrow> string + gateway_config) \<Rightarrow> string \<Rightarrow> bool" where
  "longest_prefix_wins parse YAML =
     (case cfg parse YAML of
        Panic \<Rightarrow> False
      | Ret c \<Rightarrow> matched c None ''/api/users/42'' = Ret ''users'' \<and> matched c None ''/api/orders'' = Ret ''api''
          \<and> matched c None ''/other'' = Ret ''root'')"

definition segment_boundary_required :: "(string \<Rightarrow> string + gateway_config) \<Rightarrow> string \<Rightarrow> bool" where
  "segment_boundary_required parse YAML =
     (case cfg parse YAML of Panic \<Rightarrow> False | Ret c \<Rightarrow> matched c None ''/apixyz'' = Ret ''root'')"

definition host_routing :: "(string \<Rightarrow> string + gateway_config) \<Rightarrow> string \<Rightarrow> bool" where
  "host_routing parse YAML =
     (case cfg parse YAML of
        Panic \<Rightarrow> False
      | Ret c \<Rightarrow> matched c (Some ''admin.example.com'') ''/anything'' = Ret ''hosted''
          \<and> matched c (Some ''admin.example.com:8080'') ''/x'' = Ret ''hosted'')"

definition strip_prefix_rewrites_path :: "(string \<Rightarrow> string + gateway_config) \<Rightarrow> string \<Rightarrow> bool" where
  "strip_prefix_rewrites_path parse YAML =
     (case cfg parse YAML of
        Panic \<Rightarrow> False
      | Ret c \<Rightarrow> (case find (\<lambda>r. rc_name r = ''api'') (gc_routes c) of
          None \<Rightarrow> False
        | Some route \<Rightarrow> (let r = route\<lparr>rc_strip_path_prefix := True\<rparr> in
            forward_path ''/api/orders'' r = ''/orders'' \<and> forward_path ''/api'' r = ''/'')))"

section \<open>Breaker\<close>

definition opens_after_threshold :: "(nat \<Rightarrow> instant) \<Rightarrow> bool" where
  "opens_after_threshold clk =
     (let cb = breaker_new 3 10;
          (a, cb) = allow_at cb (clk 0);
          (_, cb) = record_failure_at cb (clk 1);
          (_, cb) = record_failure_at cb (clk 2);
          (s, cb) = breaker_get_state cb;
          (_, cb) = record_failure_at cb (clk 3);
          (s', cb) = breaker_get_state cb;
          (a', cb) = allow_at cb (clk 4)
      in a = Ret True \<and> s = Ret Closed \<and> s' = Ret Open \<and> a' = Ret False)"

definition half_open_after_cooldown_then_closes_on_success :: "(nat \<Rightarrow> instant) \<Rightarrow> bool" where
  "half_open_after_cooldown_then_closes_on_success clk =
     (let cb = breaker_new 1 10;
          (_, cb) = record_failure_at cb (clk 0);
          (s, cb) = breaker_get_state cb;
          t0 = clk 1;
          (a, cb) = allow_at cb t0
      in case instant_add t0 (from_secs 11) of
           None \<Rightarrow> False
         | Some later \<Rightarrow>
             (let (a', cb) = allow_at cb later;
                  (s', cb) = breaker_get_state cb;
                  (_, cb) = record_success cb;
                  (s'', cb) = breaker_get_state cb
              in s = Ret Open \<and> a = Ret False \<and> a' = Ret True \<and> s' = Ret HalfOpen \<and> s'' = Ret Closed))"

definition half_open_failure_reopens :: "(nat \<Rightarrow> instant) \<Rightarrow> bool" where
  "half_open_failure_reopens clk =
     (let cb = breaker_new 1 10;
          (_, cb) = record_failure_at cb (clk 0)
      in case instant_add (clk 1) (from_secs 11) of
           None \<Rightarrow> False
         | Some later \<Rightarrow>
             (let (a, cb) = allow_at cb later;
                  (_, cb) = record_failure_at cb later;
                  (s, cb) = breaker_get_state cb
              in a = Ret True \<and> s = Ret Open))"

section \<open>Balancer\<close>

definition route :: "(string \<Rightarrow> string + gateway_config) \<Rightarrow> string \<Rightarrow> route_config res" where
  "route parse yaml =
     (case cfg parse yaml of
        Panic \<Rightarrow> Panic
      | Ret c \<Rightarrow> (case gc_routes c of [] \<Rightarrow> Panic | r # _ \<Rightarrow> Ret r))"

text \<open>\<open>k\<close> picks; their guards are kept, or dropped after each.\<close>

fun picks :: "bool \<Rightarrow> (nat \<Rightarrow> nat \<Rightarrow> instant) \<Rightarrow> nat \<Rightarrow> balancer \<Rightarrow> nat list res" where
  "picks keep clk 0 b = Ret []"
| "picks keep clk (Suc k) b =
     (case pick [] (clk k) b of
        (Ret (Some i), b) \<Rightarrow>
          (case picks keep clk k (if keep then b else guard_drop i b) of Panic \<Rightarrow> Panic | Ret is \<Rightarrow> Ret (i # is))
      | _ \<Rightarrow> Panic)"

definition round_robin_alternates :: "(string \<Rightarrow> string + gateway_config) \<Rightarrow> string \<Rightarrow> (nat \<Rightarrow> nat \<Rightarrow> instant) \<Rightarrow> bool" where
  "round_robin_alternates parse RR clk =
     (case route parse RR of
        Panic \<Rightarrow> False
      | Ret r \<Rightarrow> (case picks True clk 2 (from_route r) of Ret [i0, i1] \<Rightarrow> i0 \<noteq> i1 | _ \<Rightarrow> False))"

definition weighted_round_robin_respects_weight ::
  "(string \<Rightarrow> string + gateway_config) \<Rightarrow> string \<Rightarrow> (nat \<Rightarrow> nat \<Rightarrow> instant) \<Rightarrow> bool" where
  "weighted_round_robin_respects_weight parse yaml clk =
     (case route parse yaml of
        Panic \<Rightarrow> False
      | Ret r \<Rightarrow> (case picks True clk 8 (from_route r) of
          Panic \<Rightarrow> False | Ret is \<Rightarrow> count_list is 0 = 6 \<and> count_list is 1 = 2))"

definition least_connections_prefers_idle ::
  "(string \<Rightarrow> string + gateway_config) \<Rightarrow> string \<Rightarrow> (nat \<Rightarrow> nat \<Rightarrow> instant) \<Rightarrow> bool" where
  "least_connections_prefers_idle parse yaml clk =
     (case route parse yaml of
        Panic \<Rightarrow> False
      | Ret r \<Rightarrow> (case picks True clk 2 (from_route r) of Ret [i0, i1] \<Rightarrow> i0 \<noteq> i1 | _ \<Rightarrow> False))"

definition unhealthy_upstreams_are_skipped ::
  "(string \<Rightarrow> string + gateway_config) \<Rightarrow> string \<Rightarrow> (nat \<Rightarrow> nat \<Rightarrow> instant) \<Rightarrow> bool" where
  "unhealthy_upstreams_are_skipped parse RR clk =
     (case route parse RR of
        Panic \<Rightarrow> False
      | Ret r \<Rightarrow> (case picks False clk 5 (upd_upstream 0 (set_healthy False) (from_route r)) of
          Panic \<Rightarrow> False | Ret is \<Rightarrow> list_all (\<lambda>i. i = 1) is))"

section \<open>Cache\<close>

definition stores_and_returns_within_ttl :: "(cache_map \<Rightarrow> cache_map) \<Rightarrow> (nat \<Rightarrow> instant) \<Rightarrow> bool" where
  "stores_and_returns_within_ttl ord clk =
     (let c = cache_new (from_secs 60) 10;
          (_, c) = cache_put ord c ''k'' 200 [] ''hi'' (clk 0) (clk 1)
      in case cache_get c ''k'' (clk 2) of
           (Ret (Some got), c) \<Rightarrow> cr_status got = 200 \<and> cr_body got = ''hi''
         | _ \<Rightarrow> False)"

definition expired_entries_are_dropped :: "(cache_map \<Rightarrow> cache_map) \<Rightarrow> (nat \<Rightarrow> instant) \<Rightarrow> bool" where
  "expired_entries_are_dropped ord clk =
     (let c = cache_new (from_millis 0) 10;
          (_, c) = cache_put ord c ''k'' 200 [] ''hi'' (clk 0) (clk 1);
          (r, c) = cache_get c ''k'' (clk 2)
      in r = Ret None)"

fun present :: "(nat \<Rightarrow> instant) \<Rightarrow> response_cache \<Rightarrow> string list \<Rightarrow> nat" where
  "present clk c [] = 0"
| "present clk c (k # ks) =
     (let (r, c) = cache_get c k (clk (length ks)) in (case r of Ret (Some _) \<Rightarrow> 1 | _ \<Rightarrow> 0) + present clk c ks)"

definition capacity_is_bounded :: "(cache_map \<Rightarrow> cache_map) \<Rightarrow> (nat \<Rightarrow> instant) \<Rightarrow> (nat \<Rightarrow> instant) \<Rightarrow> bool" where
  "capacity_is_bounded ord clk clk' =
     (let c = cache_new (from_secs 60) 2;
          (_, c) = cache_put ord c ''a'' 200 [] [] (clk 0) (clk 1);
          (_, c) = cache_put ord c ''b'' 200 [] [] (clk 2) (clk 3);
          (_, c) = cache_put ord c ''c'' 200 [] [] (clk 4) (clk 5)
      in present clk' c [''a'', ''b'', ''c''] \<le> 2)"

section \<open>Limiter\<close>

definition in_memory_blocks_over_limit :: "(nat \<Rightarrow> instant) \<Rightarrow> bool" where
  "in_memory_blocks_over_limit clk =
     (let rl = in_memory_new; w = from_secs 60;
          (d1, rl) = in_memory_check rl ''k'' 3 w (clk 0);
          (d2, rl) = in_memory_check rl ''k'' 3 w (clk 1);
          (d3, rl) = in_memory_check rl ''k'' 3 w (clk 2);
          (d4, rl) = in_memory_check rl ''k'' 3 w (clk 3)
      in granted d1 \<and> granted d2 \<and> granted d3
         \<and> (case d4 of Ret d \<Rightarrow> \<not> rd_allowed d \<and> rd_remaining d = 0 | Panic \<Rightarrow> False))"

definition in_memory_separates_keys :: "(nat \<Rightarrow> instant) \<Rightarrow> bool" where
  "in_memory_separates_keys clk =
     (let rl = in_memory_new; w = from_secs 60;
          (d1, rl) = in_memory_check rl ''a'' 1 w (clk 0);
          (d2, rl) = in_memory_check rl ''a'' 1 w (clk 1);
          (d3, rl) = in_memory_check rl ''b'' 1 w (clk 2)
      in granted d1 \<and> (case d2 of Ret d \<Rightarrow> \<not> rd_allowed d | Panic \<Rightarrow> False) \<and> granted d3)"

section \<open>Authentication\<close>

definition headers_with :: "'hm http_api \<Rightarrow> string \<Rightarrow> string \<Rightarrow> 'hm res" where
  "headers_with H name value =
     (case (header_name H name, header_value H value) of
        (Some n, Some v) \<Rightarrow> Ret (hm_insert H (hm_new H) n v) | _ \<Rightarrow> Panic)"

definition authorized :: "'hm http_api \<Rightarrow> jwt_decode \<Rightarrow> auth_policy \<Rightarrow> 'hm res \<Rightarrow> bool res" where
  "authorized H dec policy headers =
     (case headers of Panic \<Rightarrow> Panic | Ret h \<Rightarrow> Ret (authorize H dec policy h = Inr ()))"

definition api_key_accepts_and_rejects :: "'hm http_api \<Rightarrow> jwt_decode \<Rightarrow> bool" where
  "api_key_accepts_and_rejects H dec =
     (let policy = ApiKey [''good'']
      in authorized H dec policy (headers_with H ''x-api-key'' ''good'') = Ret True
         \<and> authorized H dec policy (headers_with H ''x-api-key'' ''bad'') = Ret False
         \<and> authorized H dec policy (Ret (hm_new H)) = Ret False)"

definition none_policy_allows_all :: "'hm http_api \<Rightarrow> jwt_decode \<Rightarrow> bool" where
  "none_policy_allows_all H dec \<longleftrightarrow> authorized H dec AuthNone (Ret (hm_new H)) = Ret True"

definition jwt_valid_token_is_accepted :: "'hm http_api \<Rightarrow> (claims \<Rightarrow> string \<Rightarrow> string option) \<Rightarrow> jwt_decode \<Rightarrow> bool" where
  "jwt_valid_token_is_accepted H enc dec =
     (let secret = ''topsecret'';
          claims = [''sub'' \<mapsto> JString ''user-1'', ''role'' \<mapsto> JString ''admin'', ''exp'' \<mapsto> JNumber ''9999999999'']
      in case enc claims secret of
           None \<Rightarrow> False
         | Some token \<Rightarrow> authorized H dec (Jwt secret [(''role'', ''admin'')])
             (headers_with H ''authorization'' (''Bearer '' @ token)) = Ret True)"

definition jwt_wrong_secret_is_rejected :: "'hm http_api \<Rightarrow> (claims \<Rightarrow> string \<Rightarrow> string option) \<Rightarrow> jwt_decode \<Rightarrow> bool" where
  "jwt_wrong_secret_is_rejected H enc dec =
     (case enc [''exp'' \<mapsto> JNumber ''9999999999''] ''other'' of
        None \<Rightarrow> False
      | Some token \<Rightarrow> authorized H dec (Jwt ''topsecret'' [])
          (headers_with H ''authorization'' (''Bearer '' @ token)) = Ret False)"

definition jwt_missing_required_claim_is_rejected ::
  "'hm http_api \<Rightarrow> (claims \<Rightarrow> string \<Rightarrow> string option) \<Rightarrow> jwt_decode \<Rightarrow> bool" where
  "jwt_missing_required_claim_is_rejected H enc dec =
     (let secret = ''s''; claims = [''exp'' \<mapsto> JNumber ''9999999999'', ''role'' \<mapsto> JString ''user'']
      in case enc claims secret of
           None \<Rightarrow> False
         | Some token \<Rightarrow> authorized H dec (Jwt secret [(''role'', ''admin'')])
             (headers_with H ''authorization'' (''Bearer '' @ token)) = Ret False)"

section \<open>Header transforms\<close>

definition strips_hop_by_hop_and_adds_forwarding :: "'hm http_api \<Rightarrow> bool" where
  "strips_hop_by_hop_and_adds_forwarding H =
     (let incoming = hm_insert H (hm_insert H (hm_new H) ''connection'' ''keep-alive'') ''x-custom'' ''v'';
          out = forwarded_request_headers H incoming ''1.2.3.4'' ''example.com'' ''http''
      in hm_get H out ''connection'' = None \<and> hm_get H out ''x-custom'' = Some ''v''
         \<and> hm_get H out ''x-forwarded-for'' = Some ''1.2.3.4'' \<and> hm_get H out ''x-real-ip'' = Some ''1.2.3.4'')"

definition appends_to_existing_forwarded_for :: "'hm http_api \<Rightarrow> bool" where
  "appends_to_existing_forwarded_for H =
     (let incoming = hm_insert H (hm_new H) ''x-forwarded-for'' ''10.0.0.1'';
          out = forwarded_request_headers H incoming ''1.2.3.4'' ''h'' ''http''
      in hm_get H out ''x-forwarded-for'' = Some ''10.0.0.1, 1.2.3.4'')"

definition add_and_remove_transforms :: "'hm http_api \<Rightarrow> bool" where
  "add_and_remove_transforms H =
     (let headers = hm_insert H (hm_new H) ''x-drop'' ''1'';
          t = header_transforms_default\<lparr>ht_remove := [''x-drop''], ht_add := [(''x-add'', ''yes'')]\<rparr>;
          headers = apply_transforms H t headers
      in hm_get H headers ''x-drop'' = None \<and> hm_get H headers ''x-add'' = Some ''yes'')"

section \<open>The tests pass\<close>

text \<open>What the YAML of the router's tests says.\<close>

definition yaml_route :: "string \<Rightarrow> string option \<Rightarrow> string \<Rightarrow> string \<Rightarrow> route_config" where
  "yaml_route n host pfx url = (route_with_defaults n [\<lparr>uc_url = url, uc_weight = default_weight\<rparr>])
     \<lparr>rc_matches := \<lparr>mc_host = host, mc_path_prefix = pfx\<rparr>\<rparr>"

definition yaml_routes :: gateway_config where
  "yaml_routes = \<lparr>gc_server = server_config_default,
     gc_routes = [yaml_route ''root'' None ''/'' ''http://a'', yaml_route ''api'' None ''/api'' ''http://b'',
                  yaml_route ''users'' None ''/api/users'' ''http://c'',
                  yaml_route ''hosted'' (Some ''admin.example.com'') ''/'' ''http://d'']\<rparr>"

lemma router_yaml: "parse YAML = Inr yaml_routes \<Longrightarrow> cfg parse YAML = Ret yaml_routes"
proof -
  have "validate yaml_routes = Inr ()" by code_simp
  then show "parse YAML = Inr yaml_routes \<Longrightarrow> cfg parse YAML = Ret yaml_routes" by (simp add: cfg_def from_yaml_def)
qed

lemma router_tests_pass:
  assumes "parse YAML = Inr yaml_routes"
  shows "longest_prefix_wins parse YAML" "segment_boundary_required parse YAML" "host_routing parse YAML"
    "strip_prefix_rewrites_path parse YAML"
proof -
  have "matched yaml_routes None ''/api/users/42'' = Ret ''users''" by code_simp
  moreover have "matched yaml_routes None ''/api/orders'' = Ret ''api''" by code_simp
  moreover have "matched yaml_routes None ''/other'' = Ret ''root''" by code_simp
  ultimately show "longest_prefix_wins parse YAML" by (simp add: longest_prefix_wins_def router_yaml [of parse YAML, OF assms])
  have "matched yaml_routes None ''/apixyz'' = Ret ''root''" by code_simp
  then show "segment_boundary_required parse YAML" by (simp add: segment_boundary_required_def router_yaml [of parse YAML, OF assms])
  have "matched yaml_routes (Some ''admin.example.com'') ''/anything'' = Ret ''hosted''" by code_simp
  moreover have "matched yaml_routes (Some ''admin.example.com:8080'') ''/x'' = Ret ''hosted''" by code_simp
  ultimately show "host_routing parse YAML" by (simp add: host_routing_def router_yaml [of parse YAML, OF assms])
  have "find (\<lambda>r. rc_name r = ''api'') (gc_routes yaml_routes) = Some (yaml_route ''api'' None ''/api'' ''http://b'')" by code_simp
  moreover have "forward_path ''/api/orders'' ((yaml_route ''api'' None ''/api'' ''http://b'')\<lparr>rc_strip_path_prefix := True\<rparr>) = ''/orders''"
    by code_simp
  moreover have "forward_path ''/api'' ((yaml_route ''api'' None ''/api'' ''http://b'')\<lparr>rc_strip_path_prefix := True\<rparr>) = ''/''" by code_simp
  ultimately show "strip_prefix_rewrites_path parse YAML"
    by (simp add: strip_prefix_rewrites_path_def router_yaml [of parse YAML, OF assms])
qed

lemma breaker_tests_pass:
  assumes "\<forall>k. clk k + 21000000000 < instant_limit"
  shows "clk 4 < clk 3 + 10000000000 \<Longrightarrow> opens_after_threshold clk"
    and "clk 0 \<le> clk 1 \<Longrightarrow> clk 1 < clk 0 + 10000000000 \<Longrightarrow> half_open_after_cooldown_then_closes_on_success clk"
    and "clk 0 \<le> clk 1 \<Longrightarrow> half_open_failure_reopens clk"
proof -
  have l: "clk k + d < 9223372036854775808000000000" if "d \<le> 21000000000" for k d
    using spec [OF assms, of k] that by (simp add: instant_limit_num)
  note l = l [of 10000000000 0] l [of 10000000000 3] l [of 11000000000 1] l [of 21000000000 1]
  show "clk 4 < clk 3 + 10000000000 \<Longrightarrow> opens_after_threshold clk"
    using l by (simp add: opens_after_threshold_def breaker_eval)
  show "clk 0 \<le> clk 1 \<Longrightarrow> clk 1 < clk 0 + 10000000000 \<Longrightarrow> half_open_after_cooldown_then_closes_on_success clk"
    using l by (simp add: half_open_after_cooldown_then_closes_on_success_def breaker_eval)
  show "clk 0 \<le> clk 1 \<Longrightarrow> half_open_failure_reopens clk"
    using l by (simp add: half_open_failure_reopens_def breaker_eval)
qed

lemma cache_tests_pass:
  assumes "\<forall>k. clk k + from_secs 60 < instant_limit"
  shows "clk 2 < clk 1 + from_secs 60 \<Longrightarrow> stores_and_returns_within_ttl ord clk"
    and "clk 1 \<le> clk 2 \<Longrightarrow> expired_entries_are_dropped ord clk"
proof -
  have l: "clk 1 + from_secs 60 < instant_limit" "clk 1 < instant_limit"
    using spec [OF assms, of 1] by auto
  then show "clk 2 < clk 1 + from_secs 60 \<Longrightarrow> stores_and_returns_within_ttl ord clk"
    by (simp add: stores_and_returns_within_ttl_def cache_eval mutex_new_def instant_limit_num)
  show "clk 1 \<le> clk 2 \<Longrightarrow> expired_entries_are_dropped ord clk"
    using l(2) by (simp add: expired_entries_are_dropped_def cache_eval mutex_new_def instant_limit_num from_millis_def)
qed

text \<open>Three distinct keys cannot all be present in a cache for two.\<close>

lemma length_filter_mono: "(\<And>x. P x \<Longrightarrow> Q x) \<Longrightarrow> length (filter P xs) \<le> length (filter Q xs)"
  by (induction xs) (auto simp: le_SucI)

lemma present_le:
  "cache_ok c \<Longrightarrow> present clk c ks \<le> length (filter (\<lambda>k. cache_view c k \<noteq> None) ks)"
proof (induction ks arbitrary: c)
  case (Cons k ks)
  have "length (filter (\<lambda>k'. cache_view (snd (cache_get c k t)) k' \<noteq> None) ks) \<le> length (filter (\<lambda>k. cache_view c k \<noteq> None) ks)" for t
    by (rule length_filter_mono) (auto simp: get_view [OF Cons.prems] split: if_splits)
  with Cons.IH [OF get_ok [OF Cons.prems, of k "clk (length ks)"]]
  have "present clk (snd (cache_get c k (clk (length ks)))) ks \<le> length (filter (\<lambda>k. cache_view c k \<noteq> None) ks)"
    by (rule order_trans)
  then show ?case
    by (auto simp: case_prod_beta Let_def get_fst [OF Cons.prems] live_def split: option.splits)
qed simp

lemma capacity_test_passes:
  assumes "map_order ord" and "\<forall>k. clk k + from_secs 60 < instant_limit"
  shows "capacity_is_bounded ord clk clk'"
proof -
  let ?put = "\<lambda>k i j c. snd (cache_put ord c k 200 [] [] (clk i) (clk j))"
  let ?c = "?put ''c'' 4 5 (?put ''b'' 2 3 (?put ''a'' 0 1 (cache_new (from_secs 60) 2)))"
  have ttl: "ca_ttl (cache_new (from_secs 60) 2) = from_secs 60" by (simp add: cache_new_def)
  have ok0: "cache_ok (cache_new (from_secs 60) 2)"
    using cache_new_inv [of "from_secs 60" 2] by (simp add: cache_ok_def cache_new_def mutex_new_def)
  have put: "cache_ok c \<Longrightarrow> ca_ttl c = from_secs 60 \<Longrightarrow> cache_ok (?put k i j c)" for k i j c
    using map_order.put_usable [OF assms(1)] assms(2) by simp
  have ok: "cache_ok ?c" using ok0 ttl by (intro put) simp_all
  have cap: "unat (ca_capacity ?c) = 2" by (simp add: cache_new_def max_def word_le_nat_alt)
  have "length (filter (\<lambda>k. cache_view ?c k \<noteq> None) [''a'', ''b'', ''c''])
      = card (set (filter (\<lambda>k. cache_view ?c k \<noteq> None) [''a'', ''b'', ''c'']))"
    by (rule distinct_card [symmetric], rule distinct_filter) simp
  also have "\<dots> \<le> card (fst ` set (guarded (ca_map ?c)))"
    by (rule card_mono) (auto simp: cache_view_def dest!: map_of_SomeD intro: rev_image_eqI)
  also have "\<dots> \<le> 2" using ok cap card_length [of "map fst (guarded (ca_map ?c))"] by (simp add: cache_ok_def cache_inv_def)
  finally show ?thesis
    using present_le [OF ok, of clk' "[''a'', ''b'', ''c'']"] by (simp add: capacity_is_bounded_def case_prod_beta Let_def)
qed

lemmas limiter_eval = in_memory_new_def in_memory_check_eq mem_usable_def in_memory_check_body_def window_entry_def
  duration_since_def saturating_sub_u32_def word_le_nat_alt

lemma limiter_tests_pass:
  assumes "\<forall>k. clk k < clk 0 + from_secs 60"
  shows "in_memory_blocks_over_limit clk" "in_memory_separates_keys clk"
proof -
  have w: "clk k - clk 0 < from_secs 60" for k
    using spec [OF assms, of k] by (simp add: from_secs_def nanos_per_sec_def)
  show "in_memory_blocks_over_limit clk"
    using w [of 1] w [of 2] w [of 3] by (simp add: in_memory_blocks_over_limit_def limiter_eval)
  show "in_memory_separates_keys clk"
    using w [of 1] w [of 2] by (simp add: in_memory_separates_keys_def limiter_eval)
qed

text \<open>The YAML of the balancer's tests: two upstreams, the first with weight \<open>w\<close>.\<close>

definition two_upstreams :: "u32 \<Rightarrow> strategy \<Rightarrow> route_config" where
  "two_upstreams w s = (route_with_defaults ''r''
     [\<lparr>uc_url = ''http://a'', uc_weight = w\<rparr>, \<lparr>uc_url = ''http://b'', uc_weight = 1\<rparr>])\<lparr>rc_strategy := s\<rparr>"

definition two_config :: "u32 \<Rightarrow> strategy \<Rightarrow> gateway_config" where
  "two_config w s = \<lparr>gc_server = server_config_default, gc_routes = [two_upstreams w s]\<rparr>"

lemma two_config_route:
  assumes "parse yaml = Inr (two_config w s)" and "w \<noteq> 0"
  shows "route parse yaml = Ret (two_upstreams w s)"
proof -
  have "validate (two_config w s) = Inr ()"
    using assms(2) by (simp add: validate_Inr_iff valid_config_def valid_route_def valid_upstream_def valid_auth_def two_config_def
        two_upstreams_def route_with_defaults_def auth_policy_default_def starts_with_def match_config_default_def default_prefix_def)
  with assms(1) show ?thesis by (simp add: route_def cfg_def from_yaml_def) (simp add: two_config_def)
qed

lemma picks_round_robin:
  assumes "all_serving b" and "bal_strategy b = RoundRobin" and "unat (bal_rr_cursor b) + k < 2 ^ 64"
  shows "picks True clk k b = Ret (pick_many k clk' b)"
  using assms
proof (induction k arbitrary: b)
  case (Suc k)
  let ?n = "length (bal_rr_order b)"
  let ?i = "bal_rr_order b ! (unat (bal_rr_cursor b) mod ?n)"
  let ?b = "guard_new ?i (b\<lparr>bal_rr_cursor := bal_rr_cursor b + 1\<rparr>)"
  have "?n \<noteq> 0" using Suc.prems(1) by (simp add: all_serving_def bal_ok_def)
  then have i: "?i < length (bal_upstreams b)" using Suc.prems(1) by (simp add: all_serving_def bal_ok_def)
  have c: "unat (bal_rr_cursor b + 1) = Suc (unat (bal_rr_cursor b))" using Suc.prems(3) by (simp add: unat_Suc_u64)
  have "pick [] t b = (Ret (Some ?i), ?b)" for t
    using Suc.prems(1,2) i by (simp add: pick_def pick_round_robin_serving take_guard_def)
  with Suc.IH [of ?b] Suc.prems i c show ?case by (simp add: all_serving_guard_new)
qed simp

lemmas pick_eval = two_upstreams_def from_route_def upstream_from_def route_with_defaults_def pick_def
  pick_round_robin_def pick_least_conn_def probe_at_def eligible_def take_guard_def least_update_def upd_upstream_def
  guard_new_def guard_drop_def set_healthy_def allow_at_not_open Let_def max_def word_le_nat_alt

lemmas loop_eval =
  picks.simps(2) [of keep clk "pred_numeral n", folded numeral_eq_Suc]
  rr_loop.simps(2) [of "pred_numeral n", folded numeral_eq_Suc]
  least_loop.simps(2) [of "pred_numeral n", folded numeral_eq_Suc] for keep clk n

lemma balancer_tests_pass:
  shows "parse yaml = Inr (two_config 1 RoundRobin) \<Longrightarrow> round_robin_alternates parse yaml clk"
    and "parse yaml = Inr (two_config 3 RoundRobin) \<Longrightarrow> weighted_round_robin_respects_weight parse yaml clk"
    and "parse yaml = Inr (two_config 1 LeastConnections) \<Longrightarrow> least_connections_prefers_idle parse yaml clk"
    and "parse yaml = Inr (two_config 1 RoundRobin) \<Longrightarrow> unhealthy_upstreams_are_skipped parse yaml clk"
proof -
  have "picks True clk 2 (from_route (two_upstreams 1 RoundRobin)) = Ret [0, 1]"
    by (simp add: pick_eval loop_eval)
  then show "parse yaml = Inr (two_config 1 RoundRobin) \<Longrightarrow> round_robin_alternates parse yaml clk"
    by (simp add: round_robin_alternates_def two_config_route)
  have "picks True clk 2 (from_route (two_upstreams 1 LeastConnections)) = Ret [0, 1]"
    by (simp add: pick_eval loop_eval)
  then show "parse yaml = Inr (two_config 1 LeastConnections) \<Longrightarrow> least_connections_prefers_idle parse yaml clk"
    by (simp add: least_connections_prefers_idle_def two_config_route)
  have "picks False clk 5 (upd_upstream 0 (set_healthy False) (from_route (two_upstreams 1 RoundRobin))) = Ret [1, 1, 1, 1, 1]"
    by (simp add: pick_eval loop_eval numeral_2_eq_2 [symmetric])
  then show "parse yaml = Inr (two_config 1 RoundRobin) \<Longrightarrow> unhealthy_upstreams_are_skipped parse yaml clk"
    by (simp add: unhealthy_upstreams_are_skipped_def two_config_route)
  have b: "from_route (two_upstreams 3 RoundRobin) = sample_balancer RoundRobin"
    by (simp add: two_upstreams_def sample_balancer_def)
  have "picks True clk 8 (sample_balancer RoundRobin) = Ret [0, 0, 0, 1, 0, 0, 0, 1]"
    by (subst picks_round_robin [where clk' = "\<lambda>_. 0"], simp_all add: sample_balancer_ok sample_balancer_rr_order(2))
      (subst pick_many_round_robin, simp_all add: sample_balancer_ok sample_balancer_rr_order(2) upt_rec)
  then show "parse yaml = Inr (two_config 3 RoundRobin) \<Longrightarrow> weighted_round_robin_respects_weight parse yaml clk"
    by (simp add: weighted_round_robin_respects_weight_def two_config_route b)
qed

text \<open>
  The tokens the tests ask for. Of the JWT library the tests use that such a token is visible text
  without blanks around it, and decodes to its claims under its own secret and under no other.
\<close>

definition issued :: "(claims \<times> string) list" where
  "issued = [([''sub'' \<mapsto> JString ''user-1'', ''role'' \<mapsto> JString ''admin'', ''exp'' \<mapsto> JNumber ''9999999999''], ''topsecret''),
     ([''exp'' \<mapsto> JNumber ''9999999999''], ''other''),
     ([''exp'' \<mapsto> JNumber ''9999999999'', ''role'' \<mapsto> JString ''user''], ''s'')]"

lemma auth_tests_pass:
  shows "api_key_accepts_and_rejects list_http dec" and "none_policy_allows_all list_http dec"
    and "\<forall>(cl, s) \<in> set issued. \<exists>tok. enc cl s = Some tok \<and> tok \<noteq> [] \<and> visible_ascii tok \<and> trim tok = tok
           \<and> (\<forall>s'. dec tok s' jwt_settings = (if s' = s then Some cl else None)) \<Longrightarrow>
         jwt_valid_token_is_accepted list_http enc dec \<and> jwt_wrong_secret_is_rejected list_http enc dec
         \<and> jwt_missing_required_claim_is_rejected list_http enc dec"
proof -
  show "api_key_accepts_and_rejects list_http dec"
    by (simp add: api_key_accepts_and_rejects_def authorized_def headers_with_def extract_api_key_def header_str_def http_eval)
  show "none_policy_allows_all list_http dec" by (simp add: none_policy_allows_all_def authorized_def)
  assume lib: "\<forall>(cl, s) \<in> set issued. \<exists>tok. enc cl s = Some tok \<and> tok \<noteq> [] \<and> visible_ascii tok \<and> trim tok = tok
           \<and> (\<forall>s'. dec tok s' jwt_settings = (if s' = s then Some cl else None))"
  have h: "authorized list_http dec (Jwt s' req) (headers_with list_http ''authorization'' (''Bearer '' @ tok))
      = Ret (s' = s \<and> check_claims cl req = Inr ())"
    if "tok \<noteq> []" "visible_ascii tok" "trim tok = tok" "\<forall>s'. dec tok s' jwt_settings = (if s' = s then Some cl else None)"
    for s s' req tok cl
  proof -
    have "visible_ascii (''Bearer '' @ tok)" using that(2) by (simp add: visible_ascii_def)
    moreover have "header_name list_http ''authorization'' = Some ''authorization''" by (simp add: http_eval)
    ultimately show ?thesis
      using that by (simp add: authorized_def headers_with_def validate_jwt_def bearer_token_def header_str_def strip_prefix_def)
  qed
  have t: "\<exists>tok. enc cl s = Some tok \<and> (\<forall>s' req. authorized list_http dec (Jwt s' req)
      (headers_with list_http ''authorization'' (''Bearer '' @ tok)) = Ret (s' = s \<and> check_claims cl req = Inr ()))" if i: "(cl, s) \<in> set issued" for cl s
  proof -
    obtain tok where "enc cl s = Some tok" and tok: "tok \<noteq> []" "visible_ascii tok" "trim tok = tok"
      "\<forall>s'. dec tok s' jwt_settings = (if s' = s then Some cl else None)" using bspec [OF lib i] by blast
    with h [OF tok] show ?thesis by auto
  qed
  show "jwt_valid_token_is_accepted list_http enc dec \<and> jwt_wrong_secret_is_rejected list_http enc dec
         \<and> jwt_missing_required_claim_is_rejected list_http enc dec"
    using t [of "fst (issued ! 0)" "snd (issued ! 0)"] t [of "fst (issued ! 1)" "snd (issued ! 1)"]
      t [of "fst (issued ! 2)" "snd (issued ! 2)"]
    by (auto simp: issued_def jwt_valid_token_is_accepted_def jwt_wrong_secret_is_rejected_def
        jwt_missing_required_claim_is_rejected_def)
qed

lemma transform_tests_pass:
  "strips_hop_by_hop_and_adds_forwarding list_http" "appends_to_existing_forwarded_for list_http"
  "add_and_remove_transforms list_http"
proof -
  show "strips_hop_by_hop_and_adds_forwarding list_http" by code_simp
  show "appends_to_existing_forwarded_for list_http" by code_simp
  show "add_and_remove_transforms list_http"
    by (simp add: add_and_remove_transforms_def header_transforms_default_def apply_transforms_def remove_header_def
        set_header_def http_eval)
qed

end
