(* ===== verification/Spec2Isabelle.thy ===== *)
theory Spec2Isabelle
  imports Lifecycle Load_Limits Containment Replay Integration_Tests Unit_Tests
begin

text \<open>
  This development models and verifies the HTTP API gateway of this repository: a reverse proxy that
  routes a request by host and path, authenticates it, limits its rate, answers it from a cache or
  forwards it to one of the route's upstreams with load balancing, circuit breaking and retries.

  \<^bold>\<open>The program and its theories\<close> (paths under \<^verbatim>\<open>src/crates/\<close>).

  \<^item> \<^verbatim>\<open>Gateway_Prelude\<close>: what the Rust sources use of the language and its standard
    library: fixed-width integers as words, \<^verbatim>\<open>Instant\<close> and \<^verbatim>\<open>Duration\<close> as
    nanoseconds with the panic of an overflowing addition, string functions, panics as values
    (\<open>res\<close>), a mutex that a panic poisons (\<open>with_lock\<close>), and the locale \<open>machine\<close> of a step relation
    with an invariant.
  \<^item> \<^verbatim>\<open>Gateway_Config\<close> (\<^verbatim>\<open>core/src/config.rs\<close>, \<^verbatim>\<open>error.rs\<close>): every
    configuration struct and enum, the serde defaults, \<^verbatim>\<open>from_yaml\<close>, \<^verbatim>\<open>from_file\<close> and
    \<^verbatim>\<open>validate\<close> with its errors in order. Shown: what a validated configuration satisfies
    (\<open>valid_config\<close>), and which error is reported first.
  \<^item> \<^verbatim>\<open>Router\<close> (\<^verbatim>\<open>core/src/router.rs\<close>): route matching equals a specification by
    specificity, does not depend on the table's order, and path rewriting can be undone.
  \<^item> \<^verbatim>\<open>Breaker\<close> (\<^verbatim>\<open>gateway/src/breaker.rs\<close>): the circuit breaker under its mutex with
    clock readings as arguments; it refines an abstract automaton, its invariant holds in every
    reachable state, and its transitions, cooldown and overflow behaviour are characterised.
  \<^item> \<^verbatim>\<open>Balancer\<close> (\<^verbatim>\<open>gateway/src/balancer.rs\<close>): weighted round robin and least
    connections with the fallback; the locale \<open>selector\<close> is the contract of a selection routine,
    interpreted on all three; guards are counted exactly.
  \<^item> \<^verbatim>\<open>Http_Headers\<close>: the contract of the \<^verbatim>\<open>http\<close> crate's header map (locale
    \<open>http_headers\<close>) with a multimap that satisfies it.
  \<^item> \<^verbatim>\<open>Transform\<close> (\<^verbatim>\<open>gateway/src/transform.rs\<close>): which headers are dropped, kept,
    added and rewritten in both directions.
  \<^item> \<^verbatim>\<open>Response_Cache\<close> (\<^verbatim>\<open>gateway/src/cache.rs\<close>): the locale \<open>ttl_store\<close> states what a
    store with expiry promises; the cache meets it for every iteration order of its map.
  \<^item> \<^verbatim>\<open>Rate_Limit\<close> (\<^verbatim>\<open>gateway/src/ratelimit.rs\<close>): fixed-window counting; the locale
    \<open>window_counter\<close> is met by the in-memory limiter and, on a counting server, by the Redis one.
  \<^item> \<^verbatim>\<open>Auth\<close> (\<^verbatim>\<open>gateway/src/auth.rs\<close>): API keys and JWT claims.
  \<^item> \<^verbatim>\<open>Telemetry\<close> (\<^verbatim>\<open>telemetry/src/lib.rs\<close>): the collectors as values.
  \<^item> \<^verbatim>\<open>Gateway_State\<close> (\<^verbatim>\<open>gateway/src/state.rs\<close>): per-route runtimes and limiter choice.
  \<^item> \<^verbatim>\<open>Proxy\<close> (\<^verbatim>\<open>gateway/src/proxy.rs\<close>): the whole handler, stage by stage in the order of
    the code (\<open>auth_stage\<close>, \<open>rate_stage\<close>, \<open>cache_stage\<close>, \<open>forward_stage\<close>, the attempt loop
    \<open>attempts\<close>, \<open>finish_response\<close>), with every early return and metric.
  \<^item> \<^verbatim>\<open>Pipeline\<close>: theorems on the handler that need several components at once.
  \<^item> \<^verbatim>\<open>Replay\<close>: a stored answer and its replay, headers included.
  \<^item> \<^verbatim>\<open>Tasks\<close>: the handler once more, as the compiler turns an \<^verbatim>\<open>async fn\<close> into a state
    machine: a task runs to its next \<^verbatim>\<open>.await\<close> and is suspended there with the destructors it
    owes; driven alone it is the handler of \<^verbatim>\<open>Proxy\<close>. \<^verbatim>\<open>Task_Logic\<close> has the rules for
    following a task under interference, \<^verbatim>\<open>Task_Traces\<close> replays what a task met as an
    environment of the handler.
  \<^item> \<^verbatim>\<open>Concurrency\<close>: any number of tasks of one route over one shared state, polled in any
    order, with arriving and disconnecting clients, health checks, and the other routes as an
    environment. Shown: every request that ends has run the handler, active counts are requests in
    flight, nothing panics, and every request ends after a bounded number of polls.
  \<^item> \<^verbatim>\<open>Clearance\<close>: what a task does to the state all routes share: it consults the limiter
    once, leaves the gauge of connections alone, and calls an upstream only after the limiter let it
    through.
  \<^item> \<^verbatim>\<open>Gateway_System\<close>: the whole gateway as a step relation (\<open>gateway_step\<close>): requests of all
    routes arrive through \<^verbatim>\<open>handle\<close>, are polled, dropped, and probes set health flags. What one
    route sees of a run is a run of the system of \<^verbatim>\<open>Concurrency\<close> (\<open>route_runs\<close>).
  \<^item> \<^verbatim>\<open>Gateway_Load\<close>, \<^verbatim>\<open>Load_Limits\<close>: what holds of the gateway under any load: requests run
    the handler, counts and gauge are exact (the gauge keeps every lost connection), nothing
    panics, every request ends and the gateway drains, the rate limit holds.
  \<^item> \<^verbatim>\<open>Enforcement\<close>: the rate limit and the exclusion of unhealthy or blocked upstreams,
    followed through the whole pipeline to the upstream calls.
  \<^item> \<^verbatim>\<open>Containment\<close>: how many calls reach an upstream that fails before its breaker
    stops them.
  \<^item> \<^verbatim>\<open>Health\<close> (\<^verbatim>\<open>gateway/src/health.rs\<close>): the probing tasks as a step relation.
  \<^item> \<^verbatim>\<open>Server\<close> (\<^verbatim>\<open>gateway/src/server.rs\<close>, \<^verbatim>\<open>main.rs\<close>): routers, admin
    endpoints, start-up.
  \<^item> \<^verbatim>\<open>Lifecycle\<close> (the second half of \<^verbatim>\<open>main.rs\<close>): from serving to a clean exit, as a
    step relation.
  \<^item> \<^verbatim>\<open>Harness\<close> (\<^verbatim>\<open>integration-tests/src/lib.rs\<close>): the mock upstream and the test
    gateway; a request goes through the gateway to the mock and back.
  \<^item> \<^verbatim>\<open>Unit_Tests\<close>: the repository's unit tests as functions of the clock and of the libraries
    they use; they pass for every clock that runs as a test expects.
  \<^item> \<^verbatim>\<open>Integration_Tests\<close> (\<^verbatim>\<open>integration-tests/tests/proxy.rs\<close>): the end-to-end tests as
    functions that start mock upstreams and a gateway and send requests through its router; all
    twelve pass on a concrete instance of the libraries, by evaluating the whole model.

  \<^bold>\<open>State and concurrency.\<close> A request is one task. The state it shares with others (metrics,
  limiter, balancer and cache of its route) is a record passed through the stages. Mutex sections
  are atomic; at every \<^verbatim>\<open>.await\<close> other tasks may change the shared state, by the function
  \<open>e_others\<close>, about which a theorem assumes only what it states (nothing for the retry and header
  theorems; that the count of upstream guards is kept, or that the state stays usable, for others).
  There, too, the future of a request may be dropped because its client has gone; dropping runs the
  same destructors as a panic, and both are the value \<open>Panic\<close>. The systems of
  \<^verbatim>\<open>Concurrency\<close> and \<^verbatim>\<open>Gateway_System\<close> make the other tasks explicit: their steps are
  stretches of code between two \<^verbatim>\<open>.await\<close>s of one task, and every request of them is a run of
  the handler for the \<open>e_others\<close> that replays what the request met. The balancer, the breaker, the
  cache, the health checks and the process as a whole also have step relations over all
  interleavings of their operations. Inside a balancer scan the clock is a function of the
  reading's position.

  \<^bold>\<open>Parameters.\<close> Code that is not in the repository is an argument: the YAML parser and the file
  system, the \<^verbatim>\<open>http\<close> crate (record \<open>http_api\<close>), JWT decoding, the Redis commands, the HTTP
  client's outcomes, reading a body, the order of a \<^verbatim>\<open>HashMap\<close>, UUIDs, clock readings, the
  body-limit layer, the metrics encoder, how a server ends. The locales \<open>http_headers\<close>, \<open>map_order\<close> and
  \<open>redis_server\<close> name the laws theorems rely on, and each is interpreted on a concrete instance.

  \<^bold>\<open>Bounds and termination.\<close> All loops are structural recursions or bounded by a list or by the
  configured number of retries; no fuel is used. Integers keep the width of the source: the window
  counter is a 32-bit word that wraps, the active count a signed 64-bit word, the cursor a
  64-bit word; \<open>usize\<close> is 64 bits. An \<open>Instant\<close> has room up to \<open>instant_limit\<close>, beyond which an
  addition panics.

  \<^bold>\<open>Not modelled.\<close> Sockets, TLS, the delivery of signals and the task runtime are I/O: of
  \<^verbatim>\<open>serve_proxy\<close> and \<^verbatim>\<open>serve_admin\<close> only binding, serving and how they end is modelled;
  tracing output has no effect on the modelled state; the Prometheus exposition format and the histogram buckets belong to
  a third-party crate; that a Redis key expires is left to the server's state, and the commands of
  one Redis check are one step of a task. Stretches of two tasks that overlap on different worker
  threads are taken one after the other. An integration test is given the configuration its YAML
  parses to, and the 5 s limit of its client is left out.

  \<^bold>\<open>This theory\<close> holds the property that spans the whole program, from start-up to the answers.
\<close>

section \<open>From start-up to answers\<close>

lemma handle_all_length: "length (fst (handle_all h js)) = length js"
  by (induction js arbitrary: h) (auto simp: case_prod_beta Let_def)

text \<open>C1. A gateway that has started answers: whatever configuration it was started with, every request
  of every sequence of requests gets a response, with no panic and no lock poisoned, whatever the
  upstreams return, as long as the environment of each request is sound for its routes (the client
  waits, other tasks keep the shared state usable, and the clock has room for the configured
  cooldowns and times to live).\<close>

theorem started_gateway_always_answers:
  assumes "startup parse rd sock open_client manager client_ok args vars = Ret (Inr (pa, aa, g))"
    and "\<forall>(E, rq) \<in> set jobs. env_fits E g"
  shows "length (fst (handle_all g jobs)) = length jobs
     \<and> list_all (\<lambda>r. \<exists>a. r = Ret a) (fst (handle_all g jobs))"
proof -
  obtain cfg where "valid_config cfg" "gateway_build (redis_connect open_client manager) client_ok cfg zero_metrics = Some g"
    using assms(1) by (auto simp: startup_Inr)
  then have "gateway_ok g" using built_gateway_ok [of cfg] by (simp add: validate_Inr_iff)
  then show ?thesis using handle_all_ok [OF _ assms(2)] by (simp add: handle_all_length)
qed

theorem started_gateway_always_answers_witness:
  "\<exists>g. startup (\<lambda>_. Inr one_route) (\<lambda>_. Inr ''routes'') Some (\<lambda>_. None :: unit option) (\<lambda>_. None) True [''gw''] (\<lambda>_. None)
       = Ret (Inr (''0.0.0.0:8080'', ''0.0.0.0:9090'', g))
     \<and> list_all (\<lambda>r. \<exists>a. r = Ret a)
         (fst (handle_all g [(sample_env, sample_request ''POST''), (sample_env, sample_request ''GET'')]))"
proof -
  let ?connect = "redis_connect (\<lambda>_. None :: unit option) (\<lambda>_. None)"
  obtain g :: "(string \<Rightarrow> nat) gateway_state" where g: "gateway_build ?connect True one_route zero_metrics = Some g"
    by (simp add: gateway_build_def)
  have v: "valid_config one_route" using one_route_valid by (simp add: validate_Inr_iff)
  have s: "startup (\<lambda>_. Inr one_route) (\<lambda>_. Inr ''routes'') Some (\<lambda>_. None :: unit option) (\<lambda>_. None) True [''gw'']
      (\<lambda>_. None) = Ret (Inr (''0.0.0.0:8080'', ''0.0.0.0:9090'', g))"
    using g v by (simp add: startup_Inr) (simp add: one_route_def server_config_default_def default_bind_def
        default_admin_bind_def)
  from started_gateway_always_answers [OF s, of "[(sample_env, sample_request ''POST''), (sample_env, sample_request ''GET'')]"]
    one_route_fits [OF g] s show ?thesis by auto
qed

end
